(* ===== verification/Wn_Prelude.thy ===== *)
theory Wn_Prelude
  imports Main "HOL-Library.Word" "HOL-Library.Monad_Syntax"
begin

text \<open>
  Shared vocabulary of the wolfNanoTLS model: the C integer types as words, caller
  buffers as byte lists, the \<open>option\<close> monad for C code that may read or write out of
  bounds, big-endian encodings, and the lemmas on them that the component theories share.

  A C function is modelled by a HOL function into \<open>'a option\<close> when it dereferences a
  buffer at a computed index or runs a loop with no static bound. \<open>None\<close> is "the call has
  no defined result": an access outside the memory the pointer addresses, or a loop that
  never ends. A theorem that such a function returns \<open>Some\<close> therefore states memory safety
  and termination at once. Error returns of the code are ordinary values (the \<open>int\<close>
  return code), never \<open>None\<close>.
\<close>

unbundle bit_operations_syntax

section \<open>Types\<close>

type_synonym byte = "8 word"
type_synonym bytes = "byte list"
type_synonym word16 = "16 word"
type_synonym word32 = "32 word"
type_synonym word64 = "64 word"

named_theorems mem_simps \<open>sequencing in the option monad, and accesses to a buffer that stay inside it\<close>

section \<open>Memory accesses\<close>

text \<open>
  The memory a pointer addresses is the byte list from the pointer on. A load or a store
  outside it has no defined result.
\<close>

definition mem_get :: "bytes \<Rightarrow> nat \<Rightarrow> byte option" where
  "mem_get b i = (if i < length b then Some (b ! i) else None)"

definition mem_read :: "bytes \<Rightarrow> nat \<Rightarrow> nat \<Rightarrow> bytes option" where
  "mem_read b off n = (if off + n \<le> length b then Some (take n (drop off b)) else None)"

definition mem_write :: "bytes \<Rightarrow> nat \<Rightarrow> bytes \<Rightarrow> bytes option" where
  "mem_write b off src =
     (if off + length src \<le> length b
      then Some (take off b @ src @ drop (off + length src) b) else None)"

definition mem_set :: "bytes \<Rightarrow> nat \<Rightarrow> byte \<Rightarrow> bytes option" where
  "mem_set b i v = mem_write b i [v]"

definition force_zero :: "bytes \<Rightarrow> nat \<Rightarrow> nat \<Rightarrow> bytes option" where
  "force_zero b off n = mem_write b off (replicate n 0)"

text \<open>
  Total correctness in the option monad: the computation has a result and the result
  satisfies the postcondition.
\<close>

definition runs :: "'a option \<Rightarrow> ('a \<Rightarrow> bool) \<Rightarrow> bool" where
  "runs m Q \<longleftrightarrow> (\<exists>x. m = Some x \<and> Q x)"

section \<open>Big-endian encodings (RFC 8446, section 3)\<close>

fun be_bytes :: "nat \<Rightarrow> nat \<Rightarrow> bytes" where
  "be_bytes 0 n = []"
| "be_bytes (Suc k) n = word_of_nat (n div 256 ^ k) # be_bytes k n"

definition be_val :: "bytes \<Rightarrow> nat" where
  "be_val = foldl (\<lambda>a b. a * 256 + unat b) 0"

section \<open>The option monad\<close>

lemma runs_Some [simp]: "runs (Some x) Q \<longleftrightarrow> Q x"
  by (simp add: runs_def)

lemma runs_None [simp]: "\<not> runs None Q"
  by (simp add: runs_def)

lemma runs_bind [mem_simps]: "runs (m \<bind> k) Q \<longleftrightarrow> runs m (\<lambda>x. runs (k x) Q)"
  by (cases m) simp_all

lemma runs_if: "runs (if b then m else n) Q \<longleftrightarrow> (if b then runs m Q else runs n Q)"
  by simp

lemma runs_mono: "runs m P \<Longrightarrow> (\<And>x. P x \<Longrightarrow> Q x) \<Longrightarrow> runs m Q"
  by (auto simp: runs_def)

lemma runsI: "m = Some x \<Longrightarrow> Q x \<Longrightarrow> runs m Q"
  by (simp add: runs_def)

lemma runs_SomeD: "m = Some x \<Longrightarrow> runs m Q \<Longrightarrow> Q x"
  by (simp add: runs_def)

lemma runs_conj: "runs m P \<Longrightarrow> runs m Q \<Longrightarrow> runs m (\<lambda>x. P x \<and> Q x)"
  by (auto simp: runs_def)

text \<open>Elimination for computations that return a tuple.\<close>

lemma runs2E:
  assumes "runs m (\<lambda>(a, b). Q a b)"
  obtains a b where "m = Some (a, b)" and "Q a b"
  using assms by (auto simp: runs_def)

lemma runs3E:
  assumes "runs m (\<lambda>(a, b, c). Q a b c)"
  obtains a b c where "m = Some (a, b, c)" and "Q a b c"
  using assms by (auto simp: runs_def)

lemma runs4E:
  assumes "runs m (\<lambda>(a, b, c, d). Q a b c d)"
  obtains a b c d where "m = Some (a, b, c, d)" and "Q a b c d"
  using assms by (auto simp: runs_def)

lemma runs5E:
  assumes "runs m (\<lambda>(a, b, c, d, e). Q a b c d e)"
  obtains a b c d e where "m = Some (a, b, c, d, e)" and "Q a b c d e"
  using assms by (auto simp: runs_def)

section \<open>Buffers\<close>

lemma mem_get_in [mem_simps]: "i < length b \<Longrightarrow> mem_get b i = Some (b ! i)"
  by (simp add: mem_get_def)

lemma mem_read_in [mem_simps]: "off + n \<le> length b \<Longrightarrow> mem_read b off n = Some (take n (drop off b))"
  by (simp add: mem_read_def)

lemma mem_write_in [mem_simps]:
  "off + length src \<le> length b \<Longrightarrow>
   mem_write b off src = Some (take off b @ src @ drop (off + length src) b)"
  by (simp add: mem_write_def)

lemma mem_set_in [mem_simps]: "i < length b \<Longrightarrow> mem_set b i v = Some (b[i := v])"
  by (simp add: mem_set_def mem_write_def upd_conv_take_nth_drop)

lemma mem_get_eq_Some [simp]: "mem_get b i = Some v \<longleftrightarrow> i < length b \<and> v = b ! i"
  by (auto simp: mem_get_def)

lemma mem_write_length: "mem_write b off src = Some b' \<Longrightarrow> length b' = length b"
  by (auto simp: mem_write_def split: if_splits)

lemma mem_set_length: "mem_set b i v = Some b' \<Longrightarrow> length b' = length b"
  by (auto simp: mem_set_def dest: mem_write_length)

lemma force_zero_length: "force_zero b off n = Some b' \<Longrightarrow> length b' = length b"
  by (auto simp: force_zero_def dest: mem_write_length)

lemma take_mem_write:
  "mem_write b off src = Some b' \<Longrightarrow> n \<le> off \<Longrightarrow> take n b' = take n b"
  by (auto simp: mem_write_def split: if_splits)

lemma runs_mem_read: "runs (mem_read b off n) Q \<longleftrightarrow> off + n \<le> length b \<and> Q (take n (drop off b))"
  by (simp add: mem_read_def)

lemma runs_mem_get: "runs (mem_get b i) Q \<longleftrightarrow> i < length b \<and> Q (b ! i)"
  by (simp add: mem_get_def)

lemma runs_mem_write:
  "runs (mem_write b off src) Q \<longleftrightarrow>
   off + length src \<le> length b \<and> Q (take off b @ src @ drop (off + length src) b)"
  by (simp add: mem_write_def)

lemmas runs_mem = runs_mem_read runs_mem_get runs_mem_write

section \<open>Words\<close>

lemma unat_add_no_wrap:
  fixes a b :: "'a::len word"
  shows "unat a + unat b < 2 ^ LENGTH('a) \<Longrightarrow> unat (a + b) = unat a + unat b"
  by (simp add: unat_word_ariths)

lemma unat_sub_no_wrap:
  fixes a b :: "'a::len word"
  shows "b \<le> a \<Longrightarrow> unat (a - b) = unat a - unat b"
  by (simp add: unat_sub)

lemma byte_lt_256 [simp]: "unat (b :: byte) < 256"
  using unsigned_less [where 'a = nat and w = b] by simp

lemma byte_le_255 [simp]: "unat (b :: byte) \<le> 255"
  using byte_lt_256 [of b] by linarith

lemma word16_lt [simp]: "unat (v :: word16) < 65536"
  using unsigned_less [where 'a = nat and w = v] by simp

lemma word32_lt [simp]: "unat (v :: word32) < 4294967296"
  using unsigned_less [where 'a = nat and w = v] by simp

lemma word64_lt [simp]: "unat (v :: word64) < 18446744073709551616"
  using unsigned_less [where 'a = nat and w = v] by simp

lemma unat_ucast_up:
  assumes "LENGTH('a) \<le> LENGTH('b)"
  shows "unat (ucast (x :: 'a::len word) :: 'b::len word) = unat x"
proof -
  have "unat x < 2 ^ LENGTH('b)"
    by (rule less_le_trans [OF unsigned_less power_increasing [OF assms]]) simp
  then show ?thesis
    by (simp add: unsigned_ucast_eq take_bit_nat_eq_self)
qed

lemma unat_ucast_byte16 [simp]: "unat (ucast (b :: byte) :: word16) = unat b"
  by (simp add: unat_ucast_up)

lemma unat_ucast_byte32 [simp]: "unat (ucast (b :: byte) :: word32) = unat b"
  by (simp add: unat_ucast_up)

lemma unat_ucast_16_32 [simp]: "unat (ucast (v :: word16) :: word32) = unat v"
  by (simp add: unat_ucast_up)

lemma unat_word32_of_nat [simp]: "n < 2 ^ 32 \<Longrightarrow> unat (word_of_nat n :: word32) = n"
  by (simp add: unat_of_nat)

lemma unat_advance: "unat (a :: word32) + k < 2 ^ 32 \<Longrightarrow> unat (a + word_of_nat k) = unat a + k"
  by (simp add: unat_add_no_wrap)

lemma le_unat_lt: "k \<le> unat (n :: word32) \<Longrightarrow> k < 2 ^ 32"
  using word32_lt [of n] by (simp del: word32_lt)

lemma word_and_ff: "(x :: 'a::len word) AND 0xff = take_bit 8 x"
  by (simp add: take_bit_eq_mask mask_eq_exp_minus_1)

lemma byte_of_drop_bit: "(ucast (drop_bit k (v :: 'a::len word)) :: byte) = word_of_nat (unat v div 2 ^ k)"
  by (rule bit_word_eqI) (auto simp: bit_simps simp flip: drop_bit_eq_div)

lemma byte_of_take_bit: "(ucast (take_bit 8 (v :: 'a::len word)) :: byte) = ucast v"
  by (rule bit_word_eqI) (auto simp: bit_simps)

lemma byte_of_word: "(ucast (v :: 'a::len word) :: byte) = word_of_nat (unat v)"
  using byte_of_drop_bit [of 0 v] by simp

lemmas byte_of_simps = word_and_ff byte_of_take_bit byte_of_drop_bit

lemma int_or_eq_0_iff: "(a :: int) OR b = 0 \<longleftrightarrow> a = 0 \<and> b = 0"
proof
  assume "a OR b = 0"
  then have "\<forall>n. \<not> bit a n \<and> \<not> bit b n"
    by (metis bit_0_eq bit_or_iff bot_apply bot_bool_def)
  then show "a = 0 \<and> b = 0"
    by (simp add: bit_eq_iff)
qed simp

section \<open>Encodings\<close>

lemma length_be_bytes [simp]: "length (be_bytes k n) = k"
  by (induction k) simp_all

lemma be_bytes_eq_Nil [simp]: "be_bytes k n = [] \<longleftrightarrow> k = 0"
  by (cases k) simp_all

lemma foldl_be_val: "foldl (\<lambda>a b. a * 256 + unat (b :: byte)) a bs = a * 256 ^ length bs + be_val bs"
proof (induction bs arbitrary: a)
  case Nil
  then show ?case by (simp add: be_val_def)
next
  case (Cons b bs)
  have "be_val (b # bs) = unat b * 256 ^ length bs + be_val bs"
    using Cons.IH [of "unat b"] by (simp add: be_val_def)
  then show ?case
    using Cons.IH [of "a * 256 + unat b"] by (simp add: algebra_simps)
qed

lemma be_val_Nil [simp]: "be_val [] = 0"
  by (simp add: be_val_def)

lemma be_val_Cons: "be_val (b # bs) = unat b * 256 ^ length bs + be_val bs"
  using foldl_be_val [of "unat b" bs] by (simp add: be_val_def)

lemma be_val_lt: "be_val bs < 256 ^ length bs"
proof (induction bs)
  case (Cons b bs)
  have "unat b * 256 ^ length bs + be_val bs < unat b * 256 ^ length bs + 256 ^ length bs"
    using Cons.IH by simp
  also have "\<dots> = (unat b + 1) * 256 ^ length bs"
    by (simp add: algebra_simps)
  also have "\<dots> \<le> 256 * 256 ^ length bs"
    by (rule mult_le_mono1) (use byte_lt_256 [of b] in linarith)
  finally show ?case
    by (simp add: be_val_Cons)
qed simp

lemma be_val_be_bytes: "be_val (be_bytes k n) = n mod 256 ^ k"
proof (induction k)
  case (Suc k)
  have "unat (word_of_nat (n div 256 ^ k) :: byte) = n div 256 ^ k mod 256"
    by (simp add: unat_of_nat)
  then have "be_val (be_bytes (Suc k) n) = 256 ^ k * (n div 256 ^ k mod 256) + n mod 256 ^ k"
    using Suc.IH by (simp add: be_val_Cons)
  also have "\<dots> = n mod (256 ^ k * 256)"
    by (rule mod_mult2_eq [symmetric])
  finally show ?case by (simp add: mult.commute)
qed simp

lemma be_bytes_be_val: "be_bytes (length bs) (be_val bs + a * 256 ^ length bs) = bs"
proof (induction bs arbitrary: a)
  case (Cons b bs)
  let ?p = "256 ^ length bs :: nat"
  have split: "be_val (b # bs) + a * 256 ^ length (b # bs) = be_val bs + (unat b + 256 * a) * ?p"
    by (simp add: be_val_Cons algebra_simps)
  have "(be_val bs + (unat b + 256 * a) * ?p) div ?p = unat b + 256 * a"
    using be_val_lt [of bs] by simp
  moreover have "(word_of_nat (unat b + 256 * a) :: byte) = b"
  proof -
    have "(256 :: byte) = 0" by simp
    then show ?thesis by (simp only: of_nat_add of_nat_mult of_nat_numeral) simp
  qed
  ultimately show ?case
    using Cons.IH [of "unat b + 256 * a"] by (simp only: split) simp
qed simp

lemma be_bytes_of_be_val [simp]: "length bs = k \<Longrightarrow> be_bytes k (be_val bs) = bs"
  using be_bytes_be_val [of bs 0] by simp

lemma be_bytes_1: "be_bytes (Suc 0) n = [word_of_nat n]"
  by simp

lemma be_bytes_2: "be_bytes 2 n = [word_of_nat (n div 256), word_of_nat n]"
  by (simp add: numeral_2_eq_2)

lemma be_bytes_3: "be_bytes 3 n = [word_of_nat (n div 65536), word_of_nat (n div 256), word_of_nat n]"
  by (simp add: numeral_3_eq_3)

end
