(* ===== verification/Wn_Codes.thy ===== *)
theory Wn_Codes
  imports Wn_Prelude
begin

text \<open>
  The return codes of \<open>src/include/wolfnano/wolfnano.h\<close>, their strings
  (\<open>src/src/wn_error.c\<close>) and the alert description a failed handshake reports for them
  (\<open>src/src/wn_alert.h\<close>).
\<close>

abbreviation (input) WOLFNANO_SUCCESS :: int where "WOLFNANO_SUCCESS \<equiv> 0"
abbreviation (input) WOLFNANO_E_INVALID_ARG :: int where "WOLFNANO_E_INVALID_ARG \<equiv> - 1"
abbreviation (input) WOLFNANO_E_CRYPTO :: int where "WOLFNANO_E_CRYPTO \<equiv> - 2"
abbreviation (input) WOLFNANO_E_UNSUPPORTED :: int where "WOLFNANO_E_UNSUPPORTED \<equiv> - 3"
abbreviation (input) WOLFNANO_E_BAD_STATE :: int where "WOLFNANO_E_BAD_STATE \<equiv> - 4"
abbreviation (input) WOLFNANO_E_UNEXPECTED_MSG :: int where "WOLFNANO_E_UNEXPECTED_MSG \<equiv> - 5"
abbreviation (input) WOLFNANO_E_DECODE :: int where "WOLFNANO_E_DECODE \<equiv> - 6"
abbreviation (input) WOLFNANO_E_BAD_MAC :: int where "WOLFNANO_E_BAD_MAC \<equiv> - 7"
abbreviation (input) WOLFNANO_E_ILLEGAL_PARAM :: int where "WOLFNANO_E_ILLEGAL_PARAM \<equiv> - 8"
abbreviation (input) WOLFNANO_E_BAD_CERT :: int where "WOLFNANO_E_BAD_CERT \<equiv> - 9"
abbreviation (input) WOLFNANO_E_CLOSED :: int where "WOLFNANO_E_CLOSED \<equiv> - 10"

definition wn_ErrorToString :: "int \<Rightarrow> string" where
  "wn_ErrorToString err =
     (if err = WOLFNANO_SUCCESS then ''success''
      else if err = WOLFNANO_E_INVALID_ARG then ''invalid argument''
      else if err = WOLFNANO_E_CRYPTO then ''crypto operation failed''
      else if err = WOLFNANO_E_UNSUPPORTED then ''unsupported''
      else if err = WOLFNANO_E_BAD_STATE then ''bad handshake state''
      else if err = WOLFNANO_E_UNEXPECTED_MSG then ''unexpected message''
      else if err = WOLFNANO_E_DECODE then ''malformed message''
      else if err = WOLFNANO_E_BAD_MAC then ''authentication failure''
      else if err = WOLFNANO_E_ILLEGAL_PARAM then ''illegal parameter''
      else if err = WOLFNANO_E_BAD_CERT then ''certificate failure''
      else if err = WOLFNANO_E_CLOSED then ''connection closed''
      else ''unknown error'')"

abbreviation (input) WN_ALERT_UNEXPECTED_MESSAGE :: byte where "WN_ALERT_UNEXPECTED_MESSAGE \<equiv> 10"
abbreviation (input) WN_ALERT_BAD_RECORD_MAC :: byte where "WN_ALERT_BAD_RECORD_MAC \<equiv> 20"
abbreviation (input) WN_ALERT_ILLEGAL_PARAMETER :: byte where "WN_ALERT_ILLEGAL_PARAMETER \<equiv> 47"
abbreviation (input) WN_ALERT_DECODE_ERROR :: byte where "WN_ALERT_DECODE_ERROR \<equiv> 50"
abbreviation (input) WN_ALERT_BAD_CERTIFICATE :: byte where "WN_ALERT_BAD_CERTIFICATE \<equiv> 42"
abbreviation (input) WN_ALERT_INTERNAL_ERROR :: byte where "WN_ALERT_INTERNAL_ERROR \<equiv> 80"

definition wn_ErrToAlert :: "int \<Rightarrow> byte" where
  "wn_ErrToAlert ret =
     (if ret = WOLFNANO_E_UNEXPECTED_MSG then WN_ALERT_UNEXPECTED_MESSAGE
      else if ret = WOLFNANO_E_BAD_MAC then WN_ALERT_BAD_RECORD_MAC
      else if ret = WOLFNANO_E_DECODE then WN_ALERT_DECODE_ERROR
      else if ret = WOLFNANO_E_ILLEGAL_PARAM then WN_ALERT_ILLEGAL_PARAMETER
      else if ret = WOLFNANO_E_BAD_CERT then WN_ALERT_BAD_CERTIFICATE
      else WN_ALERT_INTERNAL_ERROR)"

definition codes :: "int list" where
  "codes = [0, - 1, - 2, - 3, - 4, - 5, - 6, - 7, - 8, - 9, - 10]"

lemma set_codes: "set codes = {- 10..0}"
  by (simp add: codes_def set_eq_iff atLeastAtMost_iff del: insert_iff) (simp, presburger)

text \<open>
  C36. Every return code of the interface has a diagnostic string of its own, and exactly
  the values that are no return code are reported as unknown.
\<close>

theorem error_strings_faithful:
  "distinct (map wn_ErrorToString codes) \<and>
   (wn_ErrorToString e = ''unknown error'' \<longleftrightarrow> e \<notin> {- 10..0})"
proof
  show "distinct (map wn_ErrorToString codes)"
    by (simp add: codes_def wn_ErrorToString_def)
  have "e \<in> {- 10..0} \<longleftrightarrow> e \<in> set codes"
    by (simp only: set_codes)
  then show "wn_ErrorToString e = ''unknown error'' \<longleftrightarrow> e \<notin> {- 10..0}"
    by (simp only:) (simp add: codes_def wn_ErrorToString_def split: if_split)
qed

section \<open>Alerts\<close>

text \<open>
  The alert descriptions of RFC 8446, section 6, that a client of this library reports, with their
  codes (appendix B.2), and the one each error calls for: a message that is not allowed here, a record
  or a Finished that fails its authentication, a message that does not parse, a field with a bad value,
  a certificate that is not acceptable. Everything else is a failure of the client itself.
\<close>

datatype alert_description =
  Unexpected_Message | Bad_Record_MAC | Bad_Certificate | Illegal_Parameter | Decode_Error | Internal_Error

primrec alert_code :: "alert_description \<Rightarrow> byte" where
  "alert_code Unexpected_Message = 10"
| "alert_code Bad_Record_MAC = 20"
| "alert_code Bad_Certificate = 42"
| "alert_code Illegal_Parameter = 47"
| "alert_code Decode_Error = 50"
| "alert_code Internal_Error = 80"

definition alert_table :: "(int \<times> alert_description) list" where
  "alert_table =
     [(WOLFNANO_E_UNEXPECTED_MSG, Unexpected_Message),
      (WOLFNANO_E_DECODE, Decode_Error),
      (WOLFNANO_E_BAD_MAC, Bad_Record_MAC),
      (WOLFNANO_E_ILLEGAL_PARAM, Illegal_Parameter),
      (WOLFNANO_E_BAD_CERT, Bad_Certificate)]"

definition alert_for :: "int \<Rightarrow> alert_description" where
  "alert_for err = (case map_of alert_table err of Some a \<Rightarrow> a | None \<Rightarrow> Internal_Error)"

end
