(* ===== verification/Wn_Flight.thy ===== *)
theory Wn_Flight
  imports Wn_Codes
begin

text \<open>
  The server-flight ordering gate of \<open>src/src/wn_flight.h\<close>. The interface of an ordering
  gate is the locale \<open>flight_gate\<close>: a gate that expects a fixed list of messages and then a
  final one accepts no other sequence.
\<close>

section \<open>The gate\<close>

abbreviation (input) WN_FLIGHT_EE :: byte where "WN_FLIGHT_EE \<equiv> 8"
abbreviation (input) WN_FLIGHT_CERT :: byte where "WN_FLIGHT_CERT \<equiv> 11"
abbreviation (input) WN_FLIGHT_CERT_REQ :: byte where "WN_FLIGHT_CERT_REQ \<equiv> 13"
abbreviation (input) WN_FLIGHT_CERT_VFY :: byte where "WN_FLIGHT_CERT_VFY \<equiv> 15"
abbreviation (input) WN_FLIGHT_FINISHED :: byte where "WN_FLIGHT_FINISHED \<equiv> 20"

record flight =
  gotEE :: int
  gotCert :: int
  gotCv :: int

definition flight_init :: flight where
  "flight_init = \<lparr>gotEE = 0, gotCert = 0, gotCv = 0\<rparr>"

definition wn_FlightOrder :: "byte \<Rightarrow> flight \<Rightarrow> int \<times> flight" where
  "wn_FlightOrder mType f =
     (if mType = WN_FLIGHT_EE then
        (if gotEE f \<noteq> 0 then WOLFNANO_E_UNEXPECTED_MSG else WOLFNANO_SUCCESS, f\<lparr>gotEE := 1\<rparr>)
      else if mType = WN_FLIGHT_CERT_REQ then (WOLFNANO_E_UNSUPPORTED, f)
      else if mType = WN_FLIGHT_CERT then
        (if gotEE f = 0 \<or> gotCert f \<noteq> 0 then WOLFNANO_E_UNEXPECTED_MSG else WOLFNANO_SUCCESS,
         f\<lparr>gotCert := 1\<rparr>)
      else if mType = WN_FLIGHT_CERT_VFY then
        (if gotCert f = 0 \<or> gotCv f \<noteq> 0 then WOLFNANO_E_UNEXPECTED_MSG else WOLFNANO_SUCCESS,
         f\<lparr>gotCv := 1\<rparr>)
      else if mType = WN_FLIGHT_FINISHED then
        (if gotCv f = 0 then WOLFNANO_E_UNEXPECTED_MSG else WOLFNANO_SUCCESS, f)
      else (WOLFNANO_E_UNEXPECTED_MSG, f))"

text \<open>The driver's use of a gate: message after message, until one is refused.\<close>

fun gate_run :: "('m \<Rightarrow> 's \<Rightarrow> int \<times> 's) \<Rightarrow> 'm list \<Rightarrow> 's \<Rightarrow> int \<times> 's" where
  "gate_run gate [] s = (WOLFNANO_SUCCESS, s)"
| "gate_run gate (m # ms) s =
     (case gate m s of (ret, s') \<Rightarrow> if ret = WOLFNANO_SUCCESS then gate_run gate ms s' else (ret, s'))"

text \<open>What the gate still waits for, read off its flags.\<close>

definition flight_todo :: "flight \<Rightarrow> byte list" where
  "flight_todo f =
     (if gotEE f = 0 then [WN_FLIGHT_EE, WN_FLIGHT_CERT, WN_FLIGHT_CERT_VFY]
      else if gotCert f = 0 then [WN_FLIGHT_CERT, WN_FLIGHT_CERT_VFY]
      else if gotCv f = 0 then [WN_FLIGHT_CERT_VFY] else [])"

definition flight_ok :: "flight \<Rightarrow> bool" where
  "flight_ok f \<longleftrightarrow> (gotCert f \<noteq> 0 \<longrightarrow> gotEE f \<noteq> 0) \<and> (gotCv f \<noteq> 0 \<longrightarrow> gotCert f \<noteq> 0)"

text \<open>The states the driver can bring the gate to: it stops at the first refused message.\<close>

inductive flight_reachable :: "flight \<Rightarrow> bool" where
  start: "flight_reachable flight_init"
| accept: "flight_reachable f \<Longrightarrow> wn_FlightOrder m f = (WOLFNANO_SUCCESS, f') \<Longrightarrow> flight_reachable f'"

section \<open>The interface of an ordering gate\<close>

locale flight_gate =
  fixes gate :: "'m \<Rightarrow> 's \<Rightarrow> int \<times> 's"
    and final :: 'm
    and todo :: "'s \<Rightarrow> 'm list"
    and ok :: "'s \<Rightarrow> bool"
  assumes accepts_next: "ok s \<Longrightarrow> m \<noteq> final \<Longrightarrow>
      fst (gate m s) = WOLFNANO_SUCCESS \<longleftrightarrow> todo s \<noteq> [] \<and> hd (todo s) = m"
    and after_next: "ok s \<Longrightarrow> m \<noteq> final \<Longrightarrow> fst (gate m s) = WOLFNANO_SUCCESS \<Longrightarrow>
      ok (snd (gate m s)) \<and> todo (snd (gate m s)) = tl (todo s)"
    and accepts_final: "ok s \<Longrightarrow> fst (gate final s) = WOLFNANO_SUCCESS \<longleftrightarrow> todo s = []"
begin

lemma accepts_exactly:
  assumes "ok s" and "final \<notin> set ms"
  shows "fst (gate_run gate (ms @ [final]) s) = WOLFNANO_SUCCESS \<longleftrightarrow> ms = todo s"
  using assms
proof (induction ms arbitrary: s)
  case Nil
  then show ?case using accepts_final [of s] by (cases "gate final s") auto
next
  case (Cons m ms)
  show ?case
  proof (cases "fst (gate m s) = WOLFNANO_SUCCESS")
    case True
    then have "fst (gate_run gate ((m # ms) @ [final]) s) = WOLFNANO_SUCCESS \<longleftrightarrow> ms = tl (todo s)"
      using Cons after_next [of s m] by (auto split: prod.splits)
    also have "\<dots> \<longleftrightarrow> m # ms = todo s"
      using True Cons.prems accepts_next [of s m] by (cases "todo s") auto
    finally show ?thesis .
  next
    case False
    moreover have "m # ms \<noteq> todo s"
      using False Cons.prems accepts_next [of s m] by (cases "todo s") auto
    ultimately show ?thesis by (auto split: prod.splits)
  qed
qed

end

lemmas flight_defs = wn_FlightOrder_def flight_todo_def flight_ok_def

interpretation cert: flight_gate wn_FlightOrder WN_FLIGHT_FINISHED flight_todo flight_ok
  by unfold_locales (auto simp: flight_defs split: if_splits)

section \<open>Properties\<close>

text \<open>
  C16. From its initial state the gate lets a flight through to its Finished message exactly
  when the messages before it are EncryptedExtensions, Certificate and CertificateVerify,
  each once and in this order.
\<close>

theorem flight_order_exact:
  assumes "WN_FLIGHT_FINISHED \<notin> set ms"
  shows "fst (gate_run wn_FlightOrder (ms @ [WN_FLIGHT_FINISHED]) flight_init) = WOLFNANO_SUCCESS \<longleftrightarrow>
    ms = [WN_FLIGHT_EE, WN_FLIGHT_CERT, WN_FLIGHT_CERT_VFY]"
  using cert.accepts_exactly [of flight_init ms] assms
  by (simp add: flight_ok_def flight_todo_def flight_init_def)

theorem flight_order_exact_witness:
  "fst (gate_run wn_FlightOrder ([8, 11, 15] @ [20]) flight_init) = WOLFNANO_SUCCESS \<and>
   fst (gate_run wn_FlightOrder ([11, 8, 15] @ [20]) flight_init) \<noteq> WOLFNANO_SUCCESS"
  using flight_order_exact [of "[8, 11, 15]"] flight_order_exact [of "[11, 8, 15]"] by simp

text \<open>
  C17. In every state the driver can reach, CertificateVerify was accepted only after
  Certificate and Certificate only after EncryptedExtensions; so when a Finished is accepted
  all three have been seen.
\<close>

theorem flight_reachable_complete:
  assumes "flight_reachable f" and "wn_FlightOrder WN_FLIGHT_FINISHED f = (WOLFNANO_SUCCESS, f')"
  shows "gotEE f \<noteq> 0 \<and> gotCert f \<noteq> 0 \<and> gotCv f \<noteq> 0 \<and> f' = f"
proof -
  from assms(1) have "flight_ok f"
    by (induction rule: flight_reachable.induct)
      (auto simp: flight_defs flight_init_def split: if_splits)
  with assms(2) show ?thesis
    by (auto simp: flight_defs split: if_splits)
qed

theorem flight_reachable_complete_witness:
  "\<exists>f. flight_reachable f \<and> wn_FlightOrder 20 f = (WOLFNANO_SUCCESS, f) \<and>
     gotEE f \<noteq> 0 \<and> gotCert f \<noteq> 0 \<and> gotCv f \<noteq> 0"
proof -
  let ?f = "\<lparr>gotEE = 1, gotCert = 1, gotCv = 1\<rparr>"
  have "flight_reachable \<lparr>gotEE = 1, gotCert = 0, gotCv = 0\<rparr>"
    by (rule flight_reachable.accept [OF flight_reachable.start, of 8])
      (simp add: wn_FlightOrder_def flight_init_def)
  then have "flight_reachable \<lparr>gotEE = 1, gotCert = 1, gotCv = 0\<rparr>"
    by (rule flight_reachable.accept [where m = 11]) (simp add: wn_FlightOrder_def)
  then have r: "flight_reachable ?f"
    by (rule flight_reachable.accept [where m = 15]) (simp add: wn_FlightOrder_def)
  have g: "wn_FlightOrder 20 ?f = (WOLFNANO_SUCCESS, ?f)"
    by (simp add: wn_FlightOrder_def)
  show ?thesis
    using r g flight_reachable_complete [OF r g] by blast
qed

text \<open>
  A CertificateRequest is refused with \<open>WOLFNANO_E_UNSUPPORTED\<close> in every state, a code
  that the comment on the function does not list.
\<close>

lemma cert_request_unsupported:
  "wn_FlightOrder WN_FLIGHT_CERT_REQ f = (WOLFNANO_E_UNSUPPORTED, f) \<and>
   WOLFNANO_E_UNSUPPORTED \<notin> {WOLFNANO_SUCCESS, WOLFNANO_E_UNEXPECTED_MSG}"
  by (simp add: wn_FlightOrder_def)

end
