(* ===== verification/Wn_Seam.thy ===== *)
theory Wn_Seam
  imports Wn_Codes
begin

text \<open>
  The seam between wolfNanoTLS and what it is built with. wolfCrypt (the \<open>wolfssl\<close>
  submodule, included through \<open>src/include/wolfnano/wolfnano_crypto.h\<close>) is not part of the
  sources, so the functions the code calls are the fields of a record \<open>'o wc\<close> that every
  operation using them takes as a parameter, together with the configuration macros of the
  build. \<open>'o\<close> is the type of wolfCrypt's context structs (hash, HMAC, AES, key and RNG
  contexts), which the code only passes around.

  A field returns the code's \<open>int\<close> return value first, then what the call stores through
  its output pointers, then the updated contexts. What the code relies on is stated by the
  predicates at the end of the theory and assumed by name where it is needed.
\<close>

section \<open>Digest identifiers and the parameter record\<close>

datatype hash_id = WC_SHA256 | WC_SHA384 | WC_OTHER_HASH int

record 'o wc =
  WOLFSSL_SHA384 :: bool
  WOLFSSL_SHA512 :: bool
  WOLFNANO_FIPS :: bool
  WOLFNANO_HAVE_MLKEM_HYBRID :: bool
  WOLFNANO_HAVE_ECDHE_P256 :: bool
  WOLFSSL_HAVE_MLDSA :: bool
  WN_MLDSA_SCHEME :: word16
  HAVE_ECC384 :: bool
  HAVE_ED25519 :: bool
  NO_RSA :: bool
  WOLFNANO_SEND_ALERTS :: bool
  WC_MAX_DIGEST_SIZE :: nat
  wc_InitSha256 :: "int \<times> 'o"
  wc_InitSha384 :: "int \<times> 'o"
  wc_Sha256Update :: "'o \<Rightarrow> bytes \<Rightarrow> int \<times> 'o"
  wc_Sha384Update :: "'o \<Rightarrow> bytes \<Rightarrow> int \<times> 'o"
  wc_Sha256GetHash :: "'o \<Rightarrow> int \<times> bytes \<times> 'o"
  wc_Sha384GetHash :: "'o \<Rightarrow> int \<times> bytes \<times> 'o"
  wc_Sha256Free :: "'o \<Rightarrow> 'o"
  wc_Sha384Free :: "'o \<Rightarrow> 'o"
  wc_Sha256Hash :: "bytes \<Rightarrow> int \<times> bytes"
  wc_Tls13_HKDF_Extract :: "bytes option \<Rightarrow> bytes \<Rightarrow> word32 \<Rightarrow> hash_id \<Rightarrow> int \<times> bytes"
  wc_Tls13_HKDF_Expand_Label :: "word32 \<Rightarrow> bytes \<Rightarrow> bytes \<Rightarrow> bytes \<Rightarrow> bytes \<Rightarrow> hash_id \<Rightarrow> int \<times> bytes"
  wc_HmacInit :: "int \<times> 'o"
  wc_HmacSetKey :: "'o \<Rightarrow> hash_id \<Rightarrow> bytes \<Rightarrow> int \<times> 'o"
  wc_HmacUpdate :: "'o \<Rightarrow> bytes \<Rightarrow> int \<times> 'o"
  wc_HmacFinal :: "'o \<Rightarrow> int \<times> bytes \<times> 'o"
  wc_AesInit :: "int \<times> 'o"
  wc_AesGcmSetKey :: "'o \<Rightarrow> bytes \<Rightarrow> int \<times> 'o"
  wc_AesGcmEncrypt :: "'o \<Rightarrow> bytes \<Rightarrow> bytes \<Rightarrow> bytes \<Rightarrow> int \<times> bytes \<times> bytes"
  wc_AesGcmDecrypt :: "'o \<Rightarrow> bytes \<Rightarrow> bytes \<Rightarrow> bytes \<Rightarrow> bytes \<Rightarrow> int \<times> bytes"
  zero_ctx :: 'o
  ConstantCompare :: "bytes \<Rightarrow> bytes \<Rightarrow> int"
  wc_RNG_GenerateBlock :: "'o \<Rightarrow> word32 \<Rightarrow> int \<times> bytes \<times> 'o"
  wc_curve25519_init :: "int \<times> 'o"
  wc_curve25519_make_key :: "'o \<Rightarrow> 'o \<Rightarrow> int \<times> 'o \<times> 'o"
  wc_curve25519_export_public_ex :: "'o \<Rightarrow> word32 \<Rightarrow> int \<times> bytes \<times> word32"
  wc_curve25519_import_public_ex :: "bytes \<Rightarrow> 'o \<Rightarrow> int \<times> 'o"
  wc_curve25519_shared_secret_ex :: "'o \<Rightarrow> 'o \<Rightarrow> word32 \<Rightarrow> int \<times> bytes \<times> word32"
  wc_curve25519_free :: "'o \<Rightarrow> 'o"
  wc_ecc_init :: "int \<times> 'o"
  wc_ecc_make_key_ex :: "'o \<Rightarrow> 'o \<Rightarrow> int \<times> 'o \<times> 'o"
  wc_ecc_set_rng :: "'o \<Rightarrow> 'o \<Rightarrow> int \<times> 'o"
  wc_ecc_export_x963 :: "'o \<Rightarrow> word32 \<Rightarrow> int \<times> bytes \<times> word32"
  wc_ecc_import_x963_ex :: "bytes \<Rightarrow> 'o \<Rightarrow> int \<times> 'o"
  wc_ecc_shared_secret :: "'o \<Rightarrow> 'o \<Rightarrow> word32 \<Rightarrow> int \<times> bytes \<times> word32"
  wc_ecc_free :: "'o \<Rightarrow> 'o"
  wc_MlKemKey_Init :: "int \<times> 'o"
  wc_MlKemKey_MakeKey :: "'o \<Rightarrow> 'o \<Rightarrow> int \<times> 'o \<times> 'o"
  wc_MlKemKey_EncodePublicKey :: "'o \<Rightarrow> int \<times> bytes"
  wc_MlKemKey_DecodePublicKey :: "'o \<Rightarrow> bytes \<Rightarrow> int \<times> 'o"
  wc_MlKemKey_Encapsulate :: "'o \<Rightarrow> 'o \<Rightarrow> int \<times> bytes \<times> bytes \<times> 'o"
  wc_MlKemKey_Decapsulate :: "'o \<Rightarrow> bytes \<Rightarrow> int \<times> bytes"
  wc_MlKemKey_Free :: "'o \<Rightarrow> 'o"

abbreviation (input) WC_SHA256_DIGEST_SIZE :: nat where "WC_SHA256_DIGEST_SIZE \<equiv> 32"
abbreviation (input) WC_SHA384_DIGEST_SIZE :: nat where "WC_SHA384_DIGEST_SIZE \<equiv> 48"

section \<open>Pointers\<close>

text \<open>
  A pointer argument that the code compares with \<open>NULL\<close> is an \<open>option\<close>; a pointer with a
  length addresses that many bytes, and a null pointer may only come with length 0.
\<close>

definition ptr_read :: "bytes option \<Rightarrow> word32 \<Rightarrow> bytes option" where
  "ptr_read p n =
     (case p of None \<Rightarrow> if n = 0 then Some [] else None | Some b \<Rightarrow> mem_read b 0 (unat n))"

definition buf :: "bytes option \<Rightarrow> bytes" where
  "buf p = (case p of None \<Rightarrow> [] | Some b \<Rightarrow> b)"

definition ascii :: "string \<Rightarrow> bytes" where
  "ascii = map of_char"

lemma buf_simps [simp]: "buf None = []" "buf (Some b) = b"
  by (simp_all add: buf_def)

lemma ptr_read_Some [mem_simps]:
  "unat n \<le> length b \<Longrightarrow> ptr_read (Some b) n = Some (take (unat n) b)"
  by (simp add: ptr_read_def mem_read_def)

lemma ptr_read_None [simp]: "ptr_read None 0 = Some []"
  by (simp add: ptr_read_def)

lemma ptr_read_0 [simp]: "ptr_read p 0 = Some []"
  by (cases p) (simp_all add: ptr_read_def mem_read_def)

lemma length_ascii [simp]: "length (ascii s) = length s"
  by (simp add: ascii_def)

section \<open>Documented behaviour of the parameters\<close>

text \<open>The sizes of what the calls store through their output pointers.\<close>

definition wc_sizes :: "'o wc \<Rightarrow> bool" where
  "wc_sizes P \<longleftrightarrow> 48 \<le> WC_MAX_DIGEST_SIZE P \<and>
     (\<forall>c. length (fst (snd (wc_Sha256GetHash P c))) = 32) \<and>
     (\<forall>c. length (fst (snd (wc_Sha384GetHash P c))) = 48) \<and>
     (\<forall>m. length (snd (wc_Sha256Hash P m)) = 32) \<and>
     (\<forall>s i n. length (snd (wc_Tls13_HKDF_Extract P s i n WC_SHA256)) = 32) \<and>
     (\<forall>s i n. length (snd (wc_Tls13_HKDF_Extract P s i n WC_SHA384)) = 48) \<and>
     (\<forall>n k p l i d. length (snd (wc_Tls13_HKDF_Expand_Label P n k p l i d)) = unat n)"

definition gcm_sizes :: "'o wc \<Rightarrow> bool" where
  "gcm_sizes P \<longleftrightarrow>
     (\<forall>c m n a. length (fst (snd (wc_AesGcmEncrypt P c m n a))) = length m \<and>
                length (snd (snd (wc_AesGcmEncrypt P c m n a))) = 16) \<and>
     (\<forall>c m n t a. length (snd (wc_AesGcmDecrypt P c m n t a)) = length m)"

text \<open>
  An AES-GCM key accepted by \<open>wc_AesGcmSetKey\<close> seals and opens: a sealed message opens
  under the same key, nonce of 12 bytes and associated data to what was sealed.
\<close>

definition gcm_key :: "'o wc \<Rightarrow> bytes \<Rightarrow> int \<times> 'o" where
  "gcm_key P key = (case wc_AesInit P of (r, a) \<Rightarrow> if r = 0 then wc_AesGcmSetKey P a key else (r, a))"

definition gcm_ok :: "'o wc \<Rightarrow> bool" where
  "gcm_ok P \<longleftrightarrow> gcm_sizes P \<and>
     fst (wc_AesInit P) = 0 \<and>
     (\<forall>key. length key = 16 \<longrightarrow> fst (gcm_key P key) = 0) \<and>
     (\<forall>key m n a. fst (gcm_key P key) = 0 \<longrightarrow> length n = 12 \<longrightarrow>
        (case wc_AesGcmEncrypt P (snd (gcm_key P key)) m n a of (r, ct, tag) \<Rightarrow>
           r = 0 \<and> wc_AesGcmDecrypt P (snd (gcm_key P key)) ct n tag a = (0, m)))"

text \<open>
  The random generator and the key agreements: the sizes of what they store. \<open>zero_ctx\<close> is a
  context struct set to zero bytes.
\<close>

definition kex_sizes :: "'o wc \<Rightarrow> bool" where
  "kex_sizes P \<longleftrightarrow>
     (\<forall>g n. length (fst (snd (wc_RNG_GenerateBlock P g n))) = unat n) \<and>
     (\<forall>k. length (fst (snd (wc_curve25519_export_public_ex P k 32))) = 32 \<and>
          snd (snd (wc_curve25519_export_public_ex P k 32)) = 32) \<and>
     (\<forall>k q. length (fst (snd (wc_curve25519_shared_secret_ex P k q 32))) = 32 \<and>
            snd (snd (wc_curve25519_shared_secret_ex P k q 32)) = 32) \<and>
     (\<forall>k. length (fst (snd (wc_ecc_export_x963 P k 65))) = 65 \<and>
          snd (snd (wc_ecc_export_x963 P k 65)) = 65) \<and>
     (\<forall>k q. length (fst (snd (wc_ecc_shared_secret P k q 32))) = 32 \<and>
            snd (snd (wc_ecc_shared_secret P k q 32)) = 32) \<and>
     (\<forall>k. length (snd (wc_MlKemKey_EncodePublicKey P k)) = 1184) \<and>
     (\<forall>k g. length (fst (snd (wc_MlKemKey_Encapsulate P k g))) = 1088 \<and>
            length (fst (snd (snd (wc_MlKemKey_Encapsulate P k g)))) = 32) \<and>
     (\<forall>k c. length (snd (wc_MlKemKey_Decapsulate P k c)) = 32)"

text \<open>\<open>ConstantCompare\<close> of two strings of equal length is 0 exactly when they are equal.\<close>

definition compare_ok :: "'o wc \<Rightarrow> bool" where
  "compare_ok P \<longleftrightarrow> (\<forall>a b. length a = length b \<longrightarrow> (ConstantCompare P a b = 0 \<longleftrightarrow> a = b))"

text \<open>
  X25519 and ML-KEM agree: a key pair made by \<open>make_key\<close> exports a public key that any
  context imports, and both sides compute the same secret; what \<open>Encapsulate\<close> made for an
  encoded public key the key pair decapsulates.
\<close>

definition x25519_ok :: "'o wc \<Rightarrow> bool" where
  "x25519_ok P \<longleftrightarrow> fst (wc_curve25519_init P) = 0 \<and>
     (\<forall>g g' a b pa pb.
        fst (wc_curve25519_make_key P g (snd (wc_curve25519_init P))) = 0 \<and>
        (a = snd (snd (wc_curve25519_make_key P g (snd (wc_curve25519_init P)))) \<longrightarrow>
         b = snd (snd (wc_curve25519_make_key P g' (snd (wc_curve25519_init P)))) \<longrightarrow>
         pa = fst (snd (wc_curve25519_export_public_ex P a 32)) \<longrightarrow>
         pb = fst (snd (wc_curve25519_export_public_ex P b 32)) \<longrightarrow>
         fst (wc_curve25519_export_public_ex P a 32) = 0 \<and>
         fst (wc_curve25519_import_public_ex P pb (snd (wc_curve25519_init P))) = 0 \<and>
         fst (wc_curve25519_shared_secret_ex P a (snd (wc_curve25519_import_public_ex P pb (snd (wc_curve25519_init P)))) 32) = 0 \<and>
         fst (snd (wc_curve25519_shared_secret_ex P a (snd (wc_curve25519_import_public_ex P pb (snd (wc_curve25519_init P)))) 32)) =
         fst (snd (wc_curve25519_shared_secret_ex P b (snd (wc_curve25519_import_public_ex P pa (snd (wc_curve25519_init P)))) 32))))"

definition mlkem_ok :: "'o wc \<Rightarrow> bool" where
  "mlkem_ok P \<longleftrightarrow> fst (wc_MlKemKey_Init P) = 0 \<and>
     (\<forall>g g' a pa e.
        fst (wc_MlKemKey_MakeKey P (snd (wc_MlKemKey_Init P)) g) = 0 \<and>
        (a = fst (snd (wc_MlKemKey_MakeKey P (snd (wc_MlKemKey_Init P)) g)) \<longrightarrow>
         pa = snd (wc_MlKemKey_EncodePublicKey P a) \<longrightarrow>
         e = snd (wc_MlKemKey_DecodePublicKey P (snd (wc_MlKemKey_Init P)) pa) \<longrightarrow>
         fst (wc_MlKemKey_EncodePublicKey P a) = 0 \<and>
         fst (wc_MlKemKey_DecodePublicKey P (snd (wc_MlKemKey_Init P)) pa) = 0 \<and>
         fst (wc_MlKemKey_Encapsulate P e g') = 0 \<and>
         wc_MlKemKey_Decapsulate P a (fst (snd (wc_MlKemKey_Encapsulate P e g'))) =
           (0, fst (snd (snd (wc_MlKemKey_Encapsulate P e g'))))))"

text \<open>
  SHA-2 contexts hash the concatenation of what was fed to them, and reading an interim
  digest does not change that. \<open>H\<close> is the hash function, \<open>absorbed\<close> what a context has taken.
\<close>

definition sha_ok :: "'o wc \<Rightarrow> (hash_id \<Rightarrow> bytes \<Rightarrow> bytes) \<Rightarrow> (hash_id \<Rightarrow> 'o \<Rightarrow> bytes \<Rightarrow> bool) \<Rightarrow> bool" where
  "sha_ok P H absorbed \<longleftrightarrow>
     fst (wc_InitSha256 P) = 0 \<and> absorbed WC_SHA256 (snd (wc_InitSha256 P)) [] \<and>
     fst (wc_InitSha384 P) = 0 \<and> absorbed WC_SHA384 (snd (wc_InitSha384 P)) [] \<and>
     (\<forall>c m x. absorbed WC_SHA256 c m \<longrightarrow>
        fst (wc_Sha256Update P c x) = 0 \<and> absorbed WC_SHA256 (snd (wc_Sha256Update P c x)) (m @ x)) \<and>
     (\<forall>c m x. absorbed WC_SHA384 c m \<longrightarrow>
        fst (wc_Sha384Update P c x) = 0 \<and> absorbed WC_SHA384 (snd (wc_Sha384Update P c x)) (m @ x)) \<and>
     (\<forall>c m. absorbed WC_SHA256 c m \<longrightarrow>
        (case wc_Sha256GetHash P c of (r, h, c') \<Rightarrow> r = 0 \<and> h = H WC_SHA256 m \<and> absorbed WC_SHA256 c' m)) \<and>
     (\<forall>c m. absorbed WC_SHA384 c m \<longrightarrow>
        (case wc_Sha384GetHash P c of (r, h, c') \<Rightarrow> r = 0 \<and> h = H WC_SHA384 m \<and> absorbed WC_SHA384 c' m)) \<and>
     (\<forall>m. length (H WC_SHA256 m) = 32 \<and> length (H WC_SHA384 m) = 48)"

definition digest_size :: "hash_id \<Rightarrow> nat" where
  "digest_size d = (case d of WC_SHA384 \<Rightarrow> 48 | _ \<Rightarrow> 32)"

lemma digest_size_bounds [simp]: "n \<le> 32 \<Longrightarrow> n \<le> 255 * digest_size d" "digest_size d \<le> 48" "digest_size d \<le> 255"
  by (cases d; simp add: digest_size_def)+

text \<open>
  HKDF-Extract and HKDF-Expand-Label of RFC 8446, section 7.1: the latter expands with the
  encoded \<open>HkdfLabel\<close> structure. \<open>ext\<close> and \<open>exp\<close> are HKDF-Extract and HKDF-Expand. An output is at
  most 255 digests long (RFC 5869), a label and a context at most 255 bytes.
\<close>

definition hkdf_label :: "nat \<Rightarrow> bytes \<Rightarrow> bytes \<Rightarrow> bytes" where
  "hkdf_label n l ctx =
     be_bytes 2 n @ be_bytes 1 (length l) @ l @ be_bytes 1 (length ctx) @ ctx"

definition zeros_if_null :: "hash_id \<Rightarrow> bytes option \<Rightarrow> bytes" where
  "zeros_if_null d s = (if buf s = [] then replicate (if d = WC_SHA384 then 48 else 32) 0 else buf s)"

definition hkdf_ok ::
    "'o wc \<Rightarrow> (hash_id \<Rightarrow> bytes \<Rightarrow> bytes \<Rightarrow> bytes) \<Rightarrow> (hash_id \<Rightarrow> bytes \<Rightarrow> bytes \<Rightarrow> nat \<Rightarrow> bytes) \<Rightarrow> bool" where
  "hkdf_ok P ext exp \<longleftrightarrow> wc_sizes P \<and>
     (\<forall>s i n d. d \<in> {WC_SHA256, WC_SHA384} \<longrightarrow> wc_Tls13_HKDF_Extract P s i n d =
        (0, ext d (zeros_if_null d s)
              (if n = 0 then replicate (if d = WC_SHA384 then 48 else 32) 0 else take (unat n) i))) \<and>
     (\<forall>n k p l i d. d \<in> {WC_SHA256, WC_SHA384} \<longrightarrow> unat n \<le> 255 * digest_size d \<longrightarrow> length p + length l \<le> 255 \<longrightarrow>
        length i \<le> 255 \<longrightarrow>
        wc_Tls13_HKDF_Expand_Label P n k p l i d = (0, exp d k (hkdf_label (unat n) (p @ l) i) (unat n)))"

text \<open>HMAC over a fresh context (RFC 2104): \<open>mac d key m\<close> is the keyed digest.\<close>

definition hmac_run :: "'o wc \<Rightarrow> hash_id \<Rightarrow> bytes \<Rightarrow> bytes \<Rightarrow> int \<times> bytes" where
  "hmac_run P d key m =
     (case wc_HmacInit P of (r0, h0) \<Rightarrow>
      case wc_HmacSetKey P h0 d key of (r1, h1) \<Rightarrow>
      case wc_HmacUpdate P h1 m of (r2, h2) \<Rightarrow>
      case wc_HmacFinal P h2 of (r3, out, h3) \<Rightarrow>
        (if r0 = 0 \<and> r1 = 0 \<and> r2 = 0 then r3 else -1, out))"

definition hmac_sizes :: "'o wc \<Rightarrow> bool" where
  "hmac_sizes P \<longleftrightarrow> (\<forall>d key m. length (snd (hmac_run P d key m)) = digest_size d)"

definition hmac_ok :: "'o wc \<Rightarrow> (hash_id \<Rightarrow> bytes \<Rightarrow> bytes \<Rightarrow> bytes) \<Rightarrow> bool" where
  "hmac_ok P mac \<longleftrightarrow> hmac_sizes P \<and>
     (\<forall>d key m. d \<in> {WC_SHA256, WC_SHA384} \<longrightarrow> hmac_run P d key m = (0, mac d key m))"

section \<open>A concrete instance\<close>

text \<open>
  The assumptions above are satisfiable: \<open>demo_wc\<close> meets all of them. Its contexts are the
  bytes absorbed so far, its digests are padded or truncated messages, and its seal is the
  plaintext with a tag that depends on the key. It serves only to evaluate the model.
\<close>

definition pad :: "nat \<Rightarrow> bytes \<Rightarrow> bytes" where
  "pad n b = take n (b @ replicate n 0)"

definition demo_wc :: "bytes wc" where
  "demo_wc = \<lparr>
     WOLFSSL_SHA384 = True,
     WOLFSSL_SHA512 = False,
     WOLFNANO_FIPS = False,
     WOLFNANO_HAVE_MLKEM_HYBRID = False,
     WOLFNANO_HAVE_ECDHE_P256 = False,
     WOLFSSL_HAVE_MLDSA = False,
     WN_MLDSA_SCHEME = 0x0904,
     HAVE_ECC384 = False,
     HAVE_ED25519 = False,
     NO_RSA = True,
     WOLFNANO_SEND_ALERTS = False,
     WC_MAX_DIGEST_SIZE = 64,
     wc_InitSha256 = (0, []),
     wc_InitSha384 = (0, []),
     wc_Sha256Update = (\<lambda>c m. (0, c @ m)),
     wc_Sha384Update = (\<lambda>c m. (0, c @ m)),
     wc_Sha256GetHash = (\<lambda>c. (0, pad 32 c, c)),
     wc_Sha384GetHash = (\<lambda>c. (0, pad 48 c, c)),
     wc_Sha256Free = (\<lambda>c. []),
     wc_Sha384Free = (\<lambda>c. []),
     wc_Sha256Hash = (\<lambda>m. (0, pad 32 m)),
     wc_Tls13_HKDF_Extract = (\<lambda>s i n d. (0, pad (digest_size d)
       (zeros_if_null d s @ (if n = 0 then replicate (digest_size d) 0 else take (unat n) i)))),
     wc_Tls13_HKDF_Expand_Label = (\<lambda>n k p l i d. (0, pad (unat n) (k @ hkdf_label (unat n) (p @ l) i))),
     wc_HmacInit = (0, []),
     wc_HmacSetKey = (\<lambda>c d k. (0, word_of_nat (digest_size d) # k)),
     wc_HmacUpdate = (\<lambda>c m. (0, c @ m)),
     wc_HmacFinal = (\<lambda>c. (0, pad (unat (hd c)) (tl c), c)),
     wc_AesInit = (0, []),
     wc_AesGcmSetKey = (\<lambda>c k. (if length k = 16 then 0 else - 173, k)),
     wc_AesGcmEncrypt = (\<lambda>c m n a. (0, m, pad 16 c)),
     wc_AesGcmDecrypt = (\<lambda>c m n t a. (if t = pad 16 c then 0 else - 180, m)),
     zero_ctx = [],
     ConstantCompare = (\<lambda>a b. if a = b then 0 else 1),
     wc_RNG_GenerateBlock = (\<lambda>g n. (0, replicate (unat n) (hd (g @ [0])), tl g)),
     wc_curve25519_init = (0, []),
     wc_curve25519_make_key = (\<lambda>g k. (0, tl g, pad 32 [hd (g @ [0])])),
     wc_curve25519_export_public_ex = (\<lambda>k n. (0, pad 32 k, 32)),
     wc_curve25519_import_public_ex = (\<lambda>p k. (0, p)),
     wc_curve25519_shared_secret_ex = (\<lambda>k p n. (0, pad 32 (map2 (XOR) k p), 32)),
     wc_curve25519_free = (\<lambda>k. []),
     wc_ecc_init = (0, []),
     wc_ecc_make_key_ex = (\<lambda>g k. (0, tl g, pad 65 [hd (g @ [0])])),
     wc_ecc_set_rng = (\<lambda>k g. (0, k)),
     wc_ecc_export_x963 = (\<lambda>k n. (0, pad 65 k, 65)),
     wc_ecc_import_x963_ex = (\<lambda>p k. (0, p)),
     wc_ecc_shared_secret = (\<lambda>k p n. (0, pad 32 (map2 (XOR) k p), 32)),
     wc_ecc_free = (\<lambda>k. []),
     wc_MlKemKey_Init = (0, []),
     wc_MlKemKey_MakeKey = (\<lambda>k g. (0, [hd (g @ [0])], tl g)),
     wc_MlKemKey_EncodePublicKey = (\<lambda>k. (0, pad 1184 k)),
     wc_MlKemKey_DecodePublicKey = (\<lambda>k p. (0, p)),
     wc_MlKemKey_Encapsulate = (\<lambda>k g. (0, pad 1088 [hd (g @ [0])], pad 32 [hd (g @ [0])], tl g)),
     wc_MlKemKey_Decapsulate = (\<lambda>k c. (0, pad 32 (take 1 c))),
     wc_MlKemKey_Free = (\<lambda>k. [])\<rparr>"

lemma length_pad [simp]: "length (pad n b) = n"
  by (simp add: pad_def)

lemma demo_sizes: "wc_sizes demo_wc"
  by (simp add: wc_sizes_def demo_wc_def digest_size_def)

lemma demo_sha: "sha_ok demo_wc (\<lambda>d. pad (digest_size d)) (\<lambda>d c m. c = m)"
  by (simp add: sha_ok_def demo_wc_def digest_size_def)

lemma demo_hkdf:
  "hkdf_ok demo_wc (\<lambda>d s i. pad (digest_size d) (s @ i)) (\<lambda>d k l n. pad n (k @ l))"
  by (auto simp: hkdf_ok_def demo_sizes) (auto simp: demo_wc_def digest_size_def)

lemma demo_hmac: "hmac_ok demo_wc (\<lambda>d k m. pad (digest_size d) (k @ m))"
proof -
  have "unat (word_of_nat (digest_size d) :: byte) = digest_size d" for d
    by (cases d) (simp_all add: digest_size_def)
  then show ?thesis
    by (simp add: hmac_ok_def hmac_sizes_def hmac_run_def demo_wc_def)
qed

lemma demo_gcm: "gcm_ok demo_wc"
  by (simp add: gcm_ok_def gcm_sizes_def gcm_key_def demo_wc_def)

lemma demo_gcm_sizes: "gcm_sizes demo_wc"
  using demo_gcm by (simp add: gcm_ok_def)

lemma demo_compare: "compare_ok demo_wc"
  by (simp add: compare_ok_def demo_wc_def)

lemma demo_kex_sizes: "kex_sizes demo_wc"
  by (simp add: kex_sizes_def demo_wc_def)

lemma pad_twice: "pad n (pad n b) = pad n b"
  by (simp add: pad_def)

lemma demo_x25519: "x25519_ok demo_wc"
proof -
  have "map2 (XOR) a b = map2 (XOR) b a" for a b :: bytes
    by (induction a b rule: list_induct2') (simp_all add: xor.commute)
  then show ?thesis
    by (simp add: x25519_ok_def demo_wc_def pad_twice)
qed

lemma demo_mlkem: "mlkem_ok demo_wc"
  by (simp add: mlkem_ok_def demo_wc_def pad_def)

end
