(* ===== verification/Wn_Transcript.thy ===== *)
theory Wn_Transcript
  imports Wn_Seam
begin

text \<open>
  The handshake transcript hash of \<open>src/src/wn_transcript.c\<close>: a hash context with its digest
  identifier. The locale \<open>running_hash\<close> is the contract the handshake drivers rely on: a
  running hash reports, at any moment, the hash of the concatenation of the messages so far.
\<close>

section \<open>Operations\<close>

record 'o wn_Transcript =
  t_h :: 'o
  t_digest :: hash_id

text \<open>
  Return values of the hash calls other than success and \<open>UNSUPPORTED\<close> become \<open>CRYPTO\<close>.
\<close>

definition crypto_err :: "int \<Rightarrow> int" where
  "crypto_err ret =
     (if ret \<noteq> 0 \<and> ret \<noteq> WOLFNANO_E_UNSUPPORTED then WOLFNANO_E_CRYPTO else ret)"

definition wn_Transcript_Init :: "'o wc \<Rightarrow> 'o wn_Transcript option \<Rightarrow> hash_id \<Rightarrow> int \<times> 'o wn_Transcript option" where
  "wn_Transcript_Init P t digest =
     (case t of
        None \<Rightarrow> (WOLFNANO_E_INVALID_ARG, None)
      | Some t \<Rightarrow>
          let t = t\<lparr>t_digest := digest\<rparr> in
          if digest = WC_SHA256 then
            (case wc_InitSha256 P of (ret, c) \<Rightarrow> (crypto_err ret, Some (t\<lparr>t_h := c\<rparr>)))
          else if WOLFSSL_SHA384 P \<and> digest = WC_SHA384 then
            (case wc_InitSha384 P of (ret, c) \<Rightarrow> (crypto_err ret, Some (t\<lparr>t_h := c\<rparr>)))
          else (WOLFNANO_E_UNSUPPORTED, Some t))"

definition wn_Transcript_Update ::
    "'o wc \<Rightarrow> 'o wn_Transcript option \<Rightarrow> bytes option \<Rightarrow> word32 \<Rightarrow> (int \<times> 'o wn_Transcript option) option" where
  "wn_Transcript_Update P t msg msgLen =
     (case t of
        None \<Rightarrow> Some (WOLFNANO_E_INVALID_ARG, None)
      | Some t \<Rightarrow>
          if msg = None \<and> msgLen \<noteq> 0 then Some (WOLFNANO_E_INVALID_ARG, Some t)
          else if t_digest t = WC_SHA256 then
            ptr_read msg msgLen \<bind> (\<lambda>m. case wc_Sha256Update P (t_h t) m of (ret, c) \<Rightarrow>
              Some (crypto_err ret, Some (t\<lparr>t_h := c\<rparr>)))
          else if WOLFSSL_SHA384 P \<and> t_digest t = WC_SHA384 then
            ptr_read msg msgLen \<bind> (\<lambda>m. case wc_Sha384Update P (t_h t) m of (ret, c) \<Rightarrow>
              Some (crypto_err ret, Some (t\<lparr>t_h := c\<rparr>)))
          else Some (WOLFNANO_E_UNSUPPORTED, Some t))"

text \<open>\<open>out\<close> and \<open>outLen\<close> are returned with what the call leaves there.\<close>

definition wn_Transcript_GetHash ::
    "'o wc \<Rightarrow> 'o wn_Transcript option \<Rightarrow> bytes option \<Rightarrow> word32 option \<Rightarrow>
     (int \<times> 'o wn_Transcript option \<times> bytes \<times> word32 option) option" where
  "wn_Transcript_GetHash P t out outLen =
     (case (t, out, outLen) of
        (Some t, Some b, Some n) \<Rightarrow>
          if t_digest t = WC_SHA256 then
            (case wc_Sha256GetHash P (t_h t) of (ret, h, c) \<Rightarrow>
               mem_write b 0 h \<bind> (\<lambda>b. Some (crypto_err ret, Some (t\<lparr>t_h := c\<rparr>), b, Some 32)))
          else if WOLFSSL_SHA384 P \<and> t_digest t = WC_SHA384 then
            (case wc_Sha384GetHash P (t_h t) of (ret, h, c) \<Rightarrow>
               mem_write b 0 h \<bind> (\<lambda>b. Some (crypto_err ret, Some (t\<lparr>t_h := c\<rparr>), b, Some 48)))
          else Some (WOLFNANO_E_UNSUPPORTED, Some t, b, Some n)
      | _ \<Rightarrow> Some (WOLFNANO_E_INVALID_ARG, t, buf out, outLen))"

definition wn_Transcript_Free :: "'o wc \<Rightarrow> 'o wn_Transcript option \<Rightarrow> int \<times> 'o wn_Transcript option" where
  "wn_Transcript_Free P t =
     (case t of
        None \<Rightarrow> (WOLFNANO_E_INVALID_ARG, None)
      | Some t \<Rightarrow>
          if t_digest t = WC_SHA256 then (WOLFNANO_SUCCESS, Some (t\<lparr>t_h := wc_Sha256Free P (t_h t)\<rparr>))
          else if WOLFSSL_SHA384 P \<and> t_digest t = WC_SHA384 then
            (WOLFNANO_SUCCESS, Some (t\<lparr>t_h := wc_Sha384Free P (t_h t)\<rparr>))
          else (WOLFNANO_SUCCESS, Some t))"

text \<open>The drivers feed one message after the other and stop at the first failure.\<close>

fun transcript_feed :: "'o wc \<Rightarrow> 'o wn_Transcript option \<Rightarrow> bytes list \<Rightarrow> (int \<times> 'o wn_Transcript option) option" where
  "transcript_feed P t [] = Some (WOLFNANO_SUCCESS, t)"
| "transcript_feed P t (m # ms) =
     wn_Transcript_Update P t (Some m) (word_of_nat (length m)) \<bind> (\<lambda>(ret, t).
       if ret = WOLFNANO_SUCCESS then transcript_feed P t ms else Some (ret, t))"

section \<open>The contract of a running hash\<close>

locale running_hash =
  fixes holds :: "'s \<Rightarrow> bytes \<Rightarrow> bool"
    and update :: "'s \<Rightarrow> bytes \<Rightarrow> word32 \<Rightarrow> (int \<times> 's) option"
    and interim :: "'s \<Rightarrow> bytes \<Rightarrow> (int \<times> 's \<times> bytes \<times> word32 option) option"
    and hash :: "bytes \<Rightarrow> bytes"
    and size :: nat
  assumes update_holds:
      "holds t m \<Longrightarrow> unat n \<le> length x \<Longrightarrow>
       \<exists>t'. update t x n = Some (0, t') \<and> holds t' (m @ take (unat n) x)"
    and interim_hash:
      "holds t m \<Longrightarrow> size \<le> length b \<Longrightarrow>
       \<exists>t'. interim t b = Some (0, t', hash m @ drop size b, Some (word_of_nat size)) \<and> holds t' m"
begin

lemma update_whole:
  assumes "holds t m" and "length x < 2 ^ 32"
  shows "\<exists>t'. update t x (word_of_nat (length x)) = Some (0, t') \<and> holds t' (m @ x)"
proof -
  have "unat (word_of_nat (length x) :: word32) = length x"
    using assms(2) by simp
  then show ?thesis
    using update_holds [OF assms(1), of "word_of_nat (length x)" x] by simp
qed

lemma interim_idempotent:
  assumes "holds t m" and "size \<le> length b" and "size \<le> length b'"
  shows "\<exists>t1 t2. interim t b = Some (0, t1, hash m @ drop size b, Some (word_of_nat size)) \<and>
    interim t1 b' = Some (0, t2, hash m @ drop size b', Some (word_of_nat size)) \<and> holds t2 m"
  using interim_hash [OF assms(1,2)] interim_hash [OF _ assms(3)] by blast

end

definition supported :: "'o wc \<Rightarrow> hash_id \<Rightarrow> bool" where
  "supported P d \<longleftrightarrow> d = WC_SHA256 \<or> WOLFSSL_SHA384 P \<and> d = WC_SHA384"

definition tr_holds ::
    "'o wc \<Rightarrow> (hash_id \<Rightarrow> bytes \<Rightarrow> bytes) \<Rightarrow> (hash_id \<Rightarrow> 'o \<Rightarrow> bytes \<Rightarrow> bool) \<Rightarrow> hash_id \<Rightarrow>
     'o wn_Transcript option \<Rightarrow> bytes \<Rightarrow> bool" where
  "tr_holds P H ab d p m \<longleftrightarrow> sha_ok P H ab \<and> supported P d \<and>
     (\<exists>t. p = Some t \<and> t_digest t = d \<and> ab d (t_h t) m)"

lemma crypto_err_0 [simp]: "crypto_err 0 = 0"
  by (simp add: crypto_err_def)

lemma tr_holdsE:
  assumes "tr_holds P H ab d t m"
  obtains c where "t = Some \<lparr>t_h = c, t_digest = d\<rparr>" and "ab d c m" and "sha_ok P H ab" and "supported P d"
  using assms unfolding tr_holds_def by (metis wn_Transcript.surjective old.unit.exhaust)

lemma tr_update:
  assumes "tr_holds P H ab d t m" and "unat n \<le> length x"
  shows "\<exists>t'. wn_Transcript_Update P t (Some x) n = Some (0, t') \<and>
    tr_holds P H ab d t' (m @ take (unat n) x)"
proof -
  from assms(1) obtain c where t: "t = Some \<lparr>t_h = c, t_digest = d\<rparr>" and ab: "ab d c m"
    and ok: "sha_ok P H ab" and d: "supported P d"
    by (rule tr_holdsE)
  let ?x = "take (unat n) x"
  show ?thesis
  proof (cases "d = WC_SHA256")
    case True
    have "fst (wc_Sha256Update P c ?x) = 0 \<and> ab d (snd (wc_Sha256Update P c ?x)) (m @ ?x)"
      using ok ab True unfolding sha_ok_def by blast
    then show ?thesis
      using True d ok t assms(2)
      by (cases "wc_Sha256Update P c ?x")
        (simp add: wn_Transcript_Update_def tr_holds_def ptr_read_Some)
  next
    case False
    then have d384: "d = WC_SHA384" and w: "WOLFSSL_SHA384 P" using d by (auto simp: supported_def)
    have "fst (wc_Sha384Update P c ?x) = 0 \<and> ab d (snd (wc_Sha384Update P c ?x)) (m @ ?x)"
      using ok ab d384 unfolding sha_ok_def by blast
    then show ?thesis
      using d384 w d ok t assms(2)
      by (cases "wc_Sha384Update P c ?x")
        (simp add: wn_Transcript_Update_def tr_holds_def ptr_read_Some)
  qed
qed

lemma tr_interim:
  assumes "tr_holds P H ab d t m" and "digest_size d \<le> length b"
  shows "\<exists>t'. wn_Transcript_GetHash P t (Some b) (Some n) =
      Some (0, t', H d m @ drop (digest_size d) b, Some (word_of_nat (digest_size d))) \<and>
    tr_holds P H ab d t' m"
proof -
  from assms(1) obtain c where t: "t = Some \<lparr>t_h = c, t_digest = d\<rparr>" and ab: "ab d c m"
    and ok: "sha_ok P H ab" and d: "supported P d"
    by (rule tr_holdsE)
  show ?thesis
  proof (cases "d = WC_SHA256")
    case True
    obtain c' where g: "wc_Sha256GetHash P c = (0, H d m, c')" and a: "ab d c' m"
      using ok ab True by (cases "wc_Sha256GetHash P c") (force simp: sha_ok_def)
    have "length (H d m) = 32" using ok True by (simp add: sha_ok_def)
    then show ?thesis
      using assms(2) True g a d ok t
      by (simp add: wn_Transcript_GetHash_def tr_holds_def digest_size_def mem_write_in)
  next
    case False
    then have d384: "d = WC_SHA384" and w: "WOLFSSL_SHA384 P" using d by (auto simp: supported_def)
    obtain c' where g: "wc_Sha384GetHash P c = (0, H d m, c')" and a: "ab d c' m"
      using ok ab d384 by (cases "wc_Sha384GetHash P c") (force simp: sha_ok_def)
    have "length (H d m) = 48" using ok d384 by (simp add: sha_ok_def)
    then show ?thesis
      using assms(2) d384 w g a d ok t
      by (simp add: wn_Transcript_GetHash_def tr_holds_def digest_size_def mem_write_in)
  qed
qed

interpretation tr: running_hash "tr_holds P H ab d"
    "\<lambda>t x n. wn_Transcript_Update P t (Some x) n"
    "\<lambda>t b. wn_Transcript_GetHash P t (Some b) (Some n)" "H d" "digest_size d"
  by unfold_locales (blast intro: tr_update tr_interim)+

lemma tr_init:
  assumes "sha_ok P H ab" and "supported P d"
  shows "\<exists>t'. wn_Transcript_Init P (Some t) d = (0, t') \<and> tr_holds P H ab d t' []"
  using assms by (auto simp: wn_Transcript_Init_def tr_holds_def supported_def sha_ok_def Let_def
      split: prod.splits)

lemma tr_feed:
  assumes "tr_holds P H ab d t m" and "\<forall>x \<in> set xs. length x < 2 ^ 32"
  shows "\<exists>t'. transcript_feed P t xs = Some (0, t') \<and> tr_holds P H ab d t' (m @ concat xs)"
  using assms
proof (induction xs arbitrary: t m)
  case (Cons x xs)
  then obtain t1 where u: "wn_Transcript_Update P t (Some x) (word_of_nat (length x)) = Some (0, t1)"
    and h: "tr_holds P H ab d t1 (m @ x)"
    using tr.update_whole [of P H ab d t m x] by auto
  show ?case
    using Cons.IH [OF h] Cons.prems u by simp
qed simp

section \<open>Properties\<close>

text \<open>
  C18. The transcript hash is the hash of the messages in the order they were appended: after
  \<open>Init\<close> and any sequence of updates, \<open>GetHash\<close> succeeds, stores
  \<open>H(m1 || m2 || ...)\<close> in front of the caller's buffer with its length, and does not disturb
  the transcript: a second call, after more messages, hashes the longer sequence.
\<close>

theorem transcript_hash:
  assumes "sha_ok P H ab" and "supported P d"
    and "\<forall>x \<in> set (xs @ ys). length x < 2 ^ 32"
    and "digest_size d \<le> length b" and "digest_size d \<le> length b'"
  shows "\<exists>t0 t1 t2 t3 t4.
    wn_Transcript_Init P (Some t) d = (0, t0) \<and>
    transcript_feed P t0 xs = Some (0, t1) \<and>
    wn_Transcript_GetHash P t1 (Some b) (Some n) =
      Some (0, t2, H d (concat xs) @ drop (digest_size d) b, Some (word_of_nat (digest_size d))) \<and>
    transcript_feed P t2 ys = Some (0, t3) \<and>
    wn_Transcript_GetHash P t3 (Some b') (Some n') =
      Some (0, t4, H d (concat (xs @ ys)) @ drop (digest_size d) b', Some (word_of_nat (digest_size d)))"
proof -
  obtain t0 where i: "wn_Transcript_Init P (Some t) d = (0, t0)" and h0: "tr_holds P H ab d t0 []"
    using tr_init [OF assms(1,2)] by blast
  obtain t1 where f1: "transcript_feed P t0 xs = Some (0, t1)" and h1: "tr_holds P H ab d t1 (concat xs)"
    using tr_feed [OF h0, of xs] assms(3) by auto
  obtain t2 where g2: "wn_Transcript_GetHash P t1 (Some b) (Some n) =
      Some (0, t2, H d (concat xs) @ drop (digest_size d) b, Some (word_of_nat (digest_size d)))"
    and h2: "tr_holds P H ab d t2 (concat xs)"
    using tr.interim_hash [OF h1 assms(4)] by blast
  obtain t3 where f3: "transcript_feed P t2 ys = Some (0, t3)"
    and h3: "tr_holds P H ab d t3 (concat (xs @ ys))"
    using tr_feed [OF h2, of ys] assms(3) by auto
  show ?thesis
    using i f1 g2 f3 tr.interim_hash [OF h3 assms(5)] by blast
qed

theorem transcript_hash_witness:
  "\<exists>t0 t1 t2 t3 t4.
    wn_Transcript_Init demo_wc (Some \<lparr>t_h = [], t_digest = WC_SHA384\<rparr>) WC_SHA256 = (0, t0) \<and>
    transcript_feed demo_wc t0 [[1, 2], [3]] = Some (0, t1) \<and>
    wn_Transcript_GetHash demo_wc t1 (Some (replicate 32 7)) (Some 0) =
      Some (0, t2, pad 32 [1, 2, 3], Some 32) \<and>
    transcript_feed demo_wc t2 [[4]] = Some (0, t3) \<and>
    wn_Transcript_GetHash demo_wc t3 (Some (replicate 64 7)) (Some 0) =
      Some (0, t4, pad 32 [1, 2, 3, 4] @ replicate 32 7, Some 32)"
proof -
  have s: "supported demo_wc WC_SHA256" by (simp add: supported_def)
  show ?thesis
    using transcript_hash [OF demo_sha s, of "[[1, 2], [3]]" "[[4]]" "replicate 32 7" "replicate 64 7"
        "\<lparr>t_h = [], t_digest = WC_SHA384\<rparr>" 0 0]
    by (simp add: digest_size_def)
qed

end
