(* ===== verification/Wn_KeySchedule.thy ===== *)
theory Wn_KeySchedule
  imports Wn_Seam
begin

text \<open>
  The TLS 1.3 key schedule primitives of \<open>src/src/wn_keyschedule.c\<close>. Each operation takes
  its output buffers with their present contents and returns them with what it leaves there.
  The specification side is RFC 8446, section 7.1, over abstract HKDF and HMAC functions; the
  locale \<open>label_kdf\<close> is the contract the handshake and the session rely on.
\<close>

section \<open>Operations\<close>

definition wn_DigestSize :: "'o wc \<Rightarrow> hash_id \<Rightarrow> word32" where
  "wn_DigestSize P digest =
     (if digest = WC_SHA256 then 32 else if WOLFSSL_SHA384 P \<and> digest = WC_SHA384 then 48 else 0)"

definition wn_Tls13_Extract ::
    "'o wc \<Rightarrow> bytes option \<Rightarrow> bytes option \<Rightarrow> word32 \<Rightarrow> bytes option \<Rightarrow> word32 \<Rightarrow> hash_id \<Rightarrow> (int \<times> bytes) option" where
  "wn_Tls13_Extract P prk salt saltLen ikm ikmLen digest =
     (case (prk, ikm) of
        (Some prk, Some ikm) \<Rightarrow>
          if wn_DigestSize P digest = 0 then Some (WOLFNANO_E_INVALID_ARG, prk)
          else
            (case salt of None \<Rightarrow> Some None
               | Some s \<Rightarrow> mem_read s 0 (unat saltLen) \<bind> (\<lambda>s. Some (Some s))) \<bind> (\<lambda>salt.
            (if ikmLen = 0 then Some (replicate (WC_MAX_DIGEST_SIZE P) 0)
             else mem_read ikm 0 (unat ikmLen)) \<bind> (\<lambda>ikm.
            case wc_Tls13_HKDF_Extract P salt ikm ikmLen digest of (ret, out) \<Rightarrow>
              mem_write prk 0 out \<bind> (\<lambda>prk.
              Some (if ret \<noteq> 0 then WOLFNANO_E_CRYPTO else WOLFNANO_SUCCESS, prk))))
      | _ \<Rightarrow> Some (WOLFNANO_E_INVALID_ARG, buf prk))"

definition wn_Tls13_ExpandLabel ::
    "'o wc \<Rightarrow> bytes option \<Rightarrow> word32 \<Rightarrow> bytes option \<Rightarrow> string option \<Rightarrow> bytes option \<Rightarrow> word32 \<Rightarrow> hash_id \<Rightarrow>
     (int \<times> bytes) option" where
  "wn_Tls13_ExpandLabel P okm okmLen secret label info infoLen digest =
     (let hashLen = wn_DigestSize P digest in
      case (okm, secret, label) of
        (Some okm, Some secret, Some label) \<Rightarrow>
          if hashLen = 0 \<or> info = None \<and> infoLen > 0 then Some (WOLFNANO_E_INVALID_ARG, okm)
          else
            mem_read secret 0 (unat hashLen) \<bind> (\<lambda>secret.
            ptr_read info infoLen \<bind> (\<lambda>info.
            case wc_Tls13_HKDF_Expand_Label P okmLen secret (ascii ''tls13 '') (ascii label) info digest of
              (ret, out) \<Rightarrow>
                mem_write okm 0 out \<bind> (\<lambda>okm.
                Some (if ret \<noteq> 0 then WOLFNANO_E_CRYPTO else WOLFNANO_SUCCESS, okm))))
      | _ \<Rightarrow> Some (WOLFNANO_E_INVALID_ARG, buf okm))"

definition wn_Tls13_DeriveSecret ::
    "'o wc \<Rightarrow> bytes option \<Rightarrow> bytes option \<Rightarrow> string option \<Rightarrow> bytes option \<Rightarrow> word32 \<Rightarrow> hash_id \<Rightarrow>
     (int \<times> bytes) option" where
  "wn_Tls13_DeriveSecret P out secret label transcriptHash hashLen digest =
     (if hashLen \<noteq> wn_DigestSize P digest then Some (WOLFNANO_E_INVALID_ARG, buf out)
      else wn_Tls13_ExpandLabel P out hashLen secret label transcriptHash hashLen digest)"

text \<open>The HMAC calls are short-circuited: the first one that fails ends the sequence.\<close>

definition wn_Tls13_FinishedMac ::
    "'o wc \<Rightarrow> bytes option \<Rightarrow> bytes option \<Rightarrow> bytes option \<Rightarrow> word32 \<Rightarrow> hash_id \<Rightarrow> (int \<times> bytes) option" where
  "wn_Tls13_FinishedMac P out baseKey transcriptHash hashLen digest =
     (case (out, baseKey, transcriptHash) of
        (Some out, Some baseKey, Some th) \<Rightarrow>
          if hashLen = 0 \<or> hashLen \<noteq> wn_DigestSize P digest \<or> unat hashLen > WC_MAX_DIGEST_SIZE P
          then Some (WOLFNANO_E_INVALID_ARG, out)
          else
            wn_Tls13_ExpandLabel P (Some (replicate (WC_MAX_DIGEST_SIZE P) 0)) hashLen (Some baseKey)
              (Some ''finished'') None 0 digest \<bind> (\<lambda>(ret, finishedKey).
            if ret \<noteq> WOLFNANO_SUCCESS then Some (ret, out)
            else case wc_HmacInit P of (r0, h0) \<Rightarrow>
              if r0 \<noteq> 0 then Some (WOLFNANO_E_CRYPTO, out)
              else mem_read finishedKey 0 (unat hashLen) \<bind> (\<lambda>k. case wc_HmacSetKey P h0 digest k of (r1, h1) \<Rightarrow>
                if r1 \<noteq> 0 then Some (WOLFNANO_E_CRYPTO, out)
                else mem_read th 0 (unat hashLen) \<bind> (\<lambda>m. case wc_HmacUpdate P h1 m of (r2, h2) \<Rightarrow>
                  if r2 \<noteq> 0 then Some (WOLFNANO_E_CRYPTO, out)
                  else case wc_HmacFinal P h2 of (r3, mac, h3) \<Rightarrow>
                    mem_write out 0 mac \<bind> (\<lambda>out.
                    Some (if r3 \<noteq> 0 then WOLFNANO_E_CRYPTO else WOLFNANO_SUCCESS, out)))))
      | _ \<Rightarrow> Some (WOLFNANO_E_INVALID_ARG, buf out))"

definition wn_Tls13_KeyUpdate ::
    "'o wc \<Rightarrow> bytes option \<Rightarrow> bytes option \<Rightarrow> bytes option \<Rightarrow> hash_id \<Rightarrow> (int \<times> bytes \<times> bytes \<times> bytes) option" where
  "wn_Tls13_KeyUpdate P secret key iv digest =
     (let hashLen = wn_DigestSize P digest in
      case (secret, key, iv) of
        (Some secret, Some key, Some iv) \<Rightarrow>
          if hashLen = 0 \<or> unat hashLen > WC_MAX_DIGEST_SIZE P
          then Some (WOLFNANO_E_INVALID_ARG, secret, key, iv)
          else
            wn_Tls13_ExpandLabel P (Some (replicate (WC_MAX_DIGEST_SIZE P) 0)) hashLen (Some secret)
              (Some ''traffic upd'') None 0 digest \<bind> (\<lambda>(ret, newSecret).
            if ret \<noteq> WOLFNANO_SUCCESS then Some (ret, secret, key, iv)
            else
              mem_read newSecret 0 (unat hashLen) \<bind> (\<lambda>ns.
              mem_write secret 0 ns \<bind> (\<lambda>secret.
              wn_Tls13_ExpandLabel P (Some key) 16 (Some secret) (Some ''key'') None 0 digest \<bind> (\<lambda>(ret, key).
              if ret \<noteq> WOLFNANO_SUCCESS then Some (ret, secret, key, iv)
              else
                wn_Tls13_ExpandLabel P (Some iv) 12 (Some secret) (Some ''iv'') None 0 digest \<bind> (\<lambda>(ret, iv).
                Some (ret, secret, key, iv))))))
      | _ \<Rightarrow> Some (WOLFNANO_E_INVALID_ARG, buf secret, buf key, buf iv))"

section \<open>Specification (RFC 8446, section 7.1)\<close>

definition HKDF_Expand_Label ::
    "(hash_id \<Rightarrow> bytes \<Rightarrow> bytes \<Rightarrow> nat \<Rightarrow> bytes) \<Rightarrow> hash_id \<Rightarrow> bytes \<Rightarrow> string \<Rightarrow> bytes \<Rightarrow> nat \<Rightarrow> bytes" where
  "HKDF_Expand_Label exp d secret label ctx n =
     exp d secret (hkdf_label n (ascii (''tls13 '' @ label)) ctx) n"

definition Derive_Secret ::
    "(hash_id \<Rightarrow> bytes \<Rightarrow> bytes \<Rightarrow> nat \<Rightarrow> bytes) \<Rightarrow> hash_id \<Rightarrow> bytes \<Rightarrow> string \<Rightarrow> bytes \<Rightarrow> bytes" where
  "Derive_Secret exp d secret label th = HKDF_Expand_Label exp d secret label th (digest_size d)"

section \<open>The contract of a labelled key derivation\<close>

text \<open>
  \<open>expand out n secret label ctx\<close> overwrites the front of \<open>out\<close> with the derived bytes. The
  client's lemmas: a traffic secret gives its key and IV, and its successor.
\<close>

locale label_kdf =
  fixes usable :: bool
    and hl :: nat
    and most :: nat
    and expand :: "bytes \<Rightarrow> word32 \<Rightarrow> bytes \<Rightarrow> string \<Rightarrow> bytes option \<Rightarrow> word32 \<Rightarrow> (int \<times> bytes) option"
    and spec :: "bytes \<Rightarrow> string \<Rightarrow> bytes \<Rightarrow> nat \<Rightarrow> bytes"
  assumes expand_spec:
      "usable \<Longrightarrow> unat n \<le> length out \<Longrightarrow> hl \<le> length secret \<Longrightarrow>
       (info = None \<longrightarrow> infoLen = 0) \<Longrightarrow> unat infoLen \<le> length (buf info) \<Longrightarrow>
       unat n \<le> most \<Longrightarrow> length label \<le> 249 \<Longrightarrow> unat infoLen \<le> 255 \<Longrightarrow>
       expand out n secret label info infoLen =
         Some (0, spec (take hl secret) label (take (unat infoLen) (buf info)) (unat n) @ drop (unat n) out)"
    and spec_length: "usable \<Longrightarrow> k \<le> most \<Longrightarrow> length (spec secret label ctx k) = k"
begin

lemma expand_no_context:
  assumes "usable" and "unat n \<le> length out" and "length secret = hl" and "unat n \<le> most" and "length label \<le> 249"
  shows "expand out n secret label None 0 = Some (0, spec secret label [] (unat n) @ drop (unat n) out)"
  using expand_spec [of n out secret None 0 label] assms by simp

lemma expand_exact:
  assumes "usable" and "unat n = length out" and "length secret = hl"
    and "info = None \<longrightarrow> infoLen = 0" and "unat infoLen = length (buf info)"
    and "unat n \<le> most" and "length label \<le> 249" and "unat infoLen \<le> 255"
  shows "expand out n secret label info infoLen = Some (0, spec secret label (buf info) (unat n))"
  using expand_spec [of n out secret info infoLen label] assms by simp

end

definition kdf_usable where
  "kdf_usable P ext exp d \<longleftrightarrow>
     hkdf_ok P ext exp \<and> (d = WC_SHA256 \<or> WOLFSSL_SHA384 P \<and> d = WC_SHA384) \<and>
     (\<forall>s l n. n \<le> 255 * digest_size d \<longrightarrow> length (exp d s l n) = n)"

lemma usable_digest:
  assumes "kdf_usable P ext exp d"
  shows "unat (wn_DigestSize P d) = digest_size d" and "wn_DigestSize P d \<noteq> 0"
    and "digest_size d \<le> WC_MAX_DIGEST_SIZE P"
  using assms by (auto simp: kdf_usable_def wn_DigestSize_def digest_size_def hkdf_ok_def wc_sizes_def)

lemma usable_expand:
  assumes "kdf_usable P ext exp d" and "unat n \<le> 255 * digest_size d" and "length p + length l \<le> 255" and "length i \<le> 255"
  shows "wc_Tls13_HKDF_Expand_Label P n k p l i d = (0, exp d k (hkdf_label (unat n) (p @ l) i) (unat n))"
proof -
  from assms have "hkdf_ok P ext exp" and "d \<in> {WC_SHA256, WC_SHA384}"
    by (auto simp: kdf_usable_def)
  then show ?thesis using assms(2-4) by (auto simp: hkdf_ok_def)
qed

lemma ExpandLabel_spec:
  assumes u: "kdf_usable P ext exp d"
    and "unat n \<le> length out" and "digest_size d \<le> length secret"
    and "info = None \<longrightarrow> infoLen = 0" and "unat infoLen \<le> length (buf info)"
    and lim: "unat n \<le> 255 * digest_size d" "length label \<le> 249" "unat infoLen \<le> 255"
  shows "wn_Tls13_ExpandLabel P (Some out) n (Some secret) (Some label) info infoLen d =
    Some (0, HKDF_Expand_Label exp d (take (digest_size d) secret) label (take (unat infoLen) (buf info)) (unat n)
             @ drop (unat n) out)"
proof -
  have r: "ptr_read info infoLen = Some (take (unat infoLen) (buf info))"
    using assms(4,5) by (cases info) (auto simp: ptr_read_Some)
  have "length (exp d s l (unat n)) = unat n" for s l
    using u lim by (simp add: kdf_usable_def)
  moreover have "\<not> (info = None \<and> infoLen > 0)"
    using assms(4) by auto
  ultimately show ?thesis
    using assms usable_digest [OF u] r
    by (auto simp: wn_Tls13_ExpandLabel_def Let_def mem_read_in mem_write_in usable_expand [OF u]
        HKDF_Expand_Label_def ascii_def)
qed

interpretation kdf: label_kdf "kdf_usable P ext exp d" "digest_size d" "255 * digest_size d"
    "\<lambda>out n secret label info infoLen. wn_Tls13_ExpandLabel P (Some out) n (Some secret) (Some label) info infoLen d"
    "HKDF_Expand_Label exp d"
proof unfold_locales
  show "length (HKDF_Expand_Label exp d s label ctx n) = n" if "kdf_usable P ext exp d" "n \<le> 255 * digest_size d" for s label ctx n
    using that by (simp add: HKDF_Expand_Label_def kdf_usable_def)
qed (rule ExpandLabel_spec)

lemma KeyUpdate_spec:
  assumes "kdf_usable P ext exp d"
    and "length secret = digest_size d" and "length key = 16" and "length iv = 12"
    and "s' = HKDF_Expand_Label exp d secret ''traffic upd'' [] (digest_size d)"
  shows "wn_Tls13_KeyUpdate P (Some secret) (Some key) (Some iv) d =
    Some (0, s', HKDF_Expand_Label exp d s' ''key'' [] 16, HKDF_Expand_Label exp d s' ''iv'' [] 12)"
proof -
  note u = usable_digest [OF assms(1)]
  have l: "length s' = digest_size d"
    using kdf.spec_length [OF assms(1)] assms(5) by simp
  let ?z = "replicate (WC_MAX_DIGEST_SIZE P) (0 :: byte)"
  have 1: "wn_Tls13_ExpandLabel P (Some ?z) (wn_DigestSize P d) (Some secret) (Some ''traffic upd'') None 0 d =
      Some (0, s' @ drop (digest_size d) ?z)"
    using kdf.expand_no_context [OF assms(1), of "wn_DigestSize P d" ?z secret "''traffic upd''"] u assms(2,5)
    by simp
  have 2: "wn_Tls13_ExpandLabel P (Some key) 16 (Some s') (Some ''key'') None 0 d =
      Some (0, HKDF_Expand_Label exp d s' ''key'' [] 16)"
    using kdf.expand_exact [OF assms(1), of 16 key s' None 0 "''key''"] l assms(3) by simp
  have 3: "wn_Tls13_ExpandLabel P (Some iv) 12 (Some s') (Some ''iv'') None 0 d =
      Some (0, HKDF_Expand_Label exp d s' ''iv'' [] 12)"
    using kdf.expand_exact [OF assms(1), of 12 iv s' None 0 "''iv''"] l assms(4) by simp
  show ?thesis
    using u l assms(2) 1 2 3 by (simp add: wn_Tls13_KeyUpdate_def Let_def mem_read_in mem_write_in)
qed

lemma FinishedMac_spec:
  assumes "kdf_usable P ext exp d" and "hmac_ok P mac"
    and "length baseKey = digest_size d" and "length th = digest_size d" and "digest_size d \<le> length out"
  shows "wn_Tls13_FinishedMac P (Some out) (Some baseKey) (Some th) (wn_DigestSize P d) d =
    Some (0, mac d (HKDF_Expand_Label exp d baseKey ''finished'' [] (digest_size d)) th @ drop (digest_size d) out)"
proof -
  note u = usable_digest [OF assms(1)]
  let ?z = "replicate (WC_MAX_DIGEST_SIZE P) (0 :: byte)"
  let ?k = "HKDF_Expand_Label exp d baseKey ''finished'' [] (digest_size d)"
  have l: "length ?k = digest_size d"
    using kdf.spec_length [OF assms(1)] by simp
  have 1: "wn_Tls13_ExpandLabel P (Some ?z) (wn_DigestSize P d) (Some baseKey) (Some ''finished'') None 0 d =
      Some (0, ?k @ drop (digest_size d) ?z)"
    using kdf.expand_no_context [OF assms(1), of "wn_DigestSize P d" ?z baseKey "''finished''"] u assms(3)
    by simp
  have d: "d \<in> {WC_SHA256, WC_SHA384}"
    using assms(1) by (auto simp: kdf_usable_def)
  have r: "hmac_run P d ?k th = (0, mac d ?k th)"
    using assms(2) d by (auto simp: hmac_ok_def)
  have "length (snd (hmac_run P d ?k th)) = digest_size d"
    using assms(2) by (simp add: hmac_ok_def hmac_sizes_def)
  then have s: "length (mac d ?k th) = digest_size d"
    by (simp add: r)
  show ?thesis
    using r u l s assms(4,5) 1
    by (auto simp: wn_Tls13_FinishedMac_def hmac_run_def mem_read_in mem_write_in
        split: prod.splits if_splits)
qed

lemma usable_extract_length:
  assumes "kdf_usable P ext exp d" and "s \<noteq> []" and "i \<noteq> []" and "length i < 2 ^ 32"
  shows "length (ext d s i) = digest_size d"
proof -
  have h: "hkdf_ok P ext exp" and d: "d \<in> {WC_SHA256, WC_SHA384}"
    using assms(1) by (auto simp: kdf_usable_def)
  let ?x = "wc_Tls13_HKDF_Extract P (Some s) i (word_of_nat (length i)) d"
  have "?x = (0, ext d s i)"
    using h d assms(2-4) unat_word32_of_nat [of "length i"]
    by (auto simp: hkdf_ok_def zeros_if_null_def simp flip: unat_eq_zero)
  moreover have "length (snd ?x) = digest_size d"
    using h d by (auto simp: hkdf_ok_def wc_sizes_def digest_size_def)
  ultimately show ?thesis
    by simp
qed

lemma Extract_spec:
  assumes u: "kdf_usable P ext exp d"
    and "digest_size d \<le> length prk" and "unat saltLen \<le> length (buf salt)"
    and "ikmLen \<noteq> 0" and "unat ikmLen \<le> length ikm"
  shows "wn_Tls13_Extract P (Some prk) salt saltLen (Some ikm) ikmLen d =
    Some (0, ext d (zeros_if_null d (map_option (take (unat saltLen)) salt)) (take (unat ikmLen) ikm)
             @ drop (digest_size d) prk)"
proof -
  have h: "hkdf_ok P ext exp" and d: "d \<in> {WC_SHA256, WC_SHA384}"
    using u by (auto simp: kdf_usable_def)
  let ?s = "map_option (take (unat saltLen)) salt"
  let ?x = "wc_Tls13_HKDF_Extract P ?s (take (unat ikmLen) ikm) ikmLen d"
  have x: "?x = (0, ext d (zeros_if_null d ?s) (take (unat ikmLen) ikm))"
    using h d assms(4) by (auto simp: hkdf_ok_def)
  have "length (snd ?x) = digest_size d"
    using h d by (auto simp: hkdf_ok_def wc_sizes_def digest_size_def)
  then show ?thesis
    using assms x usable_digest [OF u]
    by (cases salt) (simp_all add: wn_Tls13_Extract_def mem_read_in mem_write_in)
qed

lemma DeriveSecret_spec:
  assumes u: "kdf_usable P ext exp d" and n: "hashLen = wn_DigestSize P d"
    and "length out = digest_size d" and "length secret = digest_size d" and "length th = digest_size d"
    and "length label \<le> 249"
  shows "wn_Tls13_DeriveSecret P (Some out) (Some secret) (Some label) (Some th) hashLen d =
    Some (0, Derive_Secret exp d secret label th)"
  using kdf.expand_exact [OF u, of hashLen out secret "Some th" hashLen label] assms usable_digest [OF u]
  by (simp add: wn_Tls13_DeriveSecret_def Derive_Secret_def)

section \<open>Properties\<close>

text \<open>
  C19. A post-handshake key update replaces the traffic secret by
  \<open>HKDF-Expand-Label(secret, "traffic upd", "", Hash.length)\<close> and derives the record key
  and IV from the new secret, never from the old one (RFC 8446, sections 7.2 and 7.3).
\<close>

theorem key_update_rfc:
  assumes "kdf_usable P ext exp d"
    and "length secret = digest_size d" and "length key = 16" and "length iv = 12"
    and "s' = HKDF_Expand_Label exp d secret ''traffic upd'' [] (digest_size d)"
  shows "wn_Tls13_KeyUpdate P (Some secret) (Some key) (Some iv) d =
    Some (0, s', HKDF_Expand_Label exp d s' ''key'' [] 16, HKDF_Expand_Label exp d s' ''iv'' [] 12)"
  using assms by (rule KeyUpdate_spec)

theorem key_update_rfc_witness:
  "wn_Tls13_KeyUpdate demo_wc (Some (replicate 32 5)) (Some (replicate 16 0)) (Some (replicate 12 0)) WC_SHA256 =
    Some (0, replicate 32 5, replicate 16 5, replicate 12 5)"
proof -
  have u: "kdf_usable demo_wc (\<lambda>d s i. pad (digest_size d) (s @ i)) (\<lambda>d k l n. pad n (k @ l)) WC_SHA256"
    by (simp add: kdf_usable_def demo_hkdf)
  show ?thesis
    using key_update_rfc [OF u, of "replicate 32 5" "replicate 16 0" "replicate 12 0" "replicate 32 5"]
    by (simp add: digest_size_def HKDF_Expand_Label_def pad_def)
qed

text \<open>
  C20. The Finished MAC, which is also the PSK binder, is
  \<open>HMAC(HKDF-Expand-Label(baseKey, "finished", "", Hash.length), transcriptHash)\<close>
  (RFC 8446, section 4.4.4), written to the front of the caller's buffer.
\<close>

theorem finished_mac_rfc:
  assumes "kdf_usable P ext exp d" and "hmac_ok P mac"
    and "length baseKey = digest_size d" and "length th = digest_size d" and "digest_size d \<le> length out"
  shows "wn_Tls13_FinishedMac P (Some out) (Some baseKey) (Some th) (wn_DigestSize P d) d =
    Some (0, mac d (HKDF_Expand_Label exp d baseKey ''finished'' [] (digest_size d)) th @ drop (digest_size d) out)"
  using assms by (rule FinishedMac_spec)

theorem finished_mac_rfc_witness:
  "wn_Tls13_FinishedMac demo_wc (Some (replicate 40 9)) (Some (replicate 32 5)) (Some (replicate 32 1)) 32 WC_SHA256 =
    Some (0, replicate 32 5 @ replicate 8 9)"
proof -
  have u: "kdf_usable demo_wc (\<lambda>d s i. pad (digest_size d) (s @ i)) (\<lambda>d k l n. pad n (k @ l)) WC_SHA256"
    by (simp add: kdf_usable_def demo_hkdf)
  show ?thesis
    using finished_mac_rfc [OF u demo_hmac, of "replicate 32 5" "replicate 32 1" "replicate 40 9"]
    by (simp add: digest_size_def HKDF_Expand_Label_def pad_def wn_DigestSize_def)
qed

end
