(* ===== verification/Wn_Record.thy ===== *)
theory Wn_Record
  imports Wn_Seam
begin

text \<open>
  Record framing and AES-GCM record protection of \<open>src/src/wn_record.c\<close>. Buffers are passed
  with their present contents and returned with what the call leaves there. The content
  buffer of \<open>wn_Record_Unprotect\<close> may be the record's own payload, as its comment allows:
  the record is read only before the content is written, so the two buffers are modelled
  apart and the session puts the payload back where it lies.
\<close>

section \<open>Operations\<close>

abbreviation (input) WN_RECORD_HEADER_SZ :: nat where "WN_RECORD_HEADER_SZ \<equiv> 5"
abbreviation (input) WN_RECORD_TAG_SZ :: nat where "WN_RECORD_TAG_SZ \<equiv> 16"
abbreviation (input) WN_MAX_PLAINTEXT :: word32 where "WN_MAX_PLAINTEXT \<equiv> 16384"
abbreviation (input) WN_REC_CHANGE_CIPHER :: byte where "WN_REC_CHANGE_CIPHER \<equiv> 20"
abbreviation (input) WN_REC_ALERT :: byte where "WN_REC_ALERT \<equiv> 21"
abbreviation (input) WN_REC_HANDSHAKE :: byte where "WN_REC_HANDSHAKE \<equiv> 22"
abbreviation (input) WN_REC_APPDATA :: byte where "WN_REC_APPDATA \<equiv> 23"

text \<open>
  A receive callback gets the transport state and the room in the buffer; it returns its
  \<open>int\<close>, the bytes it stored and the new transport state.
\<close>

type_synonym 'io wn_IoRecv = "'io \<Rightarrow> word32 \<Rightarrow> int \<times> bytes \<times> 'io"
type_synonym 'io wn_IoSend = "'io \<Rightarrow> bytes \<Rightarrow> int \<times> 'io"

text \<open>\<open>off\<close> is where the pointer the caller passes lies in \<open>b\<close>.\<close>

partial_function (option) io_recv_loop ::
    "'io wn_IoRecv \<Rightarrow> 'io \<Rightarrow> bytes \<Rightarrow> nat \<Rightarrow> word32 \<Rightarrow> word32 \<Rightarrow> (int \<times> bytes \<times> 'io) option" where
  "io_recv_loop recv ctx b off n got =
     (if got < n then
        (case recv ctx (n - got) of (r, bs, ctx) \<Rightarrow>
           mem_write b (off + unat got) bs \<bind> (\<lambda>b.
           if r \<le> 0 then Some (WOLFNANO_E_CRYPTO, b, ctx)
           else io_recv_loop recv ctx b off n (got + word_of_int r)))
      else Some (WOLFNANO_SUCCESS, b, ctx))"

definition io_recv_exact ::
    "'io wn_IoRecv \<Rightarrow> 'io \<Rightarrow> bytes \<Rightarrow> nat \<Rightarrow> word32 \<Rightarrow> (int \<times> bytes \<times> 'io) option" where
  "io_recv_exact recv ctx b off n = io_recv_loop recv ctx b off n 0"

definition wn_RecvRecord ::
    "'io wn_IoRecv \<Rightarrow> 'io \<Rightarrow> bytes \<Rightarrow> word32 \<Rightarrow> byte \<Rightarrow> word32 \<Rightarrow>
     (int \<times> bytes \<times> byte \<times> word32 \<times> 'io) option" where
  "wn_RecvRecord recv ctx rec cap type recLen =
     io_recv_exact recv ctx rec 0 5 \<bind> (\<lambda>(ret, rec, ctx).
     if ret \<noteq> WOLFNANO_SUCCESS then Some (ret, rec, type, recLen, ctx)
     else
       mem_get rec 0 \<bind> (\<lambda>type.
       mem_get rec 3 \<bind> (\<lambda>b3.
       mem_get rec 4 \<bind> (\<lambda>b4.
       let frag = push_bit 8 (ucast b3) OR ucast b4 :: word32 in
       if frag = 0 \<or> frag + 5 > cap \<or> frag > WN_MAX_PLAINTEXT + 256
       then Some (WOLFNANO_E_CRYPTO, rec, type, recLen, ctx)
       else
         io_recv_exact recv ctx rec 5 frag \<bind> (\<lambda>(ret, rec, ctx).
         if ret = WOLFNANO_SUCCESS \<and> type = WN_REC_CHANGE_CIPHER then
           (if frag \<noteq> 1 then Some (WOLFNANO_E_DECODE, rec, type, frag + 5, ctx)
            else mem_get rec 5 \<bind> (\<lambda>b5.
              Some (if b5 \<noteq> 1 then WOLFNANO_E_DECODE else ret, rec, type, frag + 5, ctx)))
         else Some (ret, rec, type, frag + 5, ctx))))))"

definition nonce_step :: "word64 \<Rightarrow> nat \<Rightarrow> bytes \<Rightarrow> bytes" where
  "nonce_step seq i nonce = nonce[11 - i := nonce ! (11 - i) XOR ucast (drop_bit (8 * i) seq)]"

definition wn_BuildNonce :: "bytes \<Rightarrow> word64 \<Rightarrow> bytes option" where
  "wn_BuildNonce iv seq = mem_read iv 0 12 \<bind> (\<lambda>nonce. Some (fold (nonce_step seq) [0..<8] nonce))"

text \<open>The AES-GCM calls of \<open>wn_Record_Protect\<close>, on a record whose plaintext is staged.\<close>

definition record_seal ::
    "'o wc \<Rightarrow> bytes \<Rightarrow> word32 \<Rightarrow> bytes \<Rightarrow> word32 \<Rightarrow> bytes \<Rightarrow> word32 \<Rightarrow> word32 \<Rightarrow> (int \<times> bytes \<times> word32) option" where
  "record_seal P rec recLen key keyLen nonce innerLen ctLen =
     (case wc_AesInit P of (r, aes) \<Rightarrow>
        if r \<noteq> 0 then Some (WOLFNANO_E_CRYPTO, rec, recLen)
        else
          mem_read key 0 (unat keyLen) \<bind> (\<lambda>key.
          case wc_AesGcmSetKey P aes key of (r, aes) \<Rightarrow>
            if r \<noteq> 0 then Some (WOLFNANO_E_CRYPTO, rec, recLen)
            else
              mem_read rec WN_RECORD_HEADER_SZ (unat innerLen) \<bind> (\<lambda>pt.
              mem_read rec 0 WN_RECORD_HEADER_SZ \<bind> (\<lambda>aad.
              case wc_AesGcmEncrypt P aes pt nonce aad of (r, ct, tag) \<Rightarrow>
                mem_write rec WN_RECORD_HEADER_SZ ct \<bind> (\<lambda>rec.
                mem_write rec (WN_RECORD_HEADER_SZ + unat innerLen) tag \<bind> (\<lambda>rec.
                Some (if r \<noteq> 0 then WOLFNANO_E_CRYPTO else WOLFNANO_SUCCESS, rec, 5 + ctLen)))))))"

definition wn_Record_Protect ::
    "'o wc \<Rightarrow> bytes option \<Rightarrow> word32 option \<Rightarrow> bytes option \<Rightarrow> word32 \<Rightarrow> bytes option \<Rightarrow> word64 \<Rightarrow> byte \<Rightarrow>
     bytes option \<Rightarrow> word32 \<Rightarrow> (int \<times> bytes \<times> word32 option) option" where
  "wn_Record_Protect P rec recLen key keyLen iv seq contentType content contentLen =
     (case (rec, recLen, key, iv, content) of
        (Some rec, Some rl, Some key, Some iv, Some content) \<Rightarrow>
          if contentLen > WN_MAX_PLAINTEXT then Some (WOLFNANO_E_INVALID_ARG, rec, Some rl)
          else
            let innerLen = contentLen + 1; ctLen = innerLen + 16 in
            wn_BuildNonce iv seq \<bind> (\<lambda>nonce.
            mem_write rec 0 [23, 0x03, 0x03, ucast (drop_bit 8 ctLen), ucast (ctLen AND 0xff)] \<bind> (\<lambda>rec.
            mem_read content 0 (unat contentLen) \<bind> (\<lambda>m.
            mem_write rec WN_RECORD_HEADER_SZ m \<bind> (\<lambda>rec.
            mem_set rec (WN_RECORD_HEADER_SZ + unat contentLen) contentType \<bind> (\<lambda>rec.
            record_seal P rec rl key keyLen nonce innerLen ctLen \<bind> (\<lambda>(ret, rec, rl).
            if ret \<noteq> WOLFNANO_SUCCESS then
              force_zero rec WN_RECORD_HEADER_SZ (unat innerLen) \<bind> (\<lambda>rec. Some (ret, rec, Some rl))
            else Some (ret, rec, Some rl)))))))
      | _ \<Rightarrow> Some (WOLFNANO_E_INVALID_ARG, buf rec, recLen))"

text \<open>The padding loop: from \<open>n\<close> down over zero bytes.\<close>

fun strip_zeros :: "bytes \<Rightarrow> nat \<Rightarrow> nat option" where
  "strip_zeros content 0 = Some 0"
| "strip_zeros content (Suc n) =
     mem_get content n \<bind> (\<lambda>b. if b = 0 then strip_zeros content n else Some (Suc n))"

definition wn_Record_Unprotect ::
    "'o wc \<Rightarrow> bytes option \<Rightarrow> word32 option \<Rightarrow> byte option \<Rightarrow> bytes option \<Rightarrow> word32 \<Rightarrow> bytes option \<Rightarrow> word64 \<Rightarrow>
     bytes option \<Rightarrow> word32 \<Rightarrow> (int \<times> bytes \<times> word32 option \<times> byte option) option" where
  "wn_Record_Unprotect P content contentLen contentType key keyLen iv seq rec recLen =
     (case (content, contentLen, contentType, key, iv, rec) of
        (Some ct, Some cl, Some cty, Some key, Some iv, Some rec) \<Rightarrow>
          if recLen < 5 + 16 + 1 then Some (WOLFNANO_E_INVALID_ARG, ct, Some cl, Some cty)
          else
            let innerLen = recLen - 5 - 16 in
            wn_BuildNonce iv seq \<bind> (\<lambda>nonce.
            case wc_AesInit P of (r, aes) \<Rightarrow>
              if r \<noteq> 0 then Some (WOLFNANO_E_CRYPTO, ct, Some cl, Some cty)
              else
                mem_read key 0 (unat keyLen) \<bind> (\<lambda>key.
                case wc_AesGcmSetKey P aes key of (r, aes) \<Rightarrow>
                  if r \<noteq> 0 then Some (WOLFNANO_E_CRYPTO, ct, Some cl, Some cty)
                  else
                    mem_read rec WN_RECORD_HEADER_SZ (unat innerLen) \<bind> (\<lambda>body.
                    mem_read rec (WN_RECORD_HEADER_SZ + unat innerLen) WN_RECORD_TAG_SZ \<bind> (\<lambda>tag.
                    mem_read rec 0 WN_RECORD_HEADER_SZ \<bind> (\<lambda>aad.
                    case wc_AesGcmDecrypt P aes body nonce tag aad of (r, pt) \<Rightarrow>
                      mem_write ct 0 pt \<bind> (\<lambda>ct.
                      if r \<noteq> 0 then Some (WOLFNANO_E_BAD_MAC, ct, Some cl, Some cty)
                      else
                        strip_zeros ct (unat innerLen) \<bind> (\<lambda>n.
                        if n = 0 then Some (WOLFNANO_E_DECODE, ct, Some cl, Some cty)
                        else mem_get ct (n - 1) \<bind> (\<lambda>t.
                          Some (WOLFNANO_SUCCESS, ct, Some (word_of_nat (n - 1)), Some t)))))))))
      | _ \<Rightarrow> Some (WOLFNANO_E_INVALID_ARG, buf content, contentLen, contentType))"

section \<open>The per-record nonce\<close>

definition nonce_of :: "bytes \<Rightarrow> word64 \<Rightarrow> bytes" where
  "nonce_of iv seq = take 4 iv @ map2 (XOR) (take 8 (drop 4 iv)) (be_bytes 8 (unat seq))"

lemma length_12_cases:
  assumes "length xs = 12"
  obtains a b c d e f g h i j k l where "xs = [a, b, c, d, e, f, g, h, i, j, k, l]"
  using assms that by (auto simp: length_Suc_conv eval_nat_numeral)

lemma be_bytes_map: "be_bytes k n = map (\<lambda>i. word_of_nat (n div 2 ^ (8 * i))) (rev [0..<k])"
  by (induction k) (simp_all add: power_mult)

lemma upt_0_8: "[0..<8] = [0, 1, 2, 3, 4, 5, 6, 7 :: nat]"
  by (simp add: upt_conv_Cons)

lemma be_bytes_8_seq:
  "be_bytes 8 (unat (seq :: word64)) = map (\<lambda>i. ucast (drop_bit (8 * i) seq)) [7, 6, 5, 4, 3, 2, 1, 0]"
  by (simp only: be_bytes_map upt_0_8 byte_of_drop_bit) simp

lemma fold_nonce_step:
  assumes "length iv = 12"
  shows "fold (nonce_step seq) [0..<8] iv = nonce_of iv seq"
proof -
  obtain a b c d e f g h i j k l where iv: "iv = [a, b, c, d, e, f, g, h, i, j, k, l]"
    using assms by (rule length_12_cases)
  show ?thesis
    by (simp add: nonce_of_def be_bytes_8_seq upt_0_8 nonce_step_def iv)
qed

lemma BuildNonce_eq: "12 \<le> length iv \<Longrightarrow> wn_BuildNonce iv seq = Some (nonce_of (take 12 iv) seq)"
  by (simp add: wn_BuildNonce_def mem_read_in fold_nonce_step)

lemma map2_xor_cancel:
  fixes xs :: "'a::len word list"
  shows "length ys = length xs \<Longrightarrow> length zs = length xs \<Longrightarrow>
   map2 (XOR) xs ys = map2 (XOR) xs zs \<longleftrightarrow> ys = zs"
proof (induction xs arbitrary: ys zs)
  case (Cons x xs)
  have "x XOR y = x XOR z \<longleftrightarrow> y = z" for y z :: "'a word"
    by (metis xor.left_commute xor_self_eq xor.right_neutral)
  then show ?case
    using Cons by (cases ys; cases zs) auto
qed simp

lemma be_bytes_inj: "be_bytes k m = be_bytes k n \<Longrightarrow> m mod 256 ^ k = n mod 256 ^ k"
  by (metis be_val_be_bytes)

lemma nonce_of_inj:
  assumes "length iv = 12"
  shows "nonce_of iv s = nonce_of iv s' \<longleftrightarrow> s = s'"
proof
  assume "nonce_of iv s = nonce_of iv s'"
  then have "be_bytes 8 (unat s) = be_bytes 8 (unat s')"
    using assms by (simp add: nonce_of_def map2_xor_cancel)
  then have "unat s mod 256 ^ 8 = unat s' mod 256 ^ 8"
    by (rule be_bytes_inj)
  then show "s = s'"
    using word64_lt [of s] word64_lt [of s'] by (simp add: unsigned_word_eqI)
qed simp

lemma length_nonce_of: "length iv = 12 \<Longrightarrow> length (nonce_of iv s) = 12"
  by (simp add: nonce_of_def)

section \<open>Sealing and opening\<close>

text \<open>
  What AES-GCM makes of a plaintext under a key: the sealed payload (ciphertext and tag), or
  nothing when one of the calls fails; and what it makes of a payload.
\<close>

definition seal :: "'o wc \<Rightarrow> bytes \<Rightarrow> bytes \<Rightarrow> bytes \<Rightarrow> bytes \<Rightarrow> bytes option" where
  "seal P key nonce aad pt =
     (case gcm_key P key of (r, aes) \<Rightarrow> if r \<noteq> 0 then None
      else case wc_AesGcmEncrypt P aes pt nonce aad of (r, ct, tag) \<Rightarrow> if r \<noteq> 0 then None else Some (ct @ tag))"

definition open_sealed :: "'o wc \<Rightarrow> bytes \<Rightarrow> bytes \<Rightarrow> bytes \<Rightarrow> bytes \<Rightarrow> bytes \<Rightarrow> bytes option" where
  "open_sealed P key nonce aad body tag =
     (case gcm_key P key of (r, aes) \<Rightarrow> if r \<noteq> 0 then None
      else case wc_AesGcmDecrypt P aes body nonce tag aad of (r, pt) \<Rightarrow> if r \<noteq> 0 then None else Some pt)"

definition record_header :: "nat \<Rightarrow> bytes" where
  "record_header n = [23, 3, 3, word_of_nat (n div 256), word_of_nat n]"

lemma length_record_header [simp]: "length (record_header n) = 5"
  by (simp add: record_header_def)

lemma record_header_bytes:
  "[23, 3, 3, ucast (drop_bit 8 w), ucast (w AND 0xff)] = record_header (unat (w :: word32))"
  by (simp add: record_header_def byte_of_simps)

lemma gcm_roundtrip:
  assumes "gcm_ok P" and "fst (gcm_key P key) = 0" and "length n = 12"
  shows "case wc_AesGcmEncrypt P (snd (gcm_key P key)) m n a of (r, ct, tag) \<Rightarrow>
    r = 0 \<and> wc_AesGcmDecrypt P (snd (gcm_key P key)) ct n tag a = (0, m)"
proof -
  have "\<forall>key m n a. fst (gcm_key P key) = 0 \<longrightarrow> length n = 12 \<longrightarrow>
      (case wc_AesGcmEncrypt P (snd (gcm_key P key)) m n a of (r, ct, tag) \<Rightarrow>
         r = 0 \<and> wc_AesGcmDecrypt P (snd (gcm_key P key)) ct n tag a = (0, m))"
    using iffD1 [OF gcm_ok_def assms(1)] by (elim conjE)
  from this [rule_format, OF assms(2,3)] show ?thesis .
qed

lemma seal_open:
  assumes "gcm_ok P" and "seal P key nonce aad pt = Some x" and "length nonce = 12"
  shows "open_sealed P key nonce aad (take (length pt) x) (drop (length pt) x) = Some pt"
    and "length x = length pt + 16"
proof -
  obtain aes where k: "gcm_key P key = (0, aes)"
    using assms(2) by (auto simp: seal_def split: prod.splits if_splits)
  obtain r ct tag where e: "wc_AesGcmEncrypt P aes pt nonce aad = (r, ct, tag)"
    by (metis prod.exhaust)
  have d: "r = 0" "wc_AesGcmDecrypt P aes ct nonce tag aad = (0, pt)"
    using gcm_roundtrip [OF assms(1) _ assms(3), where key = key and m = pt and a = aad] k e by simp_all
  have l: "length ct = length pt" "length tag = 16"
    using assms(1) e unfolding gcm_ok_def gcm_sizes_def by (metis fst_conv snd_conv)+
  have x: "x = ct @ tag"
    using assms(2) k e d by (simp add: seal_def)
  show "open_sealed P key nonce aad (take (length pt) x) (drop (length pt) x) = Some pt"
    using x k d l by (simp add: open_sealed_def)
  show "length x = length pt + 16"
    using x l by simp
qed

lemma seal_total:
  assumes "gcm_ok P" and "length key = 16" and "length nonce = 12"
  shows "\<exists>x. seal P key nonce aad pt = Some x"
proof -
  have "fst (gcm_key P key) = 0" using assms(1,2) by (simp add: gcm_ok_def)
  then obtain aes where "gcm_key P key = (0, aes)" by (metis prod.collapse)
  with gcm_roundtrip [OF assms(1) _ assms(3), where key = key and m = pt and a = aad] show ?thesis
    by (auto simp: seal_def split: prod.splits)
qed

lemma strip_zeros_spec:
  "n \<le> length b \<Longrightarrow> strip_zeros b n = Some (length (rev (dropWhile ((=) 0) (rev (take n b)))))"
proof (induction n)
  case (Suc n)
  have "take (Suc n) b = take n b @ [b ! n]"
    using Suc.prems by (simp add: take_Suc_conv_app_nth)
  then show ?case
    using Suc by (auto simp: mem_get_in)
qed simp

lemma dropWhile_zeros: "t \<noteq> 0 \<Longrightarrow> dropWhile ((=) (0 :: byte)) (replicate k 0 @ t # xs) = t # xs"
  by (induction k) simp_all

lemma strip_zeros_exact:
  assumes "take n b = m @ [t] @ replicate k 0" and "t \<noteq> 0" and "n \<le> length b"
  shows "strip_zeros b n = Some (Suc (length m))"
  using assms by (simp add: strip_zeros_spec dropWhile_zeros)

text \<open>
  A sealed record: header, payload, and the rest of the buffer as it was. When sealing fails
  the bytes behind the record are still as they were.
\<close>

lemma gcm_sizesD:
  assumes "gcm_sizes P"
  shows "wc_AesGcmEncrypt P aes pt nonce aad = (r, ct, tag) \<Longrightarrow> length ct = length pt"
    and "wc_AesGcmEncrypt P aes pt nonce aad = (r, ct, tag) \<Longrightarrow> length tag = 16"
    and "wc_AesGcmDecrypt P aes body nonce tag aad = (r, pt) \<Longrightarrow> length pt = length body"
  using assms unfolding gcm_sizes_def by (metis fst_conv snd_conv)+

lemma record_seal_spec:
  assumes "gcm_sizes P" and "unat keyLen \<le> length key"
    and "length hdr = 5" and "unat innerLen = length pt" and "16 \<le> length rest"
  shows "runs (record_seal P (hdr @ pt @ rest) rl key keyLen nonce innerLen ctLen) (\<lambda>(ret, rec', rl').
    case seal P (take (unat keyLen) key) nonce hdr pt of
      Some x \<Rightarrow> ret = 0 \<and> rec' = hdr @ x @ drop 16 rest \<and> rl' = 5 + ctLen \<and> length x = length pt + 16
    | None \<Rightarrow> ret = WOLFNANO_E_CRYPTO \<and>
        (\<exists>y. rec' = hdr @ y @ drop 16 rest \<and> length y = length pt + 16))"
proof -
  let ?key = "take (unat keyLen) key"
  have rest: "\<exists>y. pt @ rest = y @ drop 16 rest \<and> length y = length pt + 16"
    using assms(5) by (intro exI [of _ "pt @ take 16 rest"]) simp
  obtain r aes where i: "wc_AesInit P = (r, aes)" by (metis prod.exhaust)
  obtain r' aes' where k: "wc_AesGcmSetKey P aes ?key = (r', aes')" by (metis prod.exhaust)
  obtain r'' ct tag where e: "wc_AesGcmEncrypt P aes' pt nonce hdr = (r'', ct, tag)" by (metis prod.exhaust)
  note l = gcm_sizesD(1,2) [OF assms(1) e]
  show ?thesis
    using assms(2-5) i k e l rest
    by (auto simp: record_seal_def runs_bind runs_mem seal_def gcm_key_def)
qed

lemma Protect_spec:
  assumes "gcm_sizes P" and "unat keyLen \<le> length key" and "12 \<le> length iv"
    and "unat contentLen \<le> length content" and "contentLen \<le> WN_MAX_PLAINTEXT"
    and "unat contentLen + 22 \<le> length rec"
    and "n = unat contentLen" and "m = take n content" and "hdr = record_header (n + 17)"
  shows "runs (wn_Record_Protect P (Some rec) (Some rl) (Some key) keyLen (Some iv) seq ty (Some content) contentLen)
    (\<lambda>(ret, rec', rl').
      case seal P (take (unat keyLen) key) (nonce_of (take 12 iv) seq) hdr (m @ [ty]) of
        Some x \<Rightarrow> ret = 0 \<and> rec' = hdr @ x @ drop (n + 22) rec \<and> rl' = Some (contentLen + 22) \<and> length x = n + 17
      | None \<Rightarrow> ret = WOLFNANO_E_CRYPTO \<and> length rec' = length rec \<and>
          drop (n + 22) rec' = drop (n + 22) rec \<and> take (n + 1) (drop 5 rec') = replicate (n + 1) 0)"
proof -
  have n: "n \<le> 16384" using assms(5,7) by (simp add: word_le_nat_alt)
  have u: "unat (contentLen + 1) = n + 1"
    using n assms(7) by (simp add: unat_add_no_wrap)
  have u17: "unat (contentLen + 17) = n + 17"
    using n assms(7) by (simp add: unat_add_no_wrap)
  have hdr: "[23, 0x03, 0x03, ucast (drop_bit 8 (contentLen + 1 + 16)), ucast ((contentLen + 1 + 16) AND 0xff)] = hdr"
    using u17 assms(9) record_header_bytes [of "contentLen + 17"] by (simp add: add.assoc)
  have lm: "length m = n" using assms(4,7,8) by simp
  let ?rest = "drop (n + 6) rec"
  have staged: "mem_write rec 0 hdr \<bind> (\<lambda>rec. mem_write rec 5 m \<bind> (\<lambda>rec. mem_set rec (5 + n) ty \<bind> k)) =
      k (hdr @ (m @ [ty]) @ ?rest)" for k :: "bytes \<Rightarrow> 'z option"
    using assms(6,7,9) lm by (simp add: mem_write_in mem_set_def add.commute)
  have seal: "runs (record_seal P (hdr @ (m @ [ty]) @ ?rest) rl key keyLen nonce (contentLen + 1) (contentLen + 1 + 16))
     (\<lambda>(ret, rec', rl').
    case seal P (take (unat keyLen) key) nonce hdr (m @ [ty]) of
      Some x \<Rightarrow> ret = 0 \<and> rec' = hdr @ x @ drop 16 ?rest \<and> rl' = 5 + (contentLen + 1 + 16) \<and> length x = length (m @ [ty]) + 16
    | None \<Rightarrow> ret = WOLFNANO_E_CRYPTO \<and>
        (\<exists>y. rec' = hdr @ y @ drop 16 ?rest \<and> length y = length (m @ [ty]) + 16))" for nonce
    using assms(1,2,6,7,9) lm u by (intro record_seal_spec) simp_all
  let ?nonce = "nonce_of (take 12 iv) seq"
  have eq: "wn_Record_Protect P (Some rec) (Some rl) (Some key) keyLen (Some iv) seq ty (Some content) contentLen =
      record_seal P (hdr @ (m @ [ty]) @ ?rest) rl key keyLen ?nonce (contentLen + 1) (contentLen + 1 + 16) \<bind>
        (\<lambda>(ret, rec, rl). if ret \<noteq> 0 then force_zero rec 5 (n + 1) \<bind> (\<lambda>rec. Some (ret, rec, Some rl))
                          else Some (ret, rec, Some rl))"
  proof -
    have g: "\<not> WN_MAX_PLAINTEXT < contentLen" using assms(5) by (simp add: not_less)
    have h: "[23, 3, 3, ucast (drop_bit 8 (17 + contentLen)), ucast (17 + contentLen AND 0xff)] = hdr"
      using hdr by (simp add: ac_simps)
    have r: "mem_read content 0 n = Some m" using assms(4,7,8) by (simp add: mem_read_in)
    show ?thesis
      using assms(3) u by (simp add: wn_Record_Protect_def Let_def BuildNonce_eq g h r staged cong: if_cong flip: assms(7))
  qed
  show ?thesis
  proof (cases "seal P (take (unat keyLen) key) ?nonce hdr (m @ [ty])")
    case None
    then show ?thesis
      unfolding eq runs_bind
      by (intro runs_mono [OF seal])
        (use assms(6,7,9) lm in \<open>auto simp: force_zero_def runs_bind runs_mem add.commute drop_Cons'\<close>)
  next
    case (Some x)
    then show ?thesis
      unfolding eq runs_bind
      by (intro runs_mono [OF seal]) (use lm in \<open>clarsimp simp: add.commute\<close>)
  qed
qed

text \<open>
  Opening a record. The inner plaintext is the content, its type byte and zero padding; a
  payload that does not authenticate leaves the type and the length as they were.
\<close>

definition inner_plaintext :: "bytes \<Rightarrow> bytes \<Rightarrow> byte \<Rightarrow> bool" where
  "inner_plaintext pt m ty \<longleftrightarrow> ty \<noteq> 0 \<and> (\<exists>k. pt = m @ [ty] @ replicate k 0)"

lemma inner_plaintext_cases:
  "(\<exists>k. pt = replicate k 0) \<or> (\<exists>m ty. inner_plaintext pt m ty)"
proof (induction pt rule: rev_induct)
  case (snoc b pt)
  show ?case
  proof (cases "b = 0")
    case True
    with snoc show ?thesis
      by (metis append.assoc inner_plaintext_def replicate_append_same replicate_Suc)
  next
    case False
    then have "inner_plaintext (pt @ [b]) pt b"
      by (auto simp: inner_plaintext_def intro: exI [of _ 0])
    then show ?thesis by blast
  qed
qed simp

lemma inner_plaintext_unique:
  assumes "inner_plaintext pt m ty" and "inner_plaintext pt m' ty'"
  shows "m = m' \<and> ty = ty'"
proof -
  have strip: "dropWhile ((=) 0) (rev pt) = t # rev x" if ip: "inner_plaintext pt x t" for x t
  proof -
    obtain k where "pt = x @ [t] @ replicate k 0" and "t \<noteq> 0" using ip by (auto simp: inner_plaintext_def)
    then show ?thesis by (simp add: dropWhile_zeros)
  qed
  show ?thesis
    using strip [OF assms(1)] strip [OF assms(2)] by simp
qed

lemma strip_zeros_inner:
  assumes "take n b = pt" and "n \<le> length b" and "inner_plaintext pt m ty"
  shows "strip_zeros b n = Some (Suc (length m))" and "b ! length m = ty" and "length m < n"
proof -
  obtain k where k: "pt = m @ [ty] @ replicate k 0" and ty: "ty \<noteq> 0"
    using assms(3) by (auto simp: inner_plaintext_def)
  then show "strip_zeros b n = Some (Suc (length m))"
    using assms(1,2) strip_zeros_exact by blast
  have "length pt = n" using assms(1,2) by auto
  with k show l: "length m < n" by simp
  have "pt ! length m = ty" using k by (simp add: nth_append)
  then show "b ! length m = ty" using assms(1) l by auto
qed

lemma take_prefix: "take n xs = ys @ zs \<Longrightarrow> take (length ys) xs = ys"
  by (metis append.assoc append_eq_conv_conj append_take_drop_id)

lemma strip_zeros_all: "take n b = replicate k 0 \<Longrightarrow> n \<le> length b \<Longrightarrow> strip_zeros b n = Some 0"
  by (simp add: strip_zeros_spec)

lemma Unprotect_spec:
  assumes "gcm_sizes P" and "fst (wc_AesInit P) = 0" and "fst (gcm_key P (take (unat keyLen) key)) = 0"
    and "unat keyLen \<le> length key" and "12 \<le> length iv"
    and "unat recLen \<le> length rec" and "22 \<le> recLen"
    and "n = unat recLen - 21" and "n \<le> length content"
  shows "runs (wn_Record_Unprotect P (Some content) (Some cl) (Some cty) (Some key) keyLen (Some iv) seq (Some rec) recLen)
    (\<lambda>(ret, content', cl', cty'). length content' = length content \<and> drop n content' = drop n content \<and>
      (case open_sealed P (take (unat keyLen) key) (nonce_of (take 12 iv) seq) (take 5 rec)
          (take n (drop 5 rec)) (take 16 (drop (5 + n) rec)) of
        None \<Rightarrow> ret = WOLFNANO_E_BAD_MAC \<and> cl' = Some cl \<and> cty' = Some cty
      | Some pt \<Rightarrow> take n content' = pt \<and> length pt = n \<and>
          (if ret = 0 then \<exists>m ty. inner_plaintext pt m ty \<and> cl' = Some (word_of_nat (length m)) \<and> cty' = Some ty
           else ret = WOLFNANO_E_DECODE \<and> pt = replicate n 0 \<and> cl' = Some cl \<and> cty' = Some cty)))"
proof -
  have r: "unat recLen \<ge> 22" using assms(7) by (simp add: word_le_nat_alt)
  have i: "unat (recLen - 5 - 16) = n"
    using r assms(8) by (simp add: unat_sub_no_wrap word_le_nat_alt)
  have g: "\<not> recLen < 5 + 16 + 1" using assms(7) by (simp add: not_less)
  obtain a where a: "wc_AesInit P = (0, a)" using assms(2) by (cases "wc_AesInit P") simp
  obtain aes where k: "wc_AesGcmSetKey P a (take (unat keyLen) key) = (0, aes)"
    using assms(3) a by (cases "wc_AesGcmSetKey P a (take (unat keyLen) key)") (simp add: gcm_key_def)
  obtain r' pt where d: "wc_AesGcmDecrypt P aes (take n (drop 5 rec)) (nonce_of (take 12 iv) seq)
      (take 16 (drop (5 + n) rec)) (take 5 rec) = (r', pt)"
    by (metis prod.exhaust)
  have l: "length pt = n" using gcm_sizesD(3) [OF assms(1) d] r assms(6,8) by simp
  let ?ct = "pt @ drop n content"
  have tk: "take n ?ct = pt" "n \<le> length ?ct" using l by auto
  have bounds: "5 + n + 16 \<le> length rec" using r assms(6,8) by simp
  consider (zero) "pt = replicate n 0" | (inner) m ty where "inner_plaintext pt m ty"
    using inner_plaintext_cases [of pt] l by auto
  then show ?thesis
  proof cases
    case zero
    then show ?thesis
      using assms(4,5,9) g i a k d l tk bounds strip_zeros_all [OF _ tk(2), of n]
      by (auto simp: wn_Record_Unprotect_def Let_def BuildNonce_eq runs_bind runs_mem open_sealed_def gcm_key_def)
  next
    case inner
    then show ?thesis
      using assms(4,5,9) g i a k d l tk bounds strip_zeros_inner [OF tk inner]
      by (auto simp: wn_Record_Unprotect_def Let_def BuildNonce_eq runs_bind runs_mem open_sealed_def gcm_key_def)
  qed
qed

section \<open>Reading records from the transport\<close>

text \<open>
  The callback contract of \<open>src/include/wolfnano/wolfnano.h\<close> ("return bytes transferred, or
  < 0 on error"), with the transfer staying within the length passed. \<open>stream_ok\<close> says more:
  the transport delivers a byte stream, in chunks of any size.
\<close>

definition recv_ok :: "'io wn_IoRecv \<Rightarrow> bool" where
  "recv_ok recv \<longleftrightarrow> (\<forall>ctx n r bs ctx'. 0 < n \<longrightarrow> recv ctx n = (r, bs, ctx') \<longrightarrow>
     length bs \<le> unat n \<and> (0 < r \<longrightarrow> r = int (length bs)))"

definition stream_ok :: "'io wn_IoRecv \<Rightarrow> ('io \<Rightarrow> bytes) \<Rightarrow> bool" where
  "stream_ok recv pending \<longleftrightarrow> (\<forall>ctx n r bs ctx'. 0 < n \<longrightarrow> recv ctx n = (r, bs, ctx') \<longrightarrow>
     pending ctx = bs @ pending ctx' \<and> length bs \<le> unat n \<and> r = int (length bs) \<and>
     (pending ctx \<noteq> [] \<longrightarrow> bs \<noteq> []))"

lemma recv_okD:
  "recv_ok recv \<Longrightarrow> recv ctx n = (r, bs, ctx') \<Longrightarrow> 0 < n \<Longrightarrow>
   length bs \<le> unat n \<and> (0 < r \<longrightarrow> r = int (length bs))"
  unfolding recv_ok_def by blast

lemma stream_okD:
  "stream_ok recv pending \<Longrightarrow> recv ctx n = (r, bs, ctx') \<Longrightarrow> 0 < n \<Longrightarrow>
   pending ctx = bs @ pending ctx' \<and> length bs \<le> unat n \<and> r = int (length bs) \<and> (pending ctx \<noteq> [] \<longrightarrow> bs \<noteq> [])"
  unfolding stream_ok_def by blast

lemma stream_recv_ok: "stream_ok recv pending \<Longrightarrow> recv_ok recv"
  unfolding stream_ok_def recv_ok_def by blast

lemma io_recv_loop_safe:
  assumes "recv_ok recv" and "off + unat n \<le> length b" and "got \<le> n"
  shows "runs (io_recv_loop recv ctx b off n got) (\<lambda>(ret, b', ctx'). ret \<in> {0, WOLFNANO_E_CRYPTO} \<and>
    length b' = length b \<and> take off b' = take off b \<and> drop (off + unat n) b' = drop (off + unat n) b)"
  using assms(2,3)
proof (induction "unat n - unat got" arbitrary: ctx b got rule: less_induct)
  case less
  show ?case
  proof (cases "got < n")
    case True
    obtain r bs ctx' where c: "recv ctx (n - got) = (r, bs, ctx')" by (metis prod.exhaust)
    have d: "unat (n - got) = unat n - unat got" "0 < n - got"
      using True by (simp_all add: unat_sub_no_wrap less_imp_le word_less_nat_alt)
    have ok: "length bs \<le> unat n - unat got" "0 < r \<longrightarrow> r = int (length bs)"
      using recv_okD [OF assms(1) c d(2)] d(1) by auto
    have lt: "unat got < unat n" using True by (simp add: word_less_nat_alt)
    let ?b = "take (off + unat got) b @ bs @ drop (off + unat got + length bs) b"
    have w: "mem_write b (off + unat got) bs = Some ?b"
      using ok lt less.prems by (simp add: mem_write_in)
    have frame: "length ?b = length b" "take off ?b = take off b" "drop (off + unat n) ?b = drop (off + unat n) b"
      using ok lt less.prems by (auto simp: min_def add.commute)
    show ?thesis
    proof (cases "0 < r")
      case False
      then show ?thesis
        using True c w frame by (subst io_recv_loop.simps) simp
    next
      case r: True
      have "unat got + length bs < 2 ^ 32" using ok(1) lt by (intro le_unat_lt [of _ n]) simp
      then have g: "unat (got + word_of_int r) = unat got + length bs"
        using ok r by (simp add: unat_advance)
      have dec: "unat n - unat (got + word_of_int r) < unat n - unat got"
        unfolding g using ok r lt by (intro diff_less_mono2) simp_all
      have "got + word_of_int r \<le> n"
        using g ok lt by (simp add: word_le_nat_alt)
      then have "runs (io_recv_loop recv ctx' ?b off n (got + word_of_int r)) (\<lambda>(ret, b', ctx'). ret \<in> {0, WOLFNANO_E_CRYPTO} \<and>
          length b' = length ?b \<and> take off b' = take off ?b \<and> drop (off + unat n) b' = drop (off + unat n) ?b)"
        using less.prems frame(1) by (intro less.hyps dec) simp_all
      then show ?thesis
        unfolding frame using True c w r by (subst io_recv_loop.simps) (simp add: not_le)
    qed
  next
    case False
    then show ?thesis by (subst io_recv_loop.simps) simp
  qed
qed

lemma io_recv_loop_stream:
  assumes "stream_ok recv pending" and "off + unat n \<le> length b" and "got \<le> n"
    and "unat n - unat got \<le> length (pending ctx)"
  shows "\<exists>ctx'. io_recv_loop recv ctx b off n got =
      Some (0, take (off + unat got) b @ take (unat n - unat got) (pending ctx) @ drop (off + unat n) b, ctx') \<and>
    pending ctx' = drop (unat n - unat got) (pending ctx)"
  using assms(2-4)
proof (induction "unat n - unat got" arbitrary: ctx b got rule: less_induct)
  case less
  show ?case
  proof (cases "got < n")
    case True
    obtain r bs ctx' where c: "recv ctx (n - got) = (r, bs, ctx')" by (metis prod.exhaust)
    have lt: "unat got < unat n" using True by (simp add: word_less_nat_alt)
    have d: "unat (n - got) = unat n - unat got" "0 < n - got"
      using True by (simp_all add: unat_sub_no_wrap less_imp_le word_less_nat_alt)
    note s = stream_okD [OF assms(1) c d(2), THEN conjunct1]
      stream_okD [OF assms(1) c d(2), THEN conjunct2]
    have "pending ctx \<noteq> []" using lt less.prems(3) by (cases "pending ctx") simp_all
    then have ok: "length bs \<le> unat n - unat got" "r = int (length bs)" "bs \<noteq> []"
      using s(2) by (simp_all only: d(1) simp_thms)
    let ?b = "take (off + unat got) b @ bs @ drop (off + unat got + length bs) b"
    have w: "mem_write b (off + unat got) bs = Some ?b"
      using ok lt less.prems by (simp add: mem_write_in)
    have "unat got + length bs < 2 ^ 32" using ok(1) lt by (intro le_unat_lt [of _ n]) simp
    then have g: "unat (got + word_of_int r) = unat got + length bs"
      using ok by (simp add: unat_advance)
    have "got + word_of_int r \<le> n"
      using g ok lt by (simp add: word_le_nat_alt)
    moreover have "unat n - unat (got + word_of_int r) < unat n - unat got"
      unfolding g using ok lt by (intro diff_less_mono2) simp_all
    moreover have "unat n - unat (got + word_of_int r) \<le> length (pending ctx')"
      using less.prems(3) s(1) g by simp
    moreover have "off + unat n \<le> length ?b"
      using less.prems(1) ok lt by simp
    ultimately obtain ctx'' where "io_recv_loop recv ctx' ?b off n (got + word_of_int r) =
        Some (0, take (off + unat (got + word_of_int r)) ?b @
          take (unat n - unat (got + word_of_int r)) (pending ctx') @ drop (off + unat n) ?b, ctx'')"
      and "pending ctx'' = drop (unat n - unat (got + word_of_int r)) (pending ctx')"
      using less.hyps by meson
    then show ?thesis
      using True c w g ok lt less.prems by (subst io_recv_loop.simps) (auto simp: s(1) ac_simps)
  next
    case False
    then show ?thesis using less.prems by (subst io_recv_loop.simps) (simp add: not_less)
  qed
qed

lemma frag_value: "unat (push_bit 8 (ucast (a :: byte)) OR ucast (b :: byte) :: word32) = unat a * 256 + unat b"
proof -
  have "push_bit 8 (ucast a) OR ucast b = (push_bit 8 (ucast a) + ucast b :: word32)"
    by (rule disjunctive_add [symmetric]) (auto simp: bit_simps dest: bit_imp_le_length)
  also have "\<dots> = word_of_nat (unat a * 256 + unat b)"
    by (simp add: push_bit_eq_mult mult.commute)
  finally have "push_bit 8 (ucast a) OR ucast b = (word_of_nat (unat a * 256 + unat b) :: word32)" .
  moreover have "unat a * 256 + unat b < 2 ^ 32"
    using byte_lt_256 [of a] byte_lt_256 [of b] by (simp del: byte_lt_256 byte_le_255)
  ultimately show ?thesis
    by (metis unat_word32_of_nat)
qed

definition frag_of :: "bytes \<Rightarrow> nat" where
  "frag_of rec = unat (rec ! 3) * 256 + unat (rec ! 4)"

lemma frag_of_header: "k < 65536 \<Longrightarrow> frag_of (record_header k @ x) = k"
  by (simp add: frag_of_def record_header_def unat_of_nat)

lemma io_recv_exact_safe:
  assumes "recv_ok recv" and "off + unat n \<le> length b"
  shows "runs (io_recv_exact recv ctx b off n) (\<lambda>(ret, b', ctx'). ret \<in> {0, WOLFNANO_E_CRYPTO} \<and>
    length b' = length b \<and> take off b' = take off b \<and> drop (off + unat n) b' = drop (off + unat n) b)"
  unfolding io_recv_exact_def using assms by (intro io_recv_loop_safe) simp_all

lemma io_recv_exact_stream:
  assumes "stream_ok recv pending" and "off + unat n \<le> length b" and "unat n \<le> length (pending ctx)"
  shows "\<exists>ctx'. io_recv_exact recv ctx b off n =
      Some (0, take off b @ take (unat n) (pending ctx) @ drop (off + unat n) b, ctx') \<and>
    pending ctx' = drop (unat n) (pending ctx)"
  unfolding io_recv_exact_def using io_recv_loop_stream [OF assms(1,2), of 0 ctx] assms(3) by simp

lemma take_nth_eq: "take n xs = take n ys \<Longrightarrow> i < n \<Longrightarrow> n \<le> length xs \<Longrightarrow> n \<le> length ys \<Longrightarrow> xs ! i = ys ! i"
  by (metis nth_take)

lemma drop_eq_mono: "drop k xs = drop k ys \<Longrightarrow> k \<le> n \<Longrightarrow> drop n xs = drop n ys"
  by (metis drop_drop le_add_diff_inverse2)

lemma RecvRecord_safe:
  assumes "recv_ok recv" and "5 \<le> length rec" and "unat cap \<le> length rec"
  shows "runs (wn_RecvRecord recv ctx rec cap ty rl) (\<lambda>(ret, rec', ty', rl', ctx').
    length rec' = length rec \<and> drop (max 5 (unat cap)) rec' = drop (max 5 (unat cap)) rec \<and>
    ret \<in> {0, WOLFNANO_E_CRYPTO, WOLFNANO_E_DECODE} \<and>
    (ret = 0 \<longrightarrow> ty' = rec' ! 0 \<and> 0 < frag_of rec' \<and> frag_of rec' \<le> 16640 \<and>
       unat rl' = frag_of rec' + 5 \<and> unat rl' \<le> unat cap \<and>
       (ty' = WN_REC_CHANGE_CIPHER \<longrightarrow> frag_of rec' = 1 \<and> rec' ! 5 = 1)))"
proof -
  obtain ret1 rec1 ctx1 where e1: "io_recv_exact recv ctx rec 0 5 = Some (ret1, rec1, ctx1)"
    and r1: "ret1 \<in> {0, WOLFNANO_E_CRYPTO}" and l1: "length rec1 = length rec" and d1: "drop 5 rec1 = drop 5 rec"
    using io_recv_exact_safe [OF assms(1), of 0 5 rec ctx] assms(2) by (auto simp: runs_def)
  have g1: "mem_get rec1 0 = Some (rec1 ! 0)" "mem_get rec1 3 = Some (rec1 ! 3)" "mem_get rec1 4 = Some (rec1 ! 4)"
    using l1 assms(2) by (auto intro: mem_get_in)
  have d1': "drop (max 5 (unat cap)) rec1 = drop (max 5 (unat cap)) rec"
    using d1 by (rule drop_eq_mono) simp
  define frag :: word32 where "frag = push_bit 8 (ucast (rec1 ! 3)) OR ucast (rec1 ! 4)"
  have uf: "unat frag = frag_of rec1" by (simp add: frag_def frag_value frag_of_def)
  have f5: "unat (frag + 5) = frag_of rec1 + 5"
  proof -
    have "frag_of rec1 + 5 < 2 ^ 32"
      using byte_lt_256 [of "rec1 ! 3"] byte_lt_256 [of "rec1 ! 4"]
      by (simp add: frag_of_def del: byte_lt_256 byte_le_255)
    then show ?thesis by (simp add: uf unat_add_no_wrap)
  qed
  let ?bad = "frag = 0 \<or> frag + 5 > cap \<or> frag > WN_MAX_PLAINTEXT + 256"
  show ?thesis
  proof (cases "ret1 = 0 \<and> \<not> ?bad")
    case False
    then show ?thesis
      using e1 r1 l1 d1' unfolding wn_RecvRecord_def Let_def by (auto simp: g1 simp flip: frag_def)
  next
    case True
    then have c: "frag_of rec1 + 5 \<le> unat cap" and f: "0 < frag_of rec1" "frag_of rec1 \<le> 16640"
      using f5 uf unat_gt_0 [of frag] by (auto simp: not_less word_le_nat_alt)
    obtain ret2 rec2 ctx2 where e2: "io_recv_exact recv ctx1 rec1 5 frag = Some (ret2, rec2, ctx2)"
      and r2: "ret2 \<in> {0, WOLFNANO_E_CRYPTO}" and l2: "length rec2 = length rec1"
      and t2: "take 5 rec2 = take 5 rec1" and d2: "drop (5 + unat frag) rec2 = drop (5 + unat frag) rec1"
      using io_recv_exact_safe [OF assms(1), of 5 frag rec1 ctx1] c uf l1 assms(3) by (auto simp: runs_def)
    have n2: "rec2 ! i = rec1 ! i" if "i < 5" for i
      using take_nth_eq [OF t2 that] l1 l2 assms(2) by simp
    have fr: "frag_of rec2 = frag_of rec1" by (simp add: frag_of_def n2)
    have d2': "drop (max 5 (unat cap)) rec2 = drop (max 5 (unat cap)) rec"
      using drop_eq_mono [OF d2, of "max 5 (unat cap)"] d1' c uf by simp
    show ?thesis
      using True e1 e2 r2 l1 l2 d2' c f f5 fr n2 [of 0] assms(3) uf unfolding wn_RecvRecord_def Let_def
      by (auto simp: g1 mem_get_in simp flip: frag_def)
  qed
qed

lemma RecvRecord_stream:
  assumes "stream_ok recv pending"
    and "pending ctx = h0 # h1 # h2 # h3 # h4 # body @ rest"
    and "length body = unat h3 * 256 + unat h4" and "body \<noteq> []" and "length body \<le> 16640"
    and "length body + 5 \<le> unat cap" and "unat cap \<le> length rec"
    and "h0 = WN_REC_CHANGE_CIPHER \<longrightarrow> body = [1]"
  shows "\<exists>ctx'. wn_RecvRecord recv ctx rec cap ty rl =
      Some (0, [h0, h1, h2, h3, h4] @ body @ drop (length body + 5) rec, h0, word_of_nat (length body + 5), ctx') \<and>
    pending ctx' = rest"
proof -
  let ?h = "[h0, h1, h2, h3, h4]"
  let ?rec1 = "?h @ drop 5 rec"
  obtain ctx1 where e1: "io_recv_exact recv ctx rec 0 5 = Some (0, ?rec1, ctx1)" and p1: "pending ctx1 = body @ rest"
    using io_recv_exact_stream [OF assms(1), of 0 5 rec ctx] assms(2,6,7) by auto
  define frag :: word32 where "frag = push_bit 8 (ucast h3) OR ucast h4"
  have uf: "unat frag = length body" using assms(3) by (simp add: frag_def frag_value)
  then have frag: "frag = word_of_nat (length body)" by (metis of_nat_unat ucast_id)
  have u5: "unat (frag + 5) = length body + 5"
    using assms(5) uf by (simp add: unat_add_no_wrap)
  have ok: "\<not> (frag = 0 \<or> frag + 5 > cap \<or> frag > WN_MAX_PLAINTEXT + 256)"
    using assms(4-6) uf u5 by (auto simp: word_less_nat_alt)
  obtain ctx2 where e2: "io_recv_exact recv ctx1 ?rec1 5 frag =
      Some (0, ?h @ body @ drop (length body + 5) rec, ctx2)" and p2: "pending ctx2 = rest"
  proof -
    have "drop (5 + unat frag) ?rec1 = drop (length body + 5) rec"
      by (simp only: uf drop_append) (simp add: add.commute)
    moreover have "5 + unat frag \<le> length ?rec1"
      using uf assms(6,7) by simp
    ultimately show ?thesis
      using that io_recv_exact_stream [OF assms(1), of 5 frag ?rec1 ctx1] p1 uf by auto
  qed
  have ccs: "frag = 1" "body ! 0 = 1" if "h0 = WN_REC_CHANGE_CIPHER"
    using assms(8) that frag by simp_all
  have "frag + 5 = word_of_nat (length body + 5)" using frag by simp
  then show ?thesis
    using e1 e2 p2 ok ccs assms(4) unfolding wn_RecvRecord_def Let_def
    by (auto simp: mem_get_def nth_append simp flip: frag_def)
qed

section \<open>Records as messages\<close>

text \<open>
  What a sender puts on the wire and what a receiver makes of it, with buffers of the exact
  size: the client side of the record layer. The locale states the contract and carries the
  lemma for a sequence of records under consecutive sequence numbers.
\<close>

definition protect :: "'o wc \<Rightarrow> bytes \<Rightarrow> bytes \<Rightarrow> word64 \<Rightarrow> byte \<Rightarrow> bytes \<Rightarrow> bytes option" where
  "protect P key iv seq ty m =
     (case wn_Record_Protect P (Some (replicate (length m + 22) 0)) (Some 0) (Some key) (word_of_nat (length key))
             (Some iv) seq ty (Some m) (word_of_nat (length m)) of
        Some (ret, rec, rl) \<Rightarrow> if ret = WOLFNANO_SUCCESS then Some rec else None
      | None \<Rightarrow> None)"

definition unprotect :: "'o wc \<Rightarrow> bytes \<Rightarrow> bytes \<Rightarrow> word64 \<Rightarrow> bytes \<Rightarrow> (byte \<times> bytes) option" where
  "unprotect P key iv seq rec =
     (case wn_Record_Unprotect P (Some (drop 5 rec)) (Some 0) (Some 0) (Some key) (word_of_nat (length key))
             (Some iv) seq (Some rec) (word_of_nat (length rec)) of
        Some (ret, content, Some n, Some ty) \<Rightarrow>
          if ret = WOLFNANO_SUCCESS then Some (ty, take (unat n) content) else None
      | _ \<Rightarrow> None)"

fun wrap_all :: "(word64 \<Rightarrow> byte \<Rightarrow> bytes \<Rightarrow> bytes option) \<Rightarrow> word64 \<Rightarrow> (byte \<times> bytes) list \<Rightarrow> bytes list option" where
  "wrap_all wrap s [] = Some []"
| "wrap_all wrap s ((ty, m) # ms) =
     wrap s ty m \<bind> (\<lambda>r. wrap_all wrap (s + 1) ms \<bind> (\<lambda>rs. Some (r # rs)))"

fun unwrap_all :: "(word64 \<Rightarrow> bytes \<Rightarrow> (byte \<times> bytes) option) \<Rightarrow> word64 \<Rightarrow> bytes list \<Rightarrow> (byte \<times> bytes) list option" where
  "unwrap_all unwrap s [] = Some []"
| "unwrap_all unwrap s (r # rs) =
     unwrap s r \<bind> (\<lambda>m. unwrap_all unwrap (s + 1) rs \<bind> (\<lambda>ms. Some (m # ms)))"

locale record_channel =
  fixes ready :: bool
    and wrap :: "word64 \<Rightarrow> byte \<Rightarrow> bytes \<Rightarrow> bytes option"
    and unwrap :: "word64 \<Rightarrow> bytes \<Rightarrow> (byte \<times> bytes) option"
    and fits :: "bytes \<Rightarrow> bool"
  assumes wrap_total: "ready \<Longrightarrow> fits m \<Longrightarrow> \<exists>r. wrap s ty m = Some r"
    and unwrap_wrap: "ready \<Longrightarrow> fits m \<Longrightarrow> ty \<noteq> 0 \<Longrightarrow> wrap s ty m = Some r \<Longrightarrow> unwrap s r = Some (ty, m)"
begin

lemma in_order:
  assumes "ready" and "\<forall>(ty, m) \<in> set ms. ty \<noteq> 0 \<and> fits m"
  shows "\<exists>rs. wrap_all wrap s ms = Some rs \<and> length rs = length ms \<and> unwrap_all unwrap s rs = Some ms"
  using assms(2)
proof (induction ms arbitrary: s)
  case (Cons x ms)
  obtain ty m where x: "x = (ty, m)" by fastforce
  then have ok: "ty \<noteq> 0" "fits m" using Cons.prems by auto
  obtain r where r: "wrap s ty m = Some r" using wrap_total [OF assms(1) ok(2)] by blast
  obtain rs where rs: "wrap_all wrap (s + 1) ms = Some rs" "length rs = length ms"
      "unwrap_all unwrap (s + 1) rs = Some ms"
    using Cons by force
  show ?case
    using x r rs unwrap_wrap [OF assms(1) ok(2,1) r] by simp
qed simp

end

definition channel_ready :: "'o wc \<Rightarrow> bytes \<Rightarrow> bytes \<Rightarrow> bool" where
  "channel_ready P key iv \<longleftrightarrow> gcm_ok P \<and> length key = 16 \<and> length iv = 12"

definition fits_record :: "bytes \<Rightarrow> bool" where
  "fits_record m \<longleftrightarrow> length m \<le> 16384"

lemma protect_eq:
  assumes "channel_ready P key iv" and "fits_record m"
  shows "\<exists>x. seal P key (nonce_of iv seq) (record_header (length m + 17)) (m @ [ty]) = Some x \<and>
    length x = length m + 17 \<and> protect P key iv seq ty m = Some (record_header (length m + 17) @ x)"
proof -
  have P: "gcm_ok P" "gcm_sizes P" and k: "length key = 16" "length iv = 12"
    using assms(1) by (auto simp: channel_ready_def gcm_ok_def)
  obtain x where x: "seal P key (nonce_of iv seq) (record_header (length m + 17)) (m @ [ty]) = Some x"
    using seal_total [OF P(1) k(1) length_nonce_of [OF k(2)]] by blast
  have u: "unat (word_of_nat (length m) :: word32) = length m" "word_of_nat (length m) \<le> (16384 :: word32)"
    using assms(2) by (simp_all add: fits_record_def word_le_nat_alt)
  show ?thesis
    using Protect_spec [OF P(2), where key = key and keyLen = "word_of_nat (length key)" and iv = iv and seq = seq
        and content = m and contentLen = "word_of_nat (length m)" and rec = "replicate (length m + 22) 0"
        and rl = 0 and ty = ty and n = "length m" and m = m and hdr = "record_header (length m + 17)"] u k x
    by (auto simp: protect_def runs_def)
qed

text \<open>The same with larger buffers: a protected record at the front of a buffer opens in place.\<close>

lemma Protect_record:
  assumes "channel_ready P key iv" and "fits_record m" and "length m + 22 \<le> length rec"
    and "unat n = length m" and "take (length m) content = m" and "length m \<le> length content"
  shows "\<exists>r. protect P key iv seq ty m = Some r \<and> length r = length m + 22 \<and>
    wn_Record_Protect P (Some rec) (Some rl) (Some key) 16 (Some iv) seq ty (Some content) n =
      Some (0, r @ drop (length m + 22) rec, Some (n + 22))"
proof -
  have P: "gcm_sizes P" and k: "length key = 16" "length iv = 12"
    using assms(1) by (auto simp: channel_ready_def gcm_ok_def)
  obtain x where x: "seal P key (nonce_of iv seq) (record_header (length m + 17)) (m @ [ty]) = Some x"
      "length x = length m + 17" "protect P key iv seq ty m = Some (record_header (length m + 17) @ x)"
    using protect_eq [OF assms(1,2)] by blast
  have n: "n \<le> 16384" using assms(2,4) by (simp add: fits_record_def word_le_nat_alt)
  have pre: "unat (16 :: word32) \<le> length key" "12 \<le> length iv" "unat n \<le> length content" "unat n + 22 \<le> length rec"
    using k assms by simp_all
  have "seal P (take (unat (16 :: word32)) key) (nonce_of (take 12 iv) seq) (record_header (length m + 17)) (m @ [ty]) = Some x"
    using x(1) k by simp
  with Protect_spec [OF P pre(1-3) n pre(4) assms(4) [symmetric] assms(5) [symmetric] refl, of rl seq ty]
  show ?thesis using x(2,3) by (auto simp: runs_def)
qed

lemma Unprotect_record:
  assumes "channel_ready P key iv" and "fits_record m" and "ty \<noteq> 0" and "protect P key iv seq ty m = Some r"
    and "unat n = length r"
  shows "\<exists>c. wn_Record_Unprotect P (Some (drop 5 (r @ z))) (Some cl0) (Some ct0) (Some key) 16 (Some iv) seq (Some (r @ z)) n =
      Some (0, c, Some (word_of_nat (length m)), Some ty) \<and> take (length m) c = m \<and> length c = length (drop 5 (r @ z))"
proof -
  have P: "gcm_ok P" "gcm_sizes P" "fst (wc_AesInit P) = 0" and k: "length key = 16" "length iv = 12"
    and g: "fst (gcm_key P key) = 0"
    using assms(1) by (auto simp: channel_ready_def gcm_ok_def)
  obtain x where s: "seal P key (nonce_of iv seq) (record_header (length m + 17)) (m @ [ty]) = Some x"
    and l: "length x = length m + 17" and r: "r = record_header (length m + 17) @ x"
    using protect_eq [OF assms(1,2)] assms(4) by (metis option.inject)
  have o: "open_sealed P key (nonce_of iv seq) (record_header (length m + 17)) (take (length m + 1) x) (drop (length m + 1) x)
      = Some (m @ [ty])"
    using seal_open(1) [OF P(1) s] k(2) by (simp add: length_nonce_of)
  have u: "unat n = length m + 22" using assms(5) r l by simp
  let ?U = "wn_Record_Unprotect P (Some (drop 5 (r @ z))) (Some cl0) (Some ct0) (Some key) 16
      (Some iv) seq (Some (r @ z)) n"
  have "runs ?U (\<lambda>(ret, c, cl, ct). take (length m + 1) c = m @ [ty] \<and> length c = length (drop 5 (r @ z)) \<and>
      (if ret = 0 then \<exists>m' ty'. inner_plaintext (m @ [ty]) m' ty' \<and> cl = Some (word_of_nat (length m')) \<and> ct = Some ty'
       else m @ [ty] = replicate (length m + 1) 0))"
    by (rule runs_mono [OF Unprotect_spec [OF P(2,3), where n = "length m + 1"]])
      (use g k u r l o in \<open>auto simp: word_le_nat_alt split: if_splits\<close>)
  then obtain ret c cl ct where e: "?U = Some (ret, c, cl, ct)"
    and t: "take (length m + 1) c = m @ [ty]" and lc: "length c = length (drop 5 (r @ z))"
    and q: "if ret = 0 then \<exists>m' ty'. inner_plaintext (m @ [ty]) m' ty' \<and> cl = Some (word_of_nat (length m')) \<and> ct = Some ty'
            else m @ [ty] = replicate (length m + 1) 0"
    by (rule runs4E) blast
  have "ret = 0"
  proof (rule ccontr)
    assume "ret \<noteq> 0"
    then have "set (m @ [ty]) = set (replicate (length m + 1) 0)" using q by metis
    then show False using assms(3) by auto
  qed
  moreover have "inner_plaintext (m @ [ty]) m ty"
    using assms(3) by (auto simp: inner_plaintext_def intro: exI [of _ 0])
  ultimately have "cl = Some (word_of_nat (length m)) \<and> ct = Some ty"
    using q by (auto dest: inner_plaintext_unique [of "m @ [ty]" m ty])
  moreover have "take (length m) c = m"
    using arg_cong [OF t, of "take (length m)"] by (simp add: min_def)
  ultimately show ?thesis
    using e lc \<open>ret = 0\<close> by blast
qed

lemma unprotect_protect:
  assumes "channel_ready P key iv" and "fits_record m" and "ty \<noteq> 0" and "protect P key iv seq ty m = Some r"
  shows "unprotect P key iv seq r = Some (ty, m)"
proof -
  have "length r < 2 ^ 32"
    using protect_eq [OF assms(1,2), of seq ty] assms(2,4) by (auto simp: fits_record_def)
  then have "unat (word_of_nat (length r) :: word32) = length r" by (simp only: unat_word32_of_nat)
  moreover have "word_of_nat (length key) = (16 :: word32)"
    using assms(1) by (simp add: channel_ready_def)
  ultimately show ?thesis
    using Unprotect_record [OF assms, of "word_of_nat (length r)" "[]" 0 0] assms(2)
    by (auto simp: unprotect_def fits_record_def)
qed

interpretation chan: record_channel "channel_ready P key iv" "protect P key iv" "unprotect P key iv" fits_record
  by unfold_locales (use protect_eq unprotect_protect in blast)+

text \<open>A transport that delivers a given byte string one byte at a time.\<close>

definition demo_recv :: "bytes wn_IoRecv" where
  "demo_recv ctx n = (case ctx of [] \<Rightarrow> (0, [], []) | b # bs \<Rightarrow> (1, [b], bs))"

lemma demo_stream: "stream_ok demo_recv id"
  by (auto simp: stream_ok_def demo_recv_def word_less_nat_alt split: list.splits)

section \<open>Properties\<close>

text \<open>
  C13. Under one IV no two sequence numbers share a nonce (RFC 8446, section 5.3): the nonce is
  built for every 64-bit sequence number, is 12 bytes long, and determines the number.
\<close>

theorem nonce_unique:
  assumes "12 \<le> length iv"
  shows "(\<exists>n. wn_BuildNonce iv s = Some n \<and> length n = 12) \<and>
    (wn_BuildNonce iv s = wn_BuildNonce iv s' \<longleftrightarrow> s = s')"
  using assms by (simp add: BuildNonce_eq nonce_of_inj length_nonce_of)

theorem nonce_unique_witness:
  "wn_BuildNonce (replicate 12 1) 0 \<noteq> wn_BuildNonce (replicate 12 1) 1"
  using nonce_unique [of "replicate 12 1" 0 1] by simp

text \<open>
  C12. Protecting a record of at most \<open>2^14\<close> bytes stays inside a buffer of the documented
  size and leaves the bytes behind it alone. It stores the record header, whose length field
  counts the payload and stays below \<open>2^14 + 256\<close>, then the AEAD payload of the content with
  its type byte; when a cryptographic call fails it reports \<open>CRYPTO\<close> and no plaintext is left
  in the buffer.
\<close>

theorem protect_stores_record:
  assumes "gcm_sizes P" and "unat keyLen \<le> length key" and "12 \<le> length iv"
    and "unat contentLen \<le> length content" and "contentLen \<le> WN_MAX_PLAINTEXT"
    and "unat contentLen + 22 \<le> length rec"
  shows "runs (wn_Record_Protect P (Some rec) (Some rl) (Some key) keyLen (Some iv) seq ty (Some content) contentLen)
    (\<lambda>(ret, rec', rl'). drop (unat contentLen + 22) rec' = drop (unat contentLen + 22) rec \<and>
      (if ret = 0 then
         rl' = Some (contentLen + 22) \<and> take 3 rec' = [23, 3, 3] \<and> frag_of rec' = unat contentLen + 17 \<and>
         seal P (take (unat keyLen) key) (nonce_of (take 12 iv) seq) (take 5 rec')
           (take (unat contentLen) content @ [ty]) = Some (take (unat contentLen + 17) (drop 5 rec'))
       else ret = WOLFNANO_E_CRYPTO \<and> take (unat contentLen + 1) (drop 5 rec') = replicate (unat contentLen + 1) 0))"
proof -
  let ?n = "unat contentLen"
  let ?h = "record_header (?n + 17)"
  have n: "?n \<le> 16384" using assms(5) by (simp add: word_le_nat_alt)
  have f: "frag_of (?h @ x) = ?n + 17" for x
    using n by (intro frag_of_header) simp
  have t: "take 3 (?h @ x) = [23, 3, 3]" for x by (simp add: record_header_def)
  show ?thesis
    by (rule runs_mono [OF Protect_spec [OF assms refl refl refl]])
      (use f t in \<open>auto split: option.splits\<close>)
qed

theorem protect_stores_record_witness:
  "runs (wn_Record_Protect demo_wc (Some (replicate 30 9)) (Some 0) (Some (replicate 16 1)) 16 (Some (replicate 12 2))
      0 WN_REC_APPDATA (Some [7, 8]) 2)
    (\<lambda>(ret, rec', rl'). drop 24 rec' = replicate 6 9 \<and>
      (if ret = 0 then
         rl' = Some 24 \<and> take 3 rec' = [23, 3, 3] \<and> frag_of rec' = 19 \<and>
         seal demo_wc (replicate 16 1) (nonce_of (replicate 12 2) 0) (take 5 rec') [7, 8, 23]
           = Some (take 19 (drop 5 rec'))
       else ret = WOLFNANO_E_CRYPTO \<and> take 3 (drop 5 rec') = replicate 3 0))"
proof -
  have "gcm_sizes demo_wc" using demo_gcm by (simp add: gcm_ok_def)
  then show ?thesis
    using protect_stores_record [of demo_wc 16 "replicate 16 1" "replicate 12 2" 2 "[7, 8]" "replicate 30 9" 0 0 23]
    by (simp cong: if_cong)
qed

text \<open>
  C1. Record protection is a faithful channel: any sequence of messages of at most \<open>2^14\<close>
  bytes, protected under consecutive sequence numbers from any start, is opened by a peer that
  holds the same key, IV and sequence number to exactly those messages with their content
  types, in order. (Content type 0 is excluded: it is the padding byte.)
\<close>

theorem records_roundtrip:
  assumes "gcm_ok P" and "length key = 16" and "length iv = 12"
    and "\<forall>(ty, m) \<in> set ms. ty \<noteq> 0 \<and> length m \<le> 16384"
  shows "\<exists>rs. wrap_all (protect P key iv) seq ms = Some rs \<and> length rs = length ms \<and>
    unwrap_all (unprotect P key iv) seq rs = Some ms"
  using chan.in_order [of P key iv ms seq] assms
  by (simp add: channel_ready_def fits_record_def split_beta)

theorem records_roundtrip_witness:
  "\<exists>rs. wrap_all (protect demo_wc (replicate 16 1) (replicate 12 2)) (- 1) [(23, [1, 0]), (21, [1, 0])] = Some rs \<and>
    unwrap_all (unprotect demo_wc (replicate 16 1) (replicate 12 2)) (- 1) rs = Some [(23, [1, 0]), (21, [1, 0])]"
  using records_roundtrip [OF demo_gcm, of "replicate 16 1" "replicate 12 2" "[(23, [1, 0]), (21, [1, 0])]" "- 1"]
  by auto

text \<open>
  C11. Opening a record of at least 22 bytes with an accepted key never leaves the buffers
  and has three outcomes: \<open>BAD_MAC\<close> exactly when AES-GCM rejects the payload under this
  sequence number's nonce and the record's own header, with the caller's length and type
  untouched; \<open>DECODE\<close> when the plaintext is all padding; success with the last non-zero byte
  as the content type and what precedes it as the content.
\<close>

theorem unprotect_outcomes:
  assumes "gcm_sizes P" and "fst (wc_AesInit P) = 0" and "fst (gcm_key P (take (unat keyLen) key)) = 0"
    and "unat keyLen \<le> length key" and "12 \<le> length iv"
    and "unat recLen \<le> length rec" and "22 \<le> recLen" and "unat recLen - 21 \<le> length content"
  shows "runs (wn_Record_Unprotect P (Some content) (Some cl) (Some cty) (Some key) keyLen (Some iv) seq (Some rec) recLen)
    (\<lambda>(ret, content', cl', cty').
      let n = unat recLen - 21;
          op = open_sealed P (take (unat keyLen) key) (nonce_of (take 12 iv) seq) (take 5 rec)
                 (take n (drop 5 rec)) (take 16 (drop (5 + n) rec)) in
      length content' = length content \<and> drop n content' = drop n content \<and>
      (ret = WOLFNANO_E_BAD_MAC \<longleftrightarrow> op = None) \<and>
      (ret = WOLFNANO_E_DECODE \<longleftrightarrow> op = Some (replicate n 0)) \<and>
      (ret \<in> {WOLFNANO_E_BAD_MAC, WOLFNANO_E_DECODE} \<longrightarrow> cl' = Some cl \<and> cty' = Some cty) \<and>
      (ret \<notin> {WOLFNANO_E_BAD_MAC, WOLFNANO_E_DECODE} \<longrightarrow> ret = 0 \<and>
        (\<exists>m ty k. ty \<noteq> 0 \<and> op = Some (m @ [ty] @ replicate k 0) \<and> take (length m) content' = m \<and>
          cl' = Some (word_of_nat (length m)) \<and> cty' = Some ty)))"
proof -
  have nz: "\<not> inner_plaintext (replicate n 0) m ty" for n m ty
  proof
    assume "inner_plaintext (replicate n 0) m ty"
    then obtain k where eq: "replicate n 0 = m @ [ty] @ replicate k 0" and ty: "ty \<noteq> 0"
      by (auto simp: inner_plaintext_def)
    have "ty \<in> set (replicate n 0)" unfolding eq by simp
    then show False using ty by simp
  qed
  have pre: "take (length m) c = m" if "take n c = m @ [ty] @ replicate k 0" for n c m k and ty :: byte
    using that by (rule take_prefix)
  let ?op = "open_sealed P (take (unat keyLen) key) (nonce_of (take 12 iv) seq) (take 5 rec)
      (take (unat recLen - 21) (drop 5 rec)) (take 16 (drop (5 + (unat recLen - 21)) rec))"
  show ?thesis
  proof (rule runs_mono [OF Unprotect_spec [OF assms(1-7) refl assms(8)]], goal_cases)
    case (1 x)
    obtain ret c cl' cty' where x: "x = (ret, c, cl', cty')" by (metis prod.exhaust)
    show ?case
    proof (cases ?op)
      case None
      then show ?thesis using 1 x by (simp add: Let_def)
    next
      case (Some pt)
      show ?thesis
      proof (cases "ret = 0")
        case True
        then obtain m ty where ip: "inner_plaintext pt m ty"
          and out: "cl' = Some (word_of_nat (length m))" "cty' = Some ty"
          using 1 x Some by auto
        have "take (unat recLen - 21) c = pt" using 1 x Some by simp
        then have pc: "take (length m) c = m"
          using ip pre by (auto simp: inner_plaintext_def)
        have "pt \<noteq> replicate (unat recLen - 21) 0"
          using ip nz by blast
        moreover have "\<exists>m ty k. ty \<noteq> 0 \<and> pt = m @ [ty] @ replicate k 0 \<and> take (length m) c = m \<and>
            cl' = Some (word_of_nat (length m)) \<and> cty' = Some ty"
          using ip out pc by (auto simp: inner_plaintext_def)
        ultimately show ?thesis
          using 1 x Some True by (simp add: Let_def)
      next
        case False
        then show ?thesis using 1 x Some by (simp add: Let_def)
      qed
    qed
  qed
qed

theorem unprotect_outcomes_witness:
  "runs (wn_Record_Unprotect demo_wc (Some (replicate 4 0)) (Some 0) (Some 0) (Some (replicate 16 1)) 16
      (Some (replicate 12 2)) 0 (Some ([23, 3, 3, 0, 20] @ [7, 23, 0, 0] @ replicate 16 1)) 25)
    (\<lambda>(ret, content', cl', cty'). ret = 0 \<and> cl' = Some 1 \<and> cty' = Some 23)"
proof -
  have s: "gcm_sizes demo_wc" and i: "fst (wc_AesInit demo_wc) = 0"
    using demo_gcm by (auto simp: gcm_ok_def)
  have k: "fst (gcm_key demo_wc (take (unat (16 :: word32)) (replicate 16 1))) = 0"
    using demo_gcm by (simp add: gcm_ok_def)
  have op: "open_sealed demo_wc (replicate 16 1) n [23, 3, 3, 0, 20] [7, 23, 0, 0] (replicate 16 1) = Some [7, 23, 0, 0]" for n
    by (simp add: open_sealed_def gcm_key_def demo_wc_def pad_def)
  have z: "[7, 23, 0, 0] \<noteq> replicate 4 (0 :: byte)"
  proof
    assume "[7, 23, 0, 0] = replicate 4 (0 :: byte)"
    then have "hd [7, 23, 0, 0] = hd (replicate 4 (0 :: byte))" by (rule arg_cong)
    then show False by simp
  qed
  have u: "[7, 23, 0, 0] = m @ ty # replicate k 0 \<Longrightarrow> ty \<noteq> 0 \<Longrightarrow> m = [7] \<and> ty = 23" for m k and ty :: byte
  proof -
    assume "[7, 23, 0, 0] = m @ ty # replicate k 0" and "ty \<noteq> 0"
    then have "inner_plaintext [7, 23, 0, 0] m ty" by (auto simp: inner_plaintext_def)
    moreover have "inner_plaintext [7, 23, 0, 0] [7] 23"
      unfolding inner_plaintext_def by (intro conjI exI [of _ "2 :: nat"]) (simp, simp add: numeral_2_eq_2)
    ultimately show ?thesis by (rule inner_plaintext_unique)
  qed
  show ?thesis
    by (rule runs_mono [OF unprotect_outcomes [OF s i k]])
      (use op z in \<open>auto simp: Let_def dest: u [rotated]\<close>)
qed

text \<open>
  C14. Reading a record ends and stays inside the buffer: with a callback that keeps its
  contract and a buffer of \<open>cap\<close> bytes (at least 5), nothing behind the capacity is touched,
  and an accepted record has a fragment of 1 to \<open>2^14 + 256\<close> bytes that lies in the buffer, the
  length that its header announces, and, when it is a ChangeCipherSpec, the single byte 1.
\<close>

theorem recv_record_bounds:
  assumes "recv_ok recv" and "5 \<le> unat cap" and "unat cap \<le> length rec"
  shows "runs (wn_RecvRecord recv ctx rec cap ty rl) (\<lambda>(ret, rec', ty', rl', ctx').
    length rec' = length rec \<and> drop (unat cap) rec' = drop (unat cap) rec \<and>
    ret \<in> {0, WOLFNANO_E_CRYPTO, WOLFNANO_E_DECODE} \<and>
    (ret = 0 \<longrightarrow> ty' = rec' ! 0 \<and> 0 < frag_of rec' \<and> frag_of rec' \<le> 16640 \<and>
       unat rl' = frag_of rec' + 5 \<and> unat rl' \<le> unat cap \<and>
       (ty' = WN_REC_CHANGE_CIPHER \<longrightarrow> frag_of rec' = 1 \<and> rec' ! 5 = 1)))"
  using RecvRecord_safe [of recv rec cap ctx ty rl] assms by (simp add: max_def)

theorem recv_record_bounds_witness:
  "runs (wn_RecvRecord demo_recv [20, 3, 3, 0, 1, 1] (replicate 8 0) 8 0 0) (\<lambda>(ret, rec', ty', rl', ctx').
    length rec' = 8 \<and> ret \<in> {0, WOLFNANO_E_CRYPTO, WOLFNANO_E_DECODE} \<and>
    (ret = 0 \<longrightarrow> ty' = rec' ! 0 \<and> unat rl' \<le> 8))"
  by (rule runs_mono [OF recv_record_bounds [OF stream_recv_ok [OF demo_stream]]]) auto

text \<open>
  C15. The framing does not depend on how the transport cuts the stream: when the pending
  bytes start with a record whose fragment fits the buffer and the limit of RFC 8446, and
  which is no ChangeCipherSpec or the valid one, then exactly this record is read, whatever
  the chunks, and the stream continues behind it.
\<close>

theorem recv_record_stream:
  assumes "stream_ok recv pending"
    and "pending ctx = h0 # h1 # h2 # h3 # h4 # body @ rest"
    and "length body = unat h3 * 256 + unat h4" and "body \<noteq> []" and "length body \<le> 16640"
    and "length body + 5 \<le> unat cap" and "unat cap \<le> length rec"
    and "h0 = WN_REC_CHANGE_CIPHER \<longrightarrow> body = [1]"
  shows "\<exists>ctx'. wn_RecvRecord recv ctx rec cap ty rl =
      Some (0, [h0, h1, h2, h3, h4] @ body @ drop (length body + 5) rec, h0, word_of_nat (length body + 5), ctx') \<and>
    pending ctx' = rest"
  using assms by (rule RecvRecord_stream)

theorem recv_record_stream_witness:
  "\<exists>ctx'. wn_RecvRecord demo_recv [23, 3, 3, 0, 2, 8, 9, 5] (replicate 8 1) 8 0 0 =
     Some (0, [23, 3, 3, 0, 2, 8, 9, 1], 23, 7, ctx') \<and> id ctx' = [5]"
  using recv_record_stream [OF demo_stream, of "[23, 3, 3, 0, 2, 8, 9, 5]" 23 3 3 0 2 "[8, 9]" "[5]" 8 "replicate 8 1" 0 0]
  by simp

end

