(* ===== verification/Wn_Msg.thy ===== *)
theory Wn_Msg
  imports Wn_Prelude
begin

text \<open>
  The wire encode/decode primitives of \<open>src/src/wn_msg.c\<close>: a writer and a reader over
  caller-provided buffers with a sticky error flag. All length arithmetic is 32-bit and
  wraps as in C.

  The second half states the two interfaces the message codecs rely on as locales:
  \<open>wire_writer\<close>, with a calculus for sequences of writes under open length-prefixed
  vectors, and \<open>wire_reader\<close>. Both are interpreted on the definitions of this theory.
\<close>

section \<open>The writer\<close>

record wn_Writer =
  w_buf :: bytes
  w_cap :: word32
  w_len :: word32
  w_err :: int

definition wn_Writer_Init :: "bytes \<Rightarrow> word32 \<Rightarrow> wn_Writer" where
  "wn_Writer_Init buf cap = \<lparr>w_buf = buf, w_cap = cap, w_len = 0, w_err = 0\<rparr>"

definition wn_Write_U8 :: "wn_Writer \<Rightarrow> byte \<Rightarrow> wn_Writer option" where
  "wn_Write_U8 w v =
     (if w_err w = 0 \<and> w_len w < w_cap w
      then do {
        b \<leftarrow> mem_set (w_buf w) (unat (w_len w)) v;
        Some (w\<lparr>w_buf := b, w_len := w_len w + 1\<rparr>)
      }
      else Some (w\<lparr>w_err := 1\<rparr>))"

definition wn_Write_U16 :: "wn_Writer \<Rightarrow> word16 \<Rightarrow> wn_Writer option" where
  "wn_Write_U16 w v =
     (if w_err w = 0 \<and> w_len w + 2 \<le> w_cap w
      then do {
        b \<leftarrow> mem_set (w_buf w) (unat (w_len w)) (ucast (drop_bit 8 v));
        b \<leftarrow> mem_set b (unat (w_len w + 1)) (ucast (v AND 0xff));
        Some (w\<lparr>w_buf := b, w_len := w_len w + 2\<rparr>)
      }
      else Some (w\<lparr>w_err := 1\<rparr>))"

definition wn_Write_U24 :: "wn_Writer \<Rightarrow> word32 \<Rightarrow> wn_Writer option" where
  "wn_Write_U24 w v =
     (if w_err w = 0 \<and> w_len w + 3 \<le> w_cap w
      then do {
        b \<leftarrow> mem_set (w_buf w) (unat (w_len w)) (ucast (drop_bit 16 v AND 0xff));
        b \<leftarrow> mem_set b (unat (w_len w + 1)) (ucast (drop_bit 8 v AND 0xff));
        b \<leftarrow> mem_set b (unat (w_len w + 2)) (ucast (v AND 0xff));
        Some (w\<lparr>w_buf := b, w_len := w_len w + 3\<rparr>)
      }
      else Some (w\<lparr>w_err := 1\<rparr>))"

text \<open>The source pointer \<open>p\<close> is \<open>None\<close> for \<open>NULL\<close>, else the memory it addresses.\<close>

definition wn_Write_Bytes :: "wn_Writer \<Rightarrow> bytes option \<Rightarrow> word32 \<Rightarrow> wn_Writer option" where
  "wn_Write_Bytes w p n =
     (if w_err w = 0 \<and> w_len w + n \<le> w_cap w \<and> (p \<noteq> None \<or> n = 0)
      then do {
        b \<leftarrow> (if n \<noteq> 0
              then do { src \<leftarrow> p; d \<leftarrow> mem_read src 0 (unat n); mem_write (w_buf w) (unat (w_len w)) d }
              else Some (w_buf w));
        Some (w\<lparr>w_buf := b, w_len := w_len w + n\<rparr>)
      }
      else Some (w\<lparr>w_err := 1\<rparr>))"

fun write_zeros :: "nat \<Rightarrow> wn_Writer \<Rightarrow> wn_Writer option" where
  "write_zeros 0 w = Some w"
| "write_zeros (Suc k) w = do { w \<leftarrow> wn_Write_U8 w 0; write_zeros k w }"

definition wn_Write_LenStart :: "wn_Writer \<Rightarrow> int \<Rightarrow> (word32 \<times> wn_Writer) option" where
  "wn_Write_LenStart w lenBytes = do {
     w \<leftarrow> write_zeros (nat lenBytes) w;
     Some (w_len w, w)
   }"

text \<open>
  The backfill loop. \<open>k\<close> iterations are left, so the loop index \<open>i\<close> of the source is
  \<open>lenBytes - k\<close> and the shift is \<open>8 * (k - 1)\<close>; a shift by the width of the type or
  more has no defined result in C.
\<close>

fun backfill :: "nat \<Rightarrow> word32 \<Rightarrow> word32 \<Rightarrow> bytes \<Rightarrow> bytes option" where
  "backfill 0 contentLen p b = Some b"
| "backfill (Suc k) contentLen p b =
     (if 32 \<le> 8 * k then None
      else do {
        b \<leftarrow> mem_set b (unat p) (ucast (drop_bit (8 * k) contentLen AND 0xff));
        backfill k contentLen (p + 1) b
      })"

definition wn_Write_LenEnd :: "wn_Writer \<Rightarrow> word32 \<Rightarrow> int \<Rightarrow> wn_Writer option" where
  "wn_Write_LenEnd w offset lenBytes =
     (if w_err w = 0
      then do {
        b \<leftarrow> backfill (nat lenBytes) (w_len w - offset) (offset - word_of_int lenBytes) (w_buf w);
        Some (w\<lparr>w_buf := b\<rparr>)
      }
      else Some w)"

section \<open>The reader\<close>

record wn_Reader =
  r_buf :: bytes
  r_len :: word32
  r_pos :: word32
  r_err :: int

definition wn_Reader_Init :: "bytes \<Rightarrow> word32 \<Rightarrow> wn_Reader" where
  "wn_Reader_Init buf len = \<lparr>r_buf = buf, r_len = len, r_pos = 0, r_err = 0\<rparr>"

definition wn_Read_U8 :: "wn_Reader \<Rightarrow> (byte \<times> wn_Reader) option" where
  "wn_Read_U8 r =
     (if r_err r = 0 \<and> r_pos r < r_len r
      then do {
        v \<leftarrow> mem_get (r_buf r) (unat (r_pos r));
        Some (v, r\<lparr>r_pos := r_pos r + 1\<rparr>)
      }
      else Some (0, r\<lparr>r_err := 1\<rparr>))"

definition wn_Read_U16 :: "wn_Reader \<Rightarrow> (word16 \<times> wn_Reader) option" where
  "wn_Read_U16 r =
     (if r_err r = 0 \<and> r_pos r + 2 \<le> r_len r
      then do {
        hi \<leftarrow> mem_get (r_buf r) (unat (r_pos r));
        lo \<leftarrow> mem_get (r_buf r) (unat (r_pos r + 1));
        Some (push_bit 8 (ucast hi) OR ucast lo, r\<lparr>r_pos := r_pos r + 2\<rparr>)
      }
      else Some (0, r\<lparr>r_err := 1\<rparr>))"

definition wn_Read_U24 :: "wn_Reader \<Rightarrow> (word32 \<times> wn_Reader) option" where
  "wn_Read_U24 r =
     (if r_err r = 0 \<and> r_pos r + 3 \<le> r_len r
      then do {
        b0 \<leftarrow> mem_get (r_buf r) (unat (r_pos r));
        b1 \<leftarrow> mem_get (r_buf r) (unat (r_pos r + 1));
        b2 \<leftarrow> mem_get (r_buf r) (unat (r_pos r + 2));
        Some (push_bit 16 (ucast b0) OR push_bit 8 (ucast b1) OR ucast b2, r\<lparr>r_pos := r_pos r + 3\<rparr>)
      }
      else Some (0, r\<lparr>r_err := 1\<rparr>))"

text \<open>A returned pointer is its offset into the reader's buffer, \<open>None\<close> for \<open>NULL\<close>.\<close>

definition wn_Read_Bytes :: "wn_Reader \<Rightarrow> word32 \<Rightarrow> word32 option \<times> wn_Reader" where
  "wn_Read_Bytes r n =
     (if r_err r = 0 \<and> r_pos r + n \<le> r_len r
      then (Some (r_pos r), r\<lparr>r_pos := r_pos r + n\<rparr>)
      else (None, r\<lparr>r_err := 1\<rparr>))"

section \<open>What the writer and the reader hold\<close>

text \<open>
  A writer is well formed when its capacity is backed by memory and leaves the 32-bit
  sums of the fixed-width writes room not to wrap; a reader likewise.
\<close>

definition wf_writer :: "wn_Writer \<Rightarrow> bool" where
  "wf_writer w \<longleftrightarrow> unat (w_cap w) \<le> length (w_buf w) \<and> w_len w \<le> w_cap w \<and> unat (w_cap w) + 3 < 2 ^ 32"

definition w_content :: "wn_Writer \<Rightarrow> bytes" where
  "w_content w = take (unat (w_len w)) (w_buf w)"

definition w_room :: "wn_Writer \<Rightarrow> nat" where
  "w_room w = unat (w_cap w)"

definition w_failed :: "wn_Writer \<Rightarrow> bool" where
  "w_failed w \<longleftrightarrow> w_err w \<noteq> 0"

definition wf_reader :: "wn_Reader \<Rightarrow> bool" where
  "wf_reader r \<longleftrightarrow> unat (r_len r) \<le> length (r_buf r) \<and> r_pos r \<le> r_len r \<and> unat (r_len r) + 3 < 2 ^ 32"

definition r_src :: "wn_Reader \<Rightarrow> bytes" where
  "r_src r = take (unat (r_len r)) (r_buf r)"

definition r_at :: "wn_Reader \<Rightarrow> nat" where
  "r_at r = unat (r_pos r)"

definition r_failed :: "wn_Reader \<Rightarrow> bool" where
  "r_failed r \<longleftrightarrow> r_err r \<noteq> 0"

text \<open>\<open>appended\<close>: the operation wrote exactly \<open>bs\<close> after the old content, or latched the error.\<close>

definition appended ::
  "('w \<Rightarrow> bool) \<Rightarrow> ('w \<Rightarrow> bytes) \<Rightarrow> ('w \<Rightarrow> nat) \<Rightarrow> ('w \<Rightarrow> bool) \<Rightarrow> 'w \<Rightarrow> bytes \<Rightarrow> 'w \<Rightarrow> bool" where
  "appended ok content room failed w bs w' \<longleftrightarrow>
     ok w' \<and> room w' = room w \<and>
     (failed w' \<longleftrightarrow> failed w \<or> room w < length (content w) + length bs) \<and>
     (\<not> failed w' \<longrightarrow> content w' = content w @ bs)"

text \<open>
  \<open>took\<close>: the operation consumed exactly \<open>k\<close> bytes of the source, or latched the error and
  consumed nothing.
\<close>

definition took ::
  "('r \<Rightarrow> bool) \<Rightarrow> ('r \<Rightarrow> bytes) \<Rightarrow> ('r \<Rightarrow> nat) \<Rightarrow> ('r \<Rightarrow> bool) \<Rightarrow> 'r \<Rightarrow> nat \<Rightarrow> 'r \<Rightarrow> bool" where
  "took ok src at failed r k r' \<longleftrightarrow>
     ok r' \<and> src r' = src r \<and>
     (failed r' \<longleftrightarrow> failed r \<or> length (src r) < at r + k) \<and>
     at r' = (if failed r' then at r else at r + k)"

text \<open>
  Open length-prefixed vectors, innermost first: what the enclosing vector held when the
  inner one was opened, the width of the length field, and the offset that
  \<open>wn_Write_LenStart\<close> returned for it.
\<close>

type_synonym frame = "bytes \<times> nat \<times> word32"

fun frames_prefix :: "frame list \<Rightarrow> bytes" where
  "frames_prefix [] = []"
| "frames_prefix ((c, n, off) # fs) = frames_prefix fs @ c @ replicate n 0"

fun frames_ok :: "frame list \<Rightarrow> bool" where
  "frames_ok [] = True"
| "frames_ok ((c, n, off) # fs) =
     (unat off = length (frames_prefix ((c, n, off) # fs)) \<and> frames_ok fs)"

text \<open>
  A message of the presentation language (RFC 8446, section 3), its encoding, and the
  sequence of writer calls that emits it: a vector is opened with \<open>wn_Write_LenStart\<close>,
  filled, and closed with \<open>wn_Write_LenEnd\<close>. As in the code, only the low bytes of a length that
  does not fit its field are stored.
\<close>

datatype wire = WU8 byte | WU16 word16 | WU24 word32 | WBytes bytes | WVec nat "wire list"

fun encode :: "wire \<Rightarrow> bytes" and encodes :: "wire list \<Rightarrow> bytes" where
  "encode (WU8 v) = [v]"
| "encode (WU16 v) = be_bytes 2 (unat v)"
| "encode (WU24 v) = be_bytes 3 (unat v)"
| "encode (WBytes bs) = bs"
| "encode (WVec n ms) = be_bytes n (length (encodes ms)) @ encodes ms"
| "encodes [] = []"
| "encodes (m # ms) = encode m @ encodes ms"

fun emit :: "wire \<Rightarrow> wn_Writer \<Rightarrow> wn_Writer option" and emits :: "wire list \<Rightarrow> wn_Writer \<Rightarrow> wn_Writer option" where
  "emit (WU8 v) w = wn_Write_U8 w v"
| "emit (WU16 v) w = wn_Write_U16 w v"
| "emit (WU24 v) w = wn_Write_U24 w v"
| "emit (WBytes bs) w = wn_Write_Bytes w (Some bs) (word_of_nat (length bs))"
| "emit (WVec n ms) w = do {
     (off, w) \<leftarrow> wn_Write_LenStart w (int n);
     w \<leftarrow> emits ms w;
     wn_Write_LenEnd w off (int n)
   }"
| "emits [] w = Some w"
| "emits (m # ms) w = do { w \<leftarrow> emit m w; emits ms w }"

text \<open>Every byte string of the message keeps the 32-bit sums below \<open>2 ^ 32\<close>; lengths are at most 4 bytes wide.\<close>

fun wire_ok :: "nat \<Rightarrow> wire \<Rightarrow> bool" and wires_ok :: "nat \<Rightarrow> wire list \<Rightarrow> bool" where
  "wire_ok cap (WU8 v) = True"
| "wire_ok cap (WU16 v) = True"
| "wire_ok cap (WU24 v) = True"
| "wire_ok cap (WBytes bs) = (cap + length bs < 2 ^ 32)"
| "wire_ok cap (WVec n ms) = (n \<le> 4 \<and> wires_ok cap ms)"
| "wires_ok cap [] = True"
| "wires_ok cap (m # ms) = (wire_ok cap m \<and> wires_ok cap ms)"

section \<open>The writer's interface\<close>

locale wire_writer =
  fixes ok :: "'w \<Rightarrow> bool"
    and content :: "'w \<Rightarrow> bytes"
    and room :: "'w \<Rightarrow> nat"
    and failed :: "'w \<Rightarrow> bool"
    and u8 :: "'w \<Rightarrow> byte \<Rightarrow> 'w option"
    and u16 :: "'w \<Rightarrow> word16 \<Rightarrow> 'w option"
    and u24 :: "'w \<Rightarrow> word32 \<Rightarrow> 'w option"
    and raw :: "'w \<Rightarrow> bytes option \<Rightarrow> word32 \<Rightarrow> 'w option"
    and len_start :: "'w \<Rightarrow> int \<Rightarrow> (word32 \<times> 'w) option"
    and len_end :: "'w \<Rightarrow> word32 \<Rightarrow> int \<Rightarrow> 'w option"
  assumes content_fits: "ok w \<Longrightarrow> length (content w) \<le> room w"
    and u8_law: "ok w \<Longrightarrow> runs (u8 w v8) (appended ok content room failed w [v8])"
    and u16_law: "ok w \<Longrightarrow> runs (u16 w v16) (appended ok content room failed w (be_bytes 2 (unat v16)))"
    and u24_law: "ok w \<Longrightarrow> runs (u24 w v24) (appended ok content room failed w (be_bytes 3 (unat v24)))"
    and raw_law: "ok w \<Longrightarrow> unat n \<le> length src \<Longrightarrow> room w + unat n < 2 ^ 32 \<Longrightarrow>
      runs (raw w (Some src) n) (appended ok content room failed w (take (unat n) src))"
    and len_start_law: "ok w \<Longrightarrow> runs (len_start w (int k)) (\<lambda>(off, w').
      appended ok content room failed w (replicate k 0) w' \<and>
      (\<not> failed w' \<longrightarrow> unat off = length (content w')))"
    and len_end_law: "ok w \<Longrightarrow> \<not> failed w \<Longrightarrow> k \<le> 4 \<Longrightarrow> content w = a @ z @ b \<Longrightarrow>
      length z = k \<Longrightarrow> unat off = length a + k \<Longrightarrow>
      runs (len_end w off (int k)) (\<lambda>w'. ok w' \<and> room w' = room w \<and> \<not> failed w' \<and>
        content w' = a @ be_bytes k (length b) @ b)"
    and len_end_failed: "failed w \<Longrightarrow> len_end w off nb = Some w"
begin

text \<open>
  \<open>holds w cap fs b\<close>: under the open vectors \<open>fs\<close> the innermost one has received \<open>b\<close>. The
  writer has failed exactly when all that was to be written does not fit \<open>cap\<close>.
\<close>

definition holds :: "'w \<Rightarrow> nat \<Rightarrow> frame list \<Rightarrow> bytes \<Rightarrow> bool" where
  "holds w cap fs b \<longleftrightarrow>
     ok w \<and> room w = cap \<and>
     (failed w \<longleftrightarrow> cap < length (frames_prefix fs @ b)) \<and>
     (\<not> failed w \<longrightarrow> content w = frames_prefix fs @ b \<and> frames_ok fs)"

lemma holds_appended:
  assumes "holds w cap fs b" and "appended ok content room failed w bs w'"
  shows "holds w' cap fs (b @ bs)"
  using assms unfolding holds_def appended_def by (cases "failed w") auto

lemma u8_step:
  assumes "holds w cap fs b" and "\<And>w'. holds w' cap fs (b @ [v]) \<Longrightarrow> runs (k w') Q"
  shows "runs (u8 w v \<bind> k) Q"
proof -
  have "ok w" using assms(1) by (simp add: holds_def)
  from u8_law [OF this, of v] show ?thesis
    unfolding runs_bind by (rule runs_mono) (blast intro: assms holds_appended)
qed

lemma u16_step:
  assumes "holds w cap fs b" and "\<And>w'. holds w' cap fs (b @ be_bytes 2 (unat v)) \<Longrightarrow> runs (k w') Q"
  shows "runs (u16 w v \<bind> k) Q"
proof -
  have "ok w" using assms(1) by (simp add: holds_def)
  from u16_law [OF this, of v] show ?thesis
    unfolding runs_bind by (rule runs_mono) (blast intro: assms holds_appended)
qed

lemma u24_step:
  assumes "holds w cap fs b" and "\<And>w'. holds w' cap fs (b @ be_bytes 3 (unat v)) \<Longrightarrow> runs (k w') Q"
  shows "runs (u24 w v \<bind> k) Q"
proof -
  have "ok w" using assms(1) by (simp add: holds_def)
  from u24_law [OF this, of v] show ?thesis
    unfolding runs_bind by (rule runs_mono) (blast intro: assms holds_appended)
qed

lemma raw_step:
  assumes "holds w cap fs b" and "unat n \<le> length src" and "cap + unat n < 2 ^ 32"
    and "\<And>w'. holds w' cap fs (b @ take (unat n) src) \<Longrightarrow> runs (k w') Q"
  shows "runs (raw w (Some src) n \<bind> k) Q"
proof -
  have "ok w" and "room w = cap" using assms(1) by (simp_all add: holds_def)
  from raw_law [OF \<open>ok w\<close> assms(2)] assms(3) \<open>room w = cap\<close> show ?thesis
    unfolding runs_bind by (auto elim!: runs_mono intro: assms(1,4) holds_appended)
qed

lemma len_start_step:
  assumes "holds w cap fs b"
    and "\<And>off w'. holds w' cap ((b, n, off) # fs) [] \<Longrightarrow> runs (k (off, w')) Q"
  shows "runs (len_start w (int n) \<bind> k) Q"
proof -
  have ok: "ok w" using assms(1) by (simp add: holds_def)
  have *: "holds w' cap ((b, n, off) # fs) []"
    if "appended ok content room failed w (replicate n 0) w'"
      and "\<not> failed w' \<longrightarrow> unat off = length (content w')" for off w'
    using assms(1) that unfolding holds_def appended_def by (cases "failed w") auto
  from len_start_law [OF ok, of n] show ?thesis
    unfolding runs_bind by (rule runs_mono) (auto intro: assms(2) *)
qed

lemma len_end_step:
  assumes "holds w cap ((c, n, off) # fs) b" and "n \<le> 4"
    and "\<And>w'. holds w' cap fs (c @ be_bytes n (length b) @ b) \<Longrightarrow> runs (k w') Q"
  shows "runs (len_end w off (int n) \<bind> k) Q"
proof (cases "failed w")
  case True
  with assms(1) have "holds w cap fs (c @ be_bytes n (length b) @ b)"
    unfolding holds_def by simp
  with assms(3) True show ?thesis by (simp add: len_end_failed)
next
  case False
  with assms(1) have c: "content w = (frames_prefix fs @ c) @ replicate n 0 @ b"
    and o: "unat off = length (frames_prefix fs @ c) + n" and "ok w"
    unfolding holds_def by simp_all
  have *: "holds w' cap fs (c @ be_bytes n (length b) @ b)"
    if "ok w' \<and> room w' = room w \<and> \<not> failed w' \<and>
      content w' = (frames_prefix fs @ c) @ be_bytes n (length b) @ b" for w'
    using that assms(1) False unfolding holds_def by auto
  have z: "length (replicate n (0 :: byte)) = n" by simp
  from len_end_law [OF \<open>ok w\<close> False assms(2) c z o] show ?thesis
    unfolding runs_bind by (rule runs_mono) (rule assms(3), rule *)
qed

lemma return_step: "holds w cap fs b \<Longrightarrow> (holds w cap fs b \<Longrightarrow> Q w) \<Longrightarrow> runs (Some w) Q"
  by simp

lemma holds_empty: "ok w \<Longrightarrow> \<not> failed w \<Longrightarrow> content w = [] \<Longrightarrow> holds w (room w) [] []"
  by (simp add: holds_def)

lemma holds_done:
  "holds w cap [] b \<Longrightarrow>
   ok w \<and> room w = cap \<and> (failed w \<longleftrightarrow> cap < length b) \<and> (\<not> failed w \<longrightarrow> content w = b)"
  by (simp add: holds_def)

lemma holds_wf: "holds w cap fs b \<Longrightarrow> ok w"
  by (simp add: holds_def)

lemmas steps = u8_step u16_step u24_step raw_step len_start_step len_end_step

end

section \<open>The writer implements its interface\<close>

lemmas writer_obs = wf_writer_def w_content_def w_room_def w_failed_def

lemma be_bytes_U16: "[ucast (drop_bit 8 v), ucast (v AND 0xff)] = be_bytes 2 (unat (v :: word16))"
  by (simp add: be_bytes_2 byte_of_simps)

lemma be_bytes_U24:
  "[ucast (drop_bit 16 v AND 0xff), ucast (drop_bit 8 v AND 0xff), ucast (v AND 0xff)] =
   be_bytes 3 (unat (v :: word32))"
  by (simp add: be_bytes_3 byte_of_simps)

lemma take_list_update_snoc: "n < length b \<Longrightarrow> take (Suc n) (b[n := v]) = take n b @ [v]"
  by (simp add: take_Suc_conv_app_nth)

lemmas no_wrap = word_less_nat_alt word_le_nat_alt unat_add_no_wrap

lemma write_U8_law:
  "wf_writer w \<Longrightarrow> runs (wn_Write_U8 w v) (appended wf_writer w_content w_room w_failed w [v])"
  unfolding wn_Write_U8_def appended_def writer_obs
  by (auto simp: mem_simps no_wrap take_list_update_snoc)

lemma take_list_update_2:
  "Suc (Suc n) \<le> length b \<Longrightarrow> take (Suc (Suc n)) (b[n := x, Suc n := y]) = take n b @ [x, y]"
  using take_list_update_snoc [of "Suc n" "b[n := x]" y] take_list_update_snoc [of n b x] by simp

lemma take_list_update_3:
  "n + 3 \<le> length b \<Longrightarrow>
   take (n + 3) (b[n := x, Suc n := y, Suc (Suc n) := z]) = take n b @ [x, y, z]"
  using take_list_update_snoc [of "Suc (Suc n)" "b[n := x, Suc n := y]" z] take_list_update_2 [of n b x y]
  by (simp add: numeral_3_eq_3)

lemma write_U16_law:
  "wf_writer w \<Longrightarrow>
   runs (wn_Write_U16 w v) (appended wf_writer w_content w_room w_failed w (be_bytes 2 (unat v)))"
  unfolding wn_Write_U16_def appended_def writer_obs be_bytes_U16 [symmetric]
  by (auto simp: mem_simps no_wrap take_list_update_2)

lemma write_U24_law:
  "wf_writer w \<Longrightarrow>
   runs (wn_Write_U24 w v) (appended wf_writer w_content w_room w_failed w (be_bytes 3 (unat v)))"
  unfolding wn_Write_U24_def appended_def writer_obs be_bytes_U24 [symmetric]
  by (auto simp: mem_simps no_wrap take_list_update_3)

lemma write_Bytes_law:
  "wf_writer w \<Longrightarrow> unat n \<le> length src \<Longrightarrow> w_room w + unat n < 2 ^ 32 \<Longrightarrow>
   runs (wn_Write_Bytes w (Some src) n)
     (appended wf_writer w_content w_room w_failed w (take (unat n) src))"
  unfolding wn_Write_Bytes_def appended_def writer_obs
  by (auto simp: mem_simps no_wrap unat_eq_zero)

lemma write_zeros_law:
  "wf_writer w \<Longrightarrow>
   runs (write_zeros k w) (appended wf_writer w_content w_room w_failed w (replicate k 0))"
proof (induction k arbitrary: w)
  case 0
  then show ?case by (auto simp: appended_def writer_obs word_le_nat_alt)
next
  case (Suc k)
  have "runs (write_zeros k w') (appended wf_writer w_content w_room w_failed w (0 # replicate k 0))"
    if "appended wf_writer w_content w_room w_failed w [0] w'" for w'
  proof -
    have "wf_writer w'" using that by (simp add: appended_def)
    from Suc.IH [OF this] show ?thesis
      by (rule runs_mono) (use that in \<open>auto simp: appended_def\<close>)
  qed
  with write_U8_law [OF Suc.prems, of 0] show ?case
    by (auto simp: runs_bind elim: runs_mono)
qed

lemma write_LenStart_law:
  assumes "wf_writer w"
  shows "runs (wn_Write_LenStart w (int k)) (\<lambda>(off, w').
    appended wf_writer w_content w_room w_failed w (replicate k 0) w' \<and>
    (\<not> w_failed w' \<longrightarrow> unat off = length (w_content w')))"
  using write_zeros_law [OF assms, of k] unfolding wn_Write_LenStart_def runs_bind
  by (auto elim!: runs_mono simp: appended_def writer_obs word_le_nat_alt)

lemma backfill_eq:
  "k \<le> 4 \<Longrightarrow> unat p + k \<le> length b \<Longrightarrow> unat p + k < 2 ^ 32 \<Longrightarrow>
   backfill k c p b = Some (take (unat p) b @ be_bytes k (unat c) @ drop (unat p + k) b)"
proof (induction k arbitrary: p b)
  case (Suc k)
  have p1: "unat (p + 1) = unat p + 1"
    using Suc.prems by (simp add: unat_add_no_wrap)
  have v: "(ucast (drop_bit (8 * k) c AND 0xff) :: byte) = word_of_nat (unat c div 256 ^ k)"
    by (simp add: byte_of_simps power_mult)
  from Suc.prems Suc.IH [of "p + 1" "b[unat p := word_of_nat (unat c div 256 ^ k)]"] show ?case
    by (simp add: mem_simps v p1 take_list_update_snoc)
qed simp

lemma write_LenEnd_law:
  assumes "wf_writer w" and "\<not> w_failed w" and "k \<le> 4" and "w_content w = a @ z @ b"
    and "length z = k" and "unat off = length a + k"
  shows "runs (wn_Write_LenEnd w off (int k)) (\<lambda>w'. wf_writer w' \<and> w_room w' = w_room w \<and>
    \<not> w_failed w' \<and> w_content w' = a @ be_bytes k (length b) @ b)"
proof -
  let ?n = "unat (w_len w)"
  have n: "?n \<le> length (w_buf w)" and n2: "?n < 2 ^ 32"
    using assms(1) by (auto simp: writer_obs word_le_nat_alt)
  have buf: "w_buf w = a @ z @ b @ drop ?n (w_buf w)"
    using assms(4) append_take_drop_id [of ?n "w_buf w"] by (simp add: w_content_def)
  have len: "?n = length a + k + length b"
    using arg_cong [OF assms(4), of length] n assms(5) by (simp add: w_content_def)
  have off: "unat (off - word_of_nat k) = length a"
    using assms(6) assms(3) by (simp add: unat_sub_no_wrap word_le_nat_alt unat_of_nat)
  have cl: "unat (w_len w - off) = length b"
    using assms(6) len by (simp add: unat_sub_no_wrap word_le_nat_alt)
  have "backfill k (w_len w - off) (off - word_of_nat k) (w_buf w) =
      Some (take (length a) (w_buf w) @ be_bytes k (length b) @ drop (length a + k) (w_buf w))"
    using backfill_eq [of k "off - word_of_nat k" "w_buf w" "w_len w - off"] assms(3) n n2 len
    by (simp add: off cl)
  also have "take (length a) (w_buf w) = a"
    by (subst buf) simp
  also have "drop (length a + k) (w_buf w) = b @ drop ?n (w_buf w)"
    by (subst buf) (simp add: assms(5))
  finally show ?thesis
    using assms(1,2) n len unfolding wn_Write_LenEnd_def writer_obs
    by (auto simp: word_le_nat_alt)
qed

interpretation wtr: wire_writer wf_writer w_content w_room w_failed
  wn_Write_U8 wn_Write_U16 wn_Write_U24 wn_Write_Bytes wn_Write_LenStart wn_Write_LenEnd
proof
  show "length (w_content w) \<le> w_room w" if "wf_writer w" for w
    using that by (auto simp: writer_obs word_le_nat_alt)
  show "wn_Write_LenEnd w off n = Some w" if "w_failed w" for w off n
    using that by (simp add: wn_Write_LenEnd_def w_failed_def)
qed (fact write_U8_law write_U16_law write_U24_law write_Bytes_law write_LenStart_law write_LenEnd_law)+

section \<open>The reader's interface\<close>

locale wire_reader =
  fixes ok :: "'r \<Rightarrow> bool"
    and src :: "'r \<Rightarrow> bytes"
    and at :: "'r \<Rightarrow> nat"
    and failed :: "'r \<Rightarrow> bool"
    and u8 :: "'r \<Rightarrow> (byte \<times> 'r) option"
    and u16 :: "'r \<Rightarrow> (word16 \<times> 'r) option"
    and u24 :: "'r \<Rightarrow> (word32 \<times> 'r) option"
    and raw :: "'r \<Rightarrow> word32 \<Rightarrow> word32 option \<times> 'r"
  assumes at_bound: "ok r \<Longrightarrow> at r \<le> length (src r)"
    and u8_law: "ok r \<Longrightarrow> runs (u8 r) (\<lambda>(v, r'). took ok src at failed r 1 r' \<and>
      v = (if failed r' then 0 else src r ! at r))"
    and u16_law: "ok r \<Longrightarrow> runs (u16 r) (\<lambda>(v, r'). took ok src at failed r 2 r' \<and>
      unat v = (if failed r' then 0 else be_val (take 2 (drop (at r) (src r)))))"
    and u24_law: "ok r \<Longrightarrow> runs (u24 r) (\<lambda>(v, r'). took ok src at failed r 3 r' \<and>
      unat v = (if failed r' then 0 else be_val (take 3 (drop (at r) (src r)))))"
    and raw_law: "ok r \<Longrightarrow> length (src r) + unat n < 2 ^ 32 \<Longrightarrow>
      took ok src at failed r (unat n) (snd (raw r n)) \<and>
      map_option unat (fst (raw r n)) = (if failed (snd (raw r n)) then None else Some (at r))"
begin

lemma u8_step:
  assumes "ok r"
    and "\<And>v r'. took ok src at failed r 1 r' \<Longrightarrow> v = (if failed r' then 0 else src r ! at r) \<Longrightarrow>
      runs (k (v, r')) Q"
  shows "runs (u8 r \<bind> k) Q"
  using u8_law [OF assms(1)] unfolding runs_bind by (rule runs_mono) (auto intro: assms(2))

lemma u16_step:
  assumes "ok r"
    and "\<And>v r'. took ok src at failed r 2 r' \<Longrightarrow>
      unat v = (if failed r' then 0 else be_val (take 2 (drop (at r) (src r)))) \<Longrightarrow> runs (k (v, r')) Q"
  shows "runs (u16 r \<bind> k) Q"
  using u16_law [OF assms(1)] unfolding runs_bind by (rule runs_mono) (auto intro: assms(2))

lemma u24_step:
  assumes "ok r"
    and "\<And>v r'. took ok src at failed r 3 r' \<Longrightarrow>
      unat v = (if failed r' then 0 else be_val (take 3 (drop (at r) (src r)))) \<Longrightarrow> runs (k (v, r')) Q"
  shows "runs (u24 r \<bind> k) Q"
  using u24_law [OF assms(1)] unfolding runs_bind by (rule runs_mono) (auto intro: assms(2))

lemma raw_step:
  assumes "ok r" and "length (src r) + unat n < 2 ^ 32"
    and "\<And>p r'. took ok src at failed r (unat n) r' \<Longrightarrow>
      map_option unat p = (if failed r' then None else Some (at r)) \<Longrightarrow> runs (k (p, r')) Q"
  shows "runs (k (raw r n)) Q"
  using raw_law [OF assms(1,2)] assms(3) [of "snd (raw r n)" "fst (raw r n)"] by simp

text \<open>\<open>expects r d xs\<close>: the reader has consumed \<open>d\<close> without an error and \<open>xs\<close> is ahead.\<close>

definition expects :: "'r \<Rightarrow> bytes \<Rightarrow> bytes \<Rightarrow> bool" where
  "expects r d xs \<longleftrightarrow> ok r \<and> \<not> failed r \<and> src r = d @ xs \<and> at r = length d"

lemma expects_took:
  "expects r d (bs @ xs) \<Longrightarrow> took ok src at failed r (length bs) r' \<Longrightarrow> expects r' (d @ bs) xs"
  by (auto simp: expects_def took_def)

lemma u8_expect:
  assumes "expects r d (b # xs)" and "\<And>r'. expects r' (d @ [b]) xs \<Longrightarrow> runs (k (b, r')) Q"
  shows "runs (u8 r \<bind> k) Q"
proof (rule u8_step)
  show "ok r" using assms(1) by (simp add: expects_def)
  fix v r'
  assume t: "took ok src at failed r 1 r'" and v: "v = (if failed r' then 0 else src r ! at r)"
  from assms(1) t have e: "expects r' (d @ [b]) xs"
    using expects_took [of r d "[b]" xs r'] by simp
  moreover have "v = b"
    using assms(1) e v by (simp add: expects_def nth_append)
  ultimately show "runs (k (v, r')) Q" using assms(2) by simp
qed

lemma u16_expect:
  assumes "expects r d (be_bytes 2 (unat v) @ xs)"
    and "\<And>r'. expects r' (d @ be_bytes 2 (unat v)) xs \<Longrightarrow> runs (k (v, r')) Q"
  shows "runs (u16 r \<bind> k) Q"
proof (rule u16_step)
  show "ok r" using assms(1) by (simp add: expects_def)
  fix v' :: word16 and r'
  assume t: "took ok src at failed r 2 r'"
    and v: "unat v' = (if failed r' then 0 else be_val (take 2 (drop (at r) (src r))))"
  from assms(1) t have e: "expects r' (d @ be_bytes 2 (unat v)) xs"
    using expects_took [of r d "be_bytes 2 (unat v)" xs r'] by simp
  moreover have "unat v' = unat v mod 256 ^ 2"
    using assms(1) e v by (simp add: expects_def be_val_be_bytes)
  then have "v' = v"
    by (simp add: word_unat_eq_iff)
  ultimately show "runs (k (v', r')) Q" using assms(2) by simp
qed

lemma u24_expect:
  assumes "expects r d (be_bytes 3 (unat v) @ xs)" and "unat v < 2 ^ 24"
    and "\<And>r'. expects r' (d @ be_bytes 3 (unat v)) xs \<Longrightarrow> runs (k (v, r')) Q"
  shows "runs (u24 r \<bind> k) Q"
proof (rule u24_step)
  show "ok r" using assms(1) by (simp add: expects_def)
  fix v' :: word32 and r'
  assume t: "took ok src at failed r 3 r'"
    and v: "unat v' = (if failed r' then 0 else be_val (take 3 (drop (at r) (src r))))"
  from assms(1) t have e: "expects r' (d @ be_bytes 3 (unat v)) xs"
    using expects_took [of r d "be_bytes 3 (unat v)" xs r'] by simp
  moreover have "unat v' = unat v mod 256 ^ 3"
    using assms(1) e v by (simp add: expects_def be_val_be_bytes)
  then have "v' = v"
    using assms(2) by (simp add: word_unat_eq_iff)
  ultimately show "runs (k (v', r')) Q" using assms(3) by simp
qed

lemma raw_expect:
  assumes "expects r d (bs @ xs)" and "unat n = length bs" and "length (d @ bs @ xs) + length bs < 2 ^ 32"
    and "\<And>p r'. expects r' (d @ bs) xs \<Longrightarrow> unat p = length d \<Longrightarrow> runs (k (Some p, r')) Q"
  shows "runs (k (raw r n)) Q"
proof (rule raw_step)
  show "ok r" and "length (src r) + unat n < 2 ^ 32"
    using assms(1-3) by (simp_all add: expects_def)
  fix p :: "word32 option" and r'
  assume t: "took ok src at failed r (unat n) r'"
    and p: "map_option unat p = (if failed r' then None else Some (at r))"
  from assms(1,2) t have e: "expects r' (d @ bs) xs"
    using expects_took [of r d bs xs r'] by simp
  moreover obtain q where "p = Some q" and "unat q = length d"
    using p e assms(1) by (auto simp: expects_def)
  ultimately show "runs (k (p, r')) Q" using assms(4) by simp
qed

text \<open>
  \<open>got r S d\<close>: the reader works on \<open>S\<close> and, unless it has failed, has consumed exactly \<open>d\<close>.
  It is what a parser knows without assuming anything of its input.
\<close>

definition got :: "'r \<Rightarrow> bytes \<Rightarrow> bytes \<Rightarrow> bool" where
  "got r S d \<longleftrightarrow> ok r \<and> src r = S \<and> (\<not> failed r \<longrightarrow> take (at r) S = d \<and> at r = length d)"

lemma got_prefix: "got r S d \<Longrightarrow> \<not> failed r \<Longrightarrow> length d \<le> length S \<and> S = d @ drop (length d) S"
  using at_bound [of r] by (auto simp: got_def)

lemma got_took:
  assumes "got r S d" and "took ok src at failed r n r'"
  shows "got r' S (d @ take n (drop (length d) S)) \<and> (failed r \<longrightarrow> failed r') \<and>
    (\<not> failed r \<longrightarrow> (failed r' \<longleftrightarrow> length S < length d + n))"
  using assms by (auto simp: got_def took_def take_add)

lemma u8_got:
  assumes "got r S d"
    and "\<And>v r'. got r' S (d @ [v]) \<Longrightarrow> (failed r \<longrightarrow> failed r') \<Longrightarrow>
      (\<not> failed r \<longrightarrow> (failed r' \<longleftrightarrow> length S < length d + 1)) \<Longrightarrow> runs (k (v, r')) Q"
  shows "runs (u8 r \<bind> k) Q"
proof (rule u8_step)
  show "ok r" using assms(1) by (simp add: got_def)
  fix v r'
  assume t: "took ok src at failed r 1 r'" and v: "v = (if failed r' then 0 else src r ! at r)"
  note g = got_took [OF assms(1) t]
  show "runs (k (v, r')) Q"
  proof (rule assms(2))
    have "take 1 (drop (length d) S) = [v]" if "\<not> failed r'"
      using g v that assms(1) by (auto simp: got_def take_Suc_conv_app_nth)
    then show "got r' S (d @ [v])" using g by (auto simp: got_def)
  qed (use g in simp_all)
qed

lemma u16_got:
  assumes "got r S d"
    and "\<And>v r'. got r' S (d @ be_bytes 2 (unat v)) \<Longrightarrow> (failed r \<longrightarrow> failed r') \<Longrightarrow>
      (\<not> failed r \<longrightarrow> (failed r' \<longleftrightarrow> length S < length d + 2)) \<Longrightarrow> runs (k (v, r')) Q"
  shows "runs (u16 r \<bind> k) Q"
proof (rule u16_step)
  show "ok r" using assms(1) by (simp add: got_def)
  fix v :: word16 and r'
  assume t: "took ok src at failed r 2 r'"
    and v: "unat v = (if failed r' then 0 else be_val (take 2 (drop (at r) (src r))))"
  note g = got_took [OF assms(1) t]
  show "runs (k (v, r')) Q"
  proof (rule assms(2))
    have "take 2 (drop (length d) S) = be_bytes 2 (unat v)" if "\<not> failed r'"
      using g v that assms(1) by (auto simp: got_def)
    then show "got r' S (d @ be_bytes 2 (unat v))" using g by (auto simp: got_def)
  qed (use g in simp_all)
qed

lemma u24_got:
  assumes "got r S d"
    and "\<And>v r'. got r' S (d @ be_bytes 3 (unat v)) \<Longrightarrow> (failed r \<longrightarrow> failed r') \<Longrightarrow>
      (\<not> failed r \<longrightarrow> (failed r' \<longleftrightarrow> length S < length d + 3)) \<Longrightarrow> runs (k (v, r')) Q"
  shows "runs (u24 r \<bind> k) Q"
proof (rule u24_step)
  show "ok r" using assms(1) by (simp add: got_def)
  fix v :: word32 and r'
  assume t: "took ok src at failed r 3 r'"
    and v: "unat v = (if failed r' then 0 else be_val (take 3 (drop (at r) (src r))))"
  note g = got_took [OF assms(1) t]
  show "runs (k (v, r')) Q"
  proof (rule assms(2))
    have "take 3 (drop (length d) S) = be_bytes 3 (unat v)" if "\<not> failed r'"
      using g v that assms(1) by (auto simp: got_def)
    then show "got r' S (d @ be_bytes 3 (unat v))" using g by (auto simp: got_def)
  qed (use g in simp_all)
qed

lemma raw_got:
  assumes "got r S d" and "length S + unat n < 2 ^ 32"
    and "\<And>p r'. got r' S (d @ take (unat n) (drop (length d) S)) \<Longrightarrow> (failed r \<longrightarrow> failed r') \<Longrightarrow>
      map_option unat p = (if failed r' then None else Some (length d)) \<Longrightarrow>
      (\<not> failed r' \<longrightarrow> length d + unat n \<le> length S) \<Longrightarrow>
      (\<not> failed r \<longrightarrow> (failed r' \<longleftrightarrow> length S < length d + unat n)) \<Longrightarrow> runs (k (p, r')) Q"
  shows "runs (k (raw r n)) Q"
proof (rule raw_step)
  show "ok r" and "length (src r) + unat n < 2 ^ 32" using assms(1,2) by (simp_all add: got_def)
  fix p :: "word32 option" and r'
  assume t: "took ok src at failed r (unat n) r'"
    and p: "map_option unat p = (if failed r' then None else Some (at r))"
  note g = got_took [OF assms(1) t]
  show "runs (k (p, r')) Q"
    using g p assms(1) by (intro assms(3)) (auto simp: got_def not_less)
qed

lemma took_ok: "took ok src at failed r n r' \<Longrightarrow> ok r'"
  by (simp add: took_def)

lemma took_sticky: "took ok src at failed r n r' \<Longrightarrow> failed r \<Longrightarrow> failed r'"
  by (simp add: took_def)

lemma took_advances:
  "took ok src at failed r n r' \<Longrightarrow> \<not> failed r' \<Longrightarrow>
   \<not> failed r \<and> src r' = src r \<and> at r' = at r + n \<and> at r + n \<le> length (src r)"
  by (simp add: took_def)

end

section \<open>The reader implements its interface\<close>

lemmas reader_obs = wf_reader_def r_src_def r_at_def r_failed_def

lemma U16_of_bytes: "unat (push_bit 8 (ucast hi) OR ucast lo :: word16) = be_val [hi, lo :: byte]"
proof -
  have "push_bit 8 (ucast hi) OR ucast lo = (push_bit 8 (ucast hi) + ucast lo :: word16)"
    by (rule disjunctive_add_eq_or [symmetric]) (auto simp: bit_eq_iff bit_simps dest: bit_imp_le_length)
  moreover have "unat hi * 256 + unat lo < 65536"
    using byte_lt_256 [of hi] byte_lt_256 [of lo] by linarith
  ultimately show ?thesis
    by (simp add: be_val_Cons unat_word_ariths push_bit_eq_mult)
qed

lemma U24_of_bytes:
  "unat (push_bit 16 (ucast b0) OR push_bit 8 (ucast b1) OR ucast b2 :: word32) = be_val [b0, b1, b2 :: byte]"
proof -
  have "push_bit 8 (ucast b1) OR ucast b2 = (push_bit 8 (ucast b1) + ucast b2 :: word32)"
    by (rule disjunctive_add_eq_or [symmetric]) (auto simp: bit_eq_iff bit_simps dest: bit_imp_le_length)
  moreover have "push_bit 16 (ucast b0) OR (push_bit 8 (ucast b1) OR ucast b2) =
      (push_bit 16 (ucast b0) + (push_bit 8 (ucast b1) OR ucast b2) :: word32)"
    by (rule disjunctive_add_eq_or [symmetric]) (auto simp: bit_eq_iff bit_simps dest: bit_imp_le_length)
  moreover have "unat b0 * 65536 + (unat b1 * 256 + unat b2) < 4294967296"
    using byte_lt_256 [of b0] byte_lt_256 [of b1] byte_lt_256 [of b2] by linarith
  ultimately show ?thesis
    by (simp add: be_val_Cons unat_word_ariths push_bit_eq_mult or.assoc)
qed

lemma take_2_drop: "i + 2 \<le> length xs \<Longrightarrow> take 2 (drop i xs) = [xs ! i, xs ! Suc i]"
  by (simp add: numeral_2_eq_2 take_Suc_conv_app_nth)

lemma take_3_drop: "i + 3 \<le> length xs \<Longrightarrow> take 3 (drop i xs) = [xs ! i, xs ! Suc i, xs ! Suc (Suc i)]"
  by (simp add: numeral_3_eq_3 take_Suc_conv_app_nth)

lemma read_U8_law:
  "wf_reader r \<Longrightarrow> runs (wn_Read_U8 r) (\<lambda>(v, r'). took wf_reader r_src r_at r_failed r 1 r' \<and>
     v = (if r_failed r' then 0 else r_src r ! r_at r))"
  unfolding wn_Read_U8_def took_def reader_obs by (auto simp: mem_simps no_wrap)

lemma read_U16_law:
  "wf_reader r \<Longrightarrow> runs (wn_Read_U16 r) (\<lambda>(v, r'). took wf_reader r_src r_at r_failed r 2 r' \<and>
     unat v = (if r_failed r' then 0 else be_val (take 2 (drop (r_at r) (r_src r)))))"
  unfolding wn_Read_U16_def took_def reader_obs
  by (auto simp: mem_simps no_wrap U16_of_bytes take_2_drop)

lemma read_U24_law:
  "wf_reader r \<Longrightarrow> runs (wn_Read_U24 r) (\<lambda>(v, r'). took wf_reader r_src r_at r_failed r 3 r' \<and>
     unat v = (if r_failed r' then 0 else be_val (take 3 (drop (r_at r) (r_src r)))))"
  unfolding wn_Read_U24_def took_def reader_obs
  by (auto simp: mem_simps no_wrap U24_of_bytes take_3_drop)

lemma read_Bytes_law:
  "wf_reader r \<Longrightarrow> length (r_src r) + unat n < 2 ^ 32 \<Longrightarrow>
   took wf_reader r_src r_at r_failed r (unat n) (snd (wn_Read_Bytes r n)) \<and>
   map_option unat (fst (wn_Read_Bytes r n)) =
     (if r_failed (snd (wn_Read_Bytes r n)) then None else Some (r_at r))"
  unfolding wn_Read_Bytes_def took_def reader_obs by (auto simp: no_wrap)

interpretation rdr: wire_reader wf_reader r_src r_at r_failed
  wn_Read_U8 wn_Read_U16 wn_Read_U24 wn_Read_Bytes
proof
  show "r_at r \<le> length (r_src r)" if "wf_reader r" for r
    using that by (auto simp: reader_obs word_le_nat_alt)
qed (fact read_U8_law read_U16_law read_U24_law read_Bytes_law)+

section \<open>Properties\<close>

lemma emit_steps:
  shows "wire_ok cap m \<Longrightarrow> wtr.holds w cap fs b \<Longrightarrow> runs (emit m w) (\<lambda>w'. wtr.holds w' cap fs (b @ encode m))"
    and "wires_ok cap ms \<Longrightarrow> wtr.holds w cap fs b \<Longrightarrow> runs (emits ms w) (\<lambda>w'. wtr.holds w' cap fs (b @ encodes ms))"
proof (induction m and ms arbitrary: w fs b and w fs b rule: encode_encodes.induct)
  case (1 v)
  then show ?case using wtr.u8_step [OF "1.prems"(2), of v Some] by simp
next
  case (2 v)
  then show ?case using wtr.u16_step [OF "2.prems"(2), of v Some] by simp
next
  case (3 v)
  then show ?case using wtr.u24_step [OF "3.prems"(2), of v Some] by simp
next
  case (4 bs)
  then show ?case
    using wtr.raw_step [OF "4.prems"(2), of "word_of_nat (length bs)" bs Some] by (simp add: unat_of_nat)
next
  case (5 n ms)
  have close: "runs (wn_Write_LenEnd w' off (int n)) (\<lambda>w'. wtr.holds w' cap fs (b @ encode (WVec n ms)))"
    if "wtr.holds w' cap ((b, n, off) # fs) ([] @ encodes ms)" for w' off
    using wtr.len_end_step [OF that, of Some] "5.prems"(1) by simp
  show ?case
    unfolding emit.simps
  proof (rule wtr.len_start_step [OF "5.prems"(2)])
    fix off w'
    assume "wtr.holds w' cap ((b, n, off) # fs) []"
    with "5.IH" [of w' "(b, n, off) # fs" "[]"] "5.prems"(1)
    have "runs (emits ms w') (\<lambda>w'. wtr.holds w' cap ((b, n, off) # fs) ([] @ encodes ms))"
      by simp
    then show "runs (case (off, w') of (off, w) \<Rightarrow> emits ms w \<bind> (\<lambda>w. wn_Write_LenEnd w off (int n)))
        (\<lambda>w'. wtr.holds w' cap fs (b @ encode (WVec n ms)))"
      unfolding prod.case runs_bind by (rule runs_mono) (rule close)
  qed
next
  case 6
  then show ?case by simp
next
  case (7 m ms)
  have "runs (emit m w) (\<lambda>w'. wtr.holds w' cap fs (b @ encode m))"
    using "7.IH"(1) "7.prems" by simp
  moreover have "runs (emits ms w') (\<lambda>w'. wtr.holds w' cap fs (b @ encodes (m # ms)))"
    if "wtr.holds w' cap fs (b @ encode m)" for w'
    using "7.IH"(2) [OF _ that] "7.prems"(1) by simp
  ultimately show ?case by (auto simp: runs_bind elim!: runs_mono)
qed

lemma holds_Writer_Init:
  "unat cap \<le> length buf \<Longrightarrow> unat cap + 3 < 2 ^ 32 \<Longrightarrow>
   wtr.holds (wn_Writer_Init buf cap) (unat cap) [] []"
  using wtr.holds_empty [of "wn_Writer_Init buf cap"]
  by (simp add: wn_Writer_Init_def writer_obs)

text \<open>
  C9. Writing any message, nested length-prefixed vectors included, through the writer's
  calls never leaves the buffer. It succeeds exactly when the message's RFC 8446 encoding
  fits the capacity, and then the buffer holds exactly that encoding.
\<close>

theorem emits_encodes:
  assumes "unat cap \<le> length buf" and "unat cap + 3 < 2 ^ 32" and "wires_ok (unat cap) ms"
  shows "\<exists>w. emits ms (wn_Writer_Init buf cap) = Some w \<and>
    (w_err w = 0 \<longleftrightarrow> length (encodes ms) \<le> unat cap) \<and>
    (w_err w = 0 \<longrightarrow> take (unat (w_len w)) (w_buf w) = encodes ms)"
proof -
  have "runs (emits ms (wn_Writer_Init buf cap)) (\<lambda>w. wtr.holds w (unat cap) [] ([] @ encodes ms))"
    using assms by (intro emit_steps(2) holds_Writer_Init)
  then show ?thesis
    by (auto simp: runs_def w_failed_def w_content_def dest!: wtr.holds_done)
qed

theorem emits_encodes_witness:
  "\<exists>w. emits [WU8 1, WVec 3 [WU16 0x0303, WVec 1 [WBytes [7, 8]]]] (wn_Writer_Init (replicate 16 0) 16) = Some w \<and>
    w_err w = 0 \<and> take (unat (w_len w)) (w_buf w) = [1, 0, 0, 5, 3, 3, 2, 7, 8]"
  using emits_encodes [of 16 "replicate 16 0" "[WU8 1, WVec 3 [WU16 0x0303, WVec 1 [WBytes [7, 8]]]]"]
  by (auto simp: be_bytes_2 be_bytes_3)

text \<open>
  C10. What the writer wrote the reader reads back: a byte, a 16-bit value, a 24-bit value
  below \<open>2 ^ 24\<close> and a byte string are recovered in order, the byte string as a pointer
  into the buffer, and the reader ends at the end of the data without an error.
\<close>

theorem write_read_roundtrip:
  assumes "unat cap \<le> length buf" and "unat cap + length bs + 3 < 2 ^ 32"
    and "6 + length bs \<le> unat cap" and "unat c < 2 ^ 24"
  shows "\<exists>w. emits [WU8 a, WU16 b, WU24 c, WBytes bs] (wn_Writer_Init buf cap) = Some w \<and>
    (\<exists>p r. do {
      (a', r) \<leftarrow> wn_Read_U8 (wn_Reader_Init (w_buf w) (w_len w));
      (b', r) \<leftarrow> wn_Read_U16 r;
      (c', r) \<leftarrow> wn_Read_U24 r;
      Some (a', b', c', wn_Read_Bytes r (word_of_nat (length bs)))
    } = Some (a, b, c, Some p, r) \<and>
    take (length bs) (drop (unat p) (w_buf w)) = bs \<and> r_err r = 0 \<and> r_pos r = w_len w)"
proof -
  let ?e = "encodes [WU8 a, WU16 b, WU24 c, WBytes bs]"
  obtain w where w: "emits [WU8 a, WU16 b, WU24 c, WBytes bs] (wn_Writer_Init buf cap) = Some w"
    and h: "wtr.holds w (unat cap) [] ?e"
    using emit_steps(2) [of "unat cap" "[WU8 a, WU16 b, WU24 c, WBytes bs]" "wn_Writer_Init buf cap" "[]" "[]"]
      holds_Writer_Init [of cap buf] assms by (auto simp: runs_def)
  from wtr.holds_done [OF h] assms(3)
  have ok: "wf_writer w" and e: "take (unat (w_len w)) (w_buf w) = ?e"
    by (auto simp: w_content_def)
  have len: "unat (w_len w) = 6 + length bs"
    using arg_cong [OF e, of length] ok by (simp add: writer_obs word_le_nat_alt)
  let ?r = "wn_Reader_Init (w_buf w) (w_len w)"
  let ?bs = "word_of_nat (length bs) :: word32"
  have r0: "rdr.expects ?r [] ([a] @ be_bytes 2 (unat b) @ be_bytes 3 (unat c) @ bs @ [])"
    using ok e by (auto simp: rdr.expects_def wn_Reader_Init_def writer_obs reader_obs word_le_nat_alt)
  have bs: "unat ?bs = length bs"
    using assms(2) by (simp add: unat_of_nat)
  have "runs (do {
      (a', r) \<leftarrow> wn_Read_U8 ?r; (b', r) \<leftarrow> wn_Read_U16 r; (c', r) \<leftarrow> wn_Read_U24 r;
      Some (a', b', c', wn_Read_Bytes r ?bs)
    }) (\<lambda>(a', b', c', p', r). a' = a \<and> b' = b \<and> c' = c \<and> (\<exists>p. p' = Some p \<and> unat p = 6) \<and> rdr.expects r ?e [])"
    using r0 assms
    by (auto intro!: rdr.u8_expect rdr.u16_expect rdr.u24_expect
        rdr.raw_expect [of _ _ _ "[]" _ "\<lambda>x. Some (a, b, c, x)"] simp: bs)
  then obtain p r where res: "do {
      (a', r) \<leftarrow> wn_Read_U8 ?r; (b', r) \<leftarrow> wn_Read_U16 r; (c', r) \<leftarrow> wn_Read_U24 r;
      Some (a', b', c', wn_Read_Bytes r ?bs)
    } = Some (a, b, c, Some p, r)" and p: "unat p = 6" and r: "rdr.expects r ?e []"
    by (auto simp: runs_def)
  have "take (length bs) (drop 6 (take (6 + length bs) (w_buf w))) = bs"
    using e len by simp
  then have "take (length bs) (drop (unat p) (w_buf w)) = bs"
    by (simp add: drop_take p)
  moreover have "r_err r = 0" and "r_pos r = w_len w"
    using r len by (simp_all add: rdr.expects_def reader_obs word_unat_eq_iff)
  ultimately show ?thesis
    using w res by blast
qed

theorem write_read_roundtrip_witness:
  "\<exists>w p r. emits [WU8 1, WU16 0x1301, WU24 5, WBytes [9, 8, 7]] (wn_Writer_Init (replicate 32 0) 32) = Some w \<and>
    do {
      (a', r) \<leftarrow> wn_Read_U8 (wn_Reader_Init (w_buf w) (w_len w));
      (b', r) \<leftarrow> wn_Read_U16 r;
      (c', r) \<leftarrow> wn_Read_U24 r;
      Some (a', b', c', wn_Read_Bytes r 3)
    } = Some (1, 0x1301, 5, Some p, r) \<and> r_err r = 0"
proof -
  have "length [9, 8, 7 :: byte] = 3" by simp
  with write_read_roundtrip [of 32 "replicate 32 0" "[9, 8, 7]" 5 1 "0x1301"] show ?thesis
    by (simp only: of_nat_numeral) auto
qed

text \<open>All outcomes of \<open>wn_Write_Bytes\<close> on a writer without an error, by the sum as a natural number.\<close>

lemma unat_add_carry:
  fixes a b :: word32
  assumes "2 ^ 32 \<le> unat a + unat b"
  shows "unat (a + b) + 2 ^ 32 = unat a + unat b" and "a + b < a"
proof -
  have l: "unat a < 2 ^ 32" "unat b < 2 ^ 32"
    using unsigned_less [of a, where 'a = nat] unsigned_less [of b, where 'a = nat] by simp_all
  have m: "(i + j) mod N + N = i + j" if "N \<le> i + j" "i < N" "j < N" for i j N :: nat
    using that by (simp add: le_mod_geq)
  have "unat (a + b) = (unat a + unat b) mod 2 ^ 32"
    by (simp add: unat_word_ariths)
  then show s: "unat (a + b) + 2 ^ 32 = unat a + unat b"
    by (simp only: m [OF assms l])
  have "unat (a + b) < unat a"
    using s l(2) by linarith
  then show "a + b < a"
    by (simp only: word_less_nat_alt)
qed

lemma writer_differs: "w_err w = 0 \<Longrightarrow> w\<lparr>w_buf := b, w_len := l\<rparr> \<noteq> w\<lparr>w_err := 1\<rparr>"
  by (metis wn_Writer.select_convs(4) wn_Writer.surjective wn_Writer.update_convs zero_neq_one)

lemma write_Bytes_cases:
  assumes "wf_writer w" and "w_err w = 0" and "unat n \<le> length src"
  shows "wn_Write_Bytes w (Some src) n =
    (if unat (w_cap w) < unat (w_len w) + unat n \<and> unat (w_len w) + unat n < 2 ^ 32 then Some (w\<lparr>w_err := 1\<rparr>)
     else if length (w_buf w) < unat (w_len w) + unat n then None
     else Some (w\<lparr>w_buf := take (unat (w_len w)) (w_buf w) @ take (unat n) src @ drop (unat (w_len w) + unat n) (w_buf w),
                 w_len := w_len w + n\<rparr>))"
    and "unat (w_len w) + unat n < 2 ^ 32 \<Longrightarrow> unat (w_len w + n) = unat (w_len w) + unat n"
    and "2 ^ 32 \<le> unat (w_len w) + unat n \<Longrightarrow>
      unat (w_len w + n) + 2 ^ 32 = unat (w_len w) + unat n \<and> w_len w + n < w_len w"
    and "unat (w_cap w) \<le> length (w_buf w)"
proof -
  show b: "unat (w_cap w) \<le> length (w_buf w)"
    using assms(1) by (simp add: wf_writer_def)
  show lo: "unat (w_len w) + unat n < 2 ^ 32 \<Longrightarrow> unat (w_len w + n) = unat (w_len w) + unat n"
    by (simp add: unat_add_no_wrap)
  show hi: "2 ^ 32 \<le> unat (w_len w) + unat n \<Longrightarrow>
      unat (w_len w + n) + 2 ^ 32 = unat (w_len w) + unat n \<and> w_len w + n < w_len w"
    using unat_add_carry by blast
  have c: "w_len w + n \<le> w_cap w \<longleftrightarrow> \<not> (unat (w_cap w) < unat (w_len w) + unat n \<and> unat (w_len w) + unat n < 2 ^ 32)"
  proof (cases "unat (w_len w) + unat n < 2 ^ 32")
    case True
    then show ?thesis using lo by (simp add: word_le_nat_alt not_less)
  next
    case False
    then have "w_len w + n < w_len w" using hi by simp
    moreover have "w_len w \<le> w_cap w" using assms(1) by (simp add: wf_writer_def)
    ultimately show ?thesis using False by simp
  qed
  show "wn_Write_Bytes w (Some src) n =
    (if unat (w_cap w) < unat (w_len w) + unat n \<and> unat (w_len w) + unat n < 2 ^ 32 then Some (w\<lparr>w_err := 1\<rparr>)
     else if length (w_buf w) < unat (w_len w) + unat n then None
     else Some (w\<lparr>w_buf := take (unat (w_len w)) (w_buf w) @ take (unat n) src @ drop (unat (w_len w) + unat n) (w_buf w),
                 w_len := w_len w + n\<rparr>))"
    unfolding wn_Write_Bytes_def c
    using assms b by (auto simp: mem_read_def mem_write_def wf_writer_def word_le_nat_alt)
qed

text \<open>
  C38. The bounds check of \<open>wn_Write_Bytes\<close> adds two 32-bit values. On a well-formed writer without
  an error it refuses a string exactly when the true sum of the length and the position is above
  the capacity and below \<open>2 ^ 32\<close>. Within the capacity the string is appended. From \<open>2 ^ 32\<close> on
  the wrapped sum is always within the capacity, so the check passes: the copy then has no defined
  result unless the memory behind the buffer is that large, and in that case the bytes behind the
  capacity are overwritten, no error is latched and the position moves backwards.
\<close>

theorem write_Bytes_check_wraps:
  fixes w :: wn_Writer and n :: word32 and src :: bytes
  defines "stop \<equiv> unat (w_len w) + unat n"
  assumes "wf_writer w" and "w_err w = 0" and "unat n \<le> length src"
  shows "(wn_Write_Bytes w (Some src) n = Some (w\<lparr>w_err := 1\<rparr>) \<longleftrightarrow> unat (w_cap w) < stop \<and> stop < 2 ^ 32) \<and>
    (wn_Write_Bytes w (Some src) n = None \<longleftrightarrow> 2 ^ 32 \<le> stop \<and> length (w_buf w) < stop) \<and>
    (\<forall>w'. wn_Write_Bytes w (Some src) n = Some w' \<and> w_err w' = 0 \<longrightarrow>
       w_buf w' = take (unat (w_len w)) (w_buf w) @ take (unat n) src @ drop stop (w_buf w) \<and>
       (if stop < 2 ^ 32 then stop \<le> unat (w_cap w) \<and> unat (w_len w') = stop
        else unat (w_len w') + 2 ^ 32 = stop \<and> w_len w' < w_len w))"
  using write_Bytes_cases [OF assms(2-4)] writer_differs [OF assms(3)] assms(3) unfolding stop_def [symmetric]
  by (auto split: if_splits)

theorem write_Bytes_check_wraps_witness:
  "wn_Write_Bytes \<lparr>w_buf = [0], w_cap = 1, w_len = 1, w_err = 0\<rparr> (Some (replicate 4294967295 7)) 0xffffffff = None"
  using write_Bytes_check_wraps [where w = "\<lparr>w_buf = [0], w_cap = 1, w_len = 1, w_err = 0\<rparr>" and n = "0xffffffff"
      and src = "replicate 4294967295 7"]
  by (simp add: wf_writer_def)

end
