(* ===== verification/Wn_ServerHello.thy ===== *)
theory Wn_ServerHello
  imports Wn_Msg Wn_Codes
begin

text \<open>
  The ServerHello parser of \<open>src/src/wn_serverhello.c\<close>. The pointers of the parsed message
  are offsets into the input. The specification is the encoding of RFC 8446, section 4.1.3:
  the parser accepts exactly the encodings of well-formed messages, and recognises a
  HelloRetryRequest by its random value alone.
\<close>

section \<open>Operations\<close>

record wn_ServerHello =
  sh_random :: "word32 option"
  sh_keyShare :: "word32 option"
  sh_sessionId :: "word32 option"
  sh_keyShareLen :: word32
  sh_cipher :: word16
  sh_group :: word16
  sh_version :: word16
  sh_pskSelected :: int
  sh_isHelloRetry :: int
  sh_sessionIdLen :: byte

abbreviation (input) WN_HS_SERVER_HELLO :: byte where "WN_HS_SERVER_HELLO \<equiv> 2"
abbreviation (input) WN_EXT_SUPPORTED_VER :: word16 where "WN_EXT_SUPPORTED_VER \<equiv> 43"
abbreviation (input) WN_EXT_PRE_SHARED :: word16 where "WN_EXT_PRE_SHARED \<equiv> 41"
abbreviation (input) WN_EXT_KEY_SHARE :: word16 where "WN_EXT_KEY_SHARE \<equiv> 51"

definition wn_hrr_random :: bytes where
  "wn_hrr_random =
     [0xCF, 0x21, 0xAD, 0x74, 0xE5, 0x9A, 0x61, 0x11,
      0xBE, 0x1D, 0x8C, 0x02, 0x1E, 0x65, 0xB8, 0x91,
      0xC2, 0xA2, 0x11, 0x16, 0x7A, 0xBB, 0x8C, 0x5E,
      0x07, 0x9E, 0x09, 0xE2, 0xC8, 0xA8, 0x33, 0x9C]"

definition sh_clear :: wn_ServerHello where
  "sh_clear = \<lparr>sh_random = None, sh_keyShare = None, sh_sessionId = None, sh_keyShareLen = 0,
     sh_cipher = 0, sh_group = 0, sh_version = 0, sh_pskSelected = - 1, sh_isHelloRetry = 0,
     sh_sessionIdLen = 0\<rparr>"

text \<open>The comparison of the random value accumulates the differences of all bytes.\<close>

definition sh_diff :: "bytes \<Rightarrow> byte" where
  "sh_diff rnd = fold (\<lambda>(a, b) diff. diff OR (a XOR b)) (zip rnd wn_hrr_random) 0"

definition sh_check_hrr :: "bytes \<Rightarrow> wn_Reader \<Rightarrow> byte \<Rightarrow> wn_ServerHello \<Rightarrow> wn_ServerHello option" where
  "sh_check_hrr msg r type out =
     (case sh_random out of
        Some p \<Rightarrow>
          if r_err r = 0 \<and> type = WN_HS_SERVER_HELLO then
            mem_read msg (unat p) 32 \<bind> (\<lambda>rnd.
            Some (if sh_diff rnd = 0 then out\<lparr>sh_isHelloRetry := 1\<rparr> else out))
          else Some out
      | None \<Rightarrow> Some out)"

text \<open>The state of the extension loop: the reader, the result, and the duplicate flags.\<close>

type_synonym sh_loop = "wn_Reader \<times> wn_ServerHello \<times> byte \<times> byte \<times> byte"

definition set_err :: "bool \<Rightarrow> wn_Reader \<Rightarrow> wn_Reader" where
  "set_err b r = (if b then r\<lparr>r_err := 1\<rparr> else r)"

definition sh_ext_key_share :: "word32 \<Rightarrow> sh_loop \<Rightarrow> sh_loop option" where
  "sh_ext_key_share eEnd s = (case s of (r, out, seenKs, seenVer, seenPsk) \<Rightarrow>
     wn_Read_U16 (set_err (seenKs \<noteq> 0) r) \<bind> (\<lambda>(group, r).
     wn_Read_U16 r \<bind> (\<lambda>(klen, r).
     case wn_Read_Bytes r (ucast klen) of (p, r) \<Rightarrow>
     Some (set_err (r_pos r \<noteq> eEnd) r,
           out\<lparr>sh_group := group, sh_keyShare := p, sh_keyShareLen := ucast klen\<rparr>, 1, seenVer, seenPsk))))"

definition sh_ext_version :: "word32 \<Rightarrow> sh_loop \<Rightarrow> sh_loop option" where
  "sh_ext_version eEnd s = (case s of (r, out, seenKs, seenVer, seenPsk) \<Rightarrow>
     wn_Read_U16 (set_err (seenVer \<noteq> 0) r) \<bind> (\<lambda>(v, r).
     Some (set_err (r_pos r \<noteq> eEnd) r, out\<lparr>sh_version := v\<rparr>, seenKs, 1, seenPsk)))"

definition sh_ext_psk :: "word32 \<Rightarrow> sh_loop \<Rightarrow> sh_loop option" where
  "sh_ext_psk eEnd s = (case s of (r, out, seenKs, seenVer, seenPsk) \<Rightarrow>
     wn_Read_U16 (set_err (seenPsk \<noteq> 0) r) \<bind> (\<lambda>(v, r).
     Some (set_err (r_pos r \<noteq> eEnd) r, out\<lparr>sh_pskSelected := int (unat v)\<rparr>, seenKs, seenVer, 1)))"

definition sh_ext_body :: "word32 \<Rightarrow> sh_loop \<Rightarrow> sh_loop option" where
  "sh_ext_body extEnd s = (case s of (r, out, seen) \<Rightarrow>
     wn_Read_U16 r \<bind> (\<lambda>(et, r).
     wn_Read_U16 r \<bind> (\<lambda>(el, r).
     let eEnd = r_pos r + ucast el in
     if eEnd > extEnd then Some (set_err True r, out, seen)
     else if et = WN_EXT_KEY_SHARE then sh_ext_key_share eEnd (r, out, seen)
     else if et = WN_EXT_SUPPORTED_VER then sh_ext_version eEnd (r, out, seen)
     else if et = WN_EXT_PRE_SHARED then sh_ext_psk eEnd (r, out, seen)
     else Some (set_err True r, out, seen))))"

partial_function (option) sh_ext_loop :: "word32 \<Rightarrow> sh_loop \<Rightarrow> sh_loop option" where
  "sh_ext_loop extEnd s =
     (if r_pos (fst s) < extEnd \<and> r_err (fst s) = 0
      then sh_ext_body extEnd s \<bind> (\<lambda>s. sh_ext_loop extEnd s)
      else Some s)"

definition sh_parse_rest ::
    "word32 \<Rightarrow> byte \<Rightarrow> word32 \<Rightarrow> word16 \<Rightarrow> wn_Reader \<Rightarrow> wn_ServerHello \<Rightarrow> (int \<times> wn_ServerHello) option" where
  "sh_parse_rest msgLen type hsLen lver r out =
     wn_Read_U8 r \<bind> (\<lambda>(sidLen, r).
     case wn_Read_Bytes r (ucast sidLen) of (sid, r) \<Rightarrow>
     wn_Read_U16 r \<bind> (\<lambda>(cipher, r).
     wn_Read_U8 r \<bind> (\<lambda>(compression, r).
     wn_Read_U16 r \<bind> (\<lambda>(extLen, r).
     let out = out\<lparr>sh_sessionId := sid, sh_sessionIdLen := sidLen, sh_cipher := cipher\<rparr>;
         over = r_pos r + ucast extLen > msgLen;
         extEnd = (if over then msgLen else r_pos r + ucast extLen);
         r = set_err over r in
     sh_ext_loop extEnd (r, out, 0, 0, 0) \<bind> (\<lambda>(r, out, seenKs, seenVer, seenPsk).
     Some (if r_err r \<noteq> 0 \<or> type \<noteq> WN_HS_SERVER_HELLO \<or> hsLen \<noteq> msgLen - 4 \<or> sh_random out = None \<or>
              lver \<noteq> 0x0303 \<or> compression \<noteq> 0 \<or> extEnd \<noteq> msgLen
           then WOLFNANO_E_INVALID_ARG else WOLFNANO_SUCCESS, out))))))"

definition wn_ServerHello_Parse ::
    "bytes option \<Rightarrow> word32 \<Rightarrow> wn_ServerHello option \<Rightarrow> (int \<times> wn_ServerHello option) option" where
  "wn_ServerHello_Parse msg msgLen out =
     (case (msg, out) of
        (Some msg, Some _) \<Rightarrow>
          wn_Read_U8 (wn_Reader_Init msg msgLen) \<bind> (\<lambda>(type, r).
          wn_Read_U24 r \<bind> (\<lambda>(hsLen, r).
          wn_Read_U16 r \<bind> (\<lambda>(lver, r).
          case wn_Read_Bytes r 32 of (random, r) \<Rightarrow>
          sh_check_hrr msg r type (sh_clear\<lparr>sh_random := random\<rparr>) \<bind> (\<lambda>out.
          if sh_isHelloRetry out = 0 then
            sh_parse_rest msgLen type hsLen lver r out \<bind> (\<lambda>(ret, out). Some (ret, Some out))
          else Some (WOLFNANO_SUCCESS, Some out)))))
      | _ \<Rightarrow> Some (WOLFNANO_E_INVALID_ARG, out))"

section \<open>Specification\<close>

datatype sh_ext = KeyShareExt word16 bytes | SupportedVersionExt word16 | PreSharedExt word16

fun ext_body :: "sh_ext \<Rightarrow> bytes" where
  "ext_body (KeyShareExt g k) = be_bytes 2 (unat g) @ be_bytes 2 (length k) @ k"
| "ext_body (SupportedVersionExt v) = be_bytes 2 (unat v)"
| "ext_body (PreSharedExt i) = be_bytes 2 (unat i)"

fun ext_type :: "sh_ext \<Rightarrow> word16" where
  "ext_type (KeyShareExt g k) = WN_EXT_KEY_SHARE"
| "ext_type (SupportedVersionExt v) = WN_EXT_SUPPORTED_VER"
| "ext_type (PreSharedExt i) = WN_EXT_PRE_SHARED"

definition enc_ext :: "sh_ext \<Rightarrow> bytes" where
  "enc_ext e = be_bytes 2 (unat (ext_type e)) @ be_bytes 2 (length (ext_body e)) @ ext_body e"

definition enc_exts :: "sh_ext list \<Rightarrow> bytes" where
  "enc_exts es = concat (map enc_ext es)"

record server_hello =
  m_random :: bytes
  m_sid :: bytes
  m_cipher :: word16
  m_exts :: "sh_ext list"

definition enc_sh_body :: "server_hello \<Rightarrow> bytes" where
  "enc_sh_body m = be_bytes 2 0x0303 @ m_random m @ be_bytes 1 (length (m_sid m)) @ m_sid m @
     be_bytes 2 (unat (m_cipher m)) @ [0] @ be_bytes 2 (length (enc_exts (m_exts m))) @ enc_exts (m_exts m)"

definition enc_sh :: "server_hello \<Rightarrow> bytes" where
  "enc_sh m = [WN_HS_SERVER_HELLO] @ be_bytes 3 (length (enc_sh_body m)) @ enc_sh_body m"

text \<open>
  A well-formed ServerHello that is no HelloRetryRequest: no extension type twice, every
  length within its field.
\<close>

definition sh_wf :: "server_hello \<Rightarrow> bool" where
  "sh_wf m \<longleftrightarrow> length (m_random m) = 32 \<and> m_random m \<noteq> wn_hrr_random \<and> length (m_sid m) < 256 \<and>
     distinct (map ext_type (m_exts m)) \<and> length (enc_exts (m_exts m)) < 65536"

text \<open>What the parsed result says of the extensions; a pointer names bytes of the input \<open>S\<close>.\<close>

definition points_to :: "bytes \<Rightarrow> word32 option \<Rightarrow> bytes \<Rightarrow> bool" where
  "points_to S p bs \<longleftrightarrow> (\<exists>q. p = Some q \<and> unat q + length bs \<le> length S \<and> take (length bs) (drop (unat q) S) = bs)"

definition exts_read :: "bytes \<Rightarrow> sh_ext list \<Rightarrow> wn_ServerHello \<Rightarrow> bool" where
  "exts_read S es out \<longleftrightarrow>
     (\<forall>g k. KeyShareExt g k \<in> set es \<longrightarrow>
        sh_group out = g \<and> unat (sh_keyShareLen out) = length k \<and> points_to S (sh_keyShare out) k) \<and>
     (WN_EXT_KEY_SHARE \<notin> ext_type ` set es \<longrightarrow>
        sh_group out = 0 \<and> sh_keyShareLen out = 0 \<and> sh_keyShare out = None) \<and>
     (\<forall>v. SupportedVersionExt v \<in> set es \<longrightarrow> sh_version out = v) \<and>
     (WN_EXT_SUPPORTED_VER \<notin> ext_type ` set es \<longrightarrow> sh_version out = 0) \<and>
     (\<forall>i. PreSharedExt i \<in> set es \<longrightarrow> sh_pskSelected out = int (unat i)) \<and>
     (WN_EXT_PRE_SHARED \<notin> ext_type ` set es \<longrightarrow> sh_pskSelected out = - 1)"

definition sh_read :: "bytes \<Rightarrow> server_hello \<Rightarrow> wn_ServerHello \<Rightarrow> bool" where
  "sh_read S m out \<longleftrightarrow> sh_isHelloRetry out = 0 \<and> points_to S (sh_random out) (m_random m) \<and>
     points_to S (sh_sessionId out) (m_sid m) \<and> unat (sh_sessionIdLen out) = length (m_sid m) \<and>
     sh_cipher out = m_cipher m \<and> exts_read S (m_exts m) out"

section \<open>The extension loop\<close>

lemma ext_types: "ext_type e \<in> {WN_EXT_KEY_SHARE, WN_EXT_SUPPORTED_VER, WN_EXT_PRE_SHARED}"
  by (cases e) simp_all

lemma got_set_err: "rdr.got r S d \<Longrightarrow> rdr.got (set_err b r) S d"
  by (auto simp: rdr.got_def set_err_def reader_obs)

lemma failed_set_err [simp]: "r_failed (set_err b r) \<longleftrightarrow> b \<or> r_failed r"
  by (simp add: set_err_def r_failed_def)

lemma r_pos_set_err [simp]: "r_pos (set_err b r) = r_pos r"
  by (simp add: set_err_def)

lemma r_at_set_err [simp]: "r_at (set_err b r) = r_at r"
  by (simp add: set_err_def r_at_def)

definition same_head :: "wn_ServerHello \<Rightarrow> wn_ServerHello \<Rightarrow> bool" where
  "same_head out o0 \<longleftrightarrow> sh_random out = sh_random o0 \<and> sh_sessionId out = sh_sessionId o0 \<and>
     sh_sessionIdLen out = sh_sessionIdLen o0 \<and> sh_cipher out = sh_cipher o0 \<and>
     sh_isHelloRetry out = sh_isHelloRetry o0"

text \<open>The loop invariant: unless the reader has failed, the extensions \<open>es\<close> have been consumed.\<close>

definition loop_inv :: "bytes \<Rightarrow> bytes \<Rightarrow> wn_ServerHello \<Rightarrow> word32 \<Rightarrow> sh_ext list \<Rightarrow> sh_loop \<Rightarrow> bool" where
  "loop_inv S d0 o0 extEnd es s \<longleftrightarrow> (case s of (r, out, seenKs, seenVer, seenPsk) \<Rightarrow>
     rdr.got r S (d0 @ enc_exts es) \<and> same_head out o0 \<and>
     (\<not> r_failed r \<longrightarrow> r_at r \<le> unat extEnd \<and> exts_read S es out \<and> distinct (map ext_type es) \<and>
       (seenKs \<noteq> 0 \<longleftrightarrow> WN_EXT_KEY_SHARE \<in> ext_type ` set es) \<and>
       (seenVer \<noteq> 0 \<longleftrightarrow> WN_EXT_SUPPORTED_VER \<in> ext_type ` set es) \<and>
       (seenPsk \<noteq> 0 \<longleftrightarrow> WN_EXT_PRE_SHARED \<in> ext_type ` set es)))"

lemma loop_inv_failed:
  "r_failed r \<Longrightarrow> rdr.got r S d \<Longrightarrow> same_head out o0 \<Longrightarrow> loop_inv S d0 o0 extEnd es (r, out, a, b, c)"
  by (auto simp: loop_inv_def rdr.got_def)

lemma loop_inv_step:
  assumes "loop_inv S d0 o0 extEnd es (r, out, a, b, c)" and "\<not> r_failed r"
    and "rdr.got r' S ((d0 @ enc_exts es) @ be_bytes 2 (unat (ext_type e)) @ be_bytes 2 (unat (el :: word16)) @ ext_body e)"
    and "\<not> r_failed r' \<Longrightarrow> unat el = length (ext_body e) \<and> ext_type e \<notin> ext_type ` set es \<and>
      r_at r' \<le> unat extEnd \<and> exts_read S (es @ [e]) out'"
    and "same_head out' out"
    and "a' = (if ext_type e = WN_EXT_KEY_SHARE then 1 else a)"
    and "b' = (if ext_type e = WN_EXT_SUPPORTED_VER then 1 else b)"
    and "c' = (if ext_type e = WN_EXT_PRE_SHARED then 1 else c)"
  shows "\<exists>es'. loop_inv S d0 o0 extEnd es' (r', out', a', b', c')"
proof (cases "r_failed r'")
  case True
  then show ?thesis
    using assms(1,3,5) loop_inv_failed by (fastforce simp: loop_inv_def same_head_def)
next
  case False
  have "loop_inv S d0 o0 extEnd (es @ [e]) (r', out', a', b', c')"
    using assms False by (auto simp: loop_inv_def same_head_def enc_exts_def enc_ext_def)
  then show ?thesis by blast
qed

lemma ext_type_mem:
  "KeyShareExt g k \<in> set es \<Longrightarrow> WN_EXT_KEY_SHARE \<in> ext_type ` set es"
  "SupportedVersionExt v \<in> set es \<Longrightarrow> WN_EXT_SUPPORTED_VER \<in> ext_type ` set es"
  "PreSharedExt i \<in> set es \<Longrightarrow> WN_EXT_PRE_SHARED \<in> ext_type ` set es"
  by (metis ext_type.simps image_eqI)+

lemma exts_read_key_share:
  assumes "exts_read S es out" and "WN_EXT_KEY_SHARE \<notin> ext_type ` set es" and "points_to S p k" and "unat n = length k"
  shows "exts_read S (es @ [KeyShareExt g k]) (out\<lparr>sh_group := g, sh_keyShare := p, sh_keyShareLen := n\<rparr>)"
proof -
  have "KeyShareExt g' k' \<notin> set es" for g' k' using assms(2) ext_type_mem(1) by blast
  then show ?thesis using assms by (simp add: exts_read_def image_Un)
qed

lemma exts_read_version:
  assumes "exts_read S es out" and "WN_EXT_SUPPORTED_VER \<notin> ext_type ` set es"
  shows "exts_read S (es @ [SupportedVersionExt v]) (out\<lparr>sh_version := v\<rparr>)"
proof -
  have "SupportedVersionExt v' \<notin> set es" for v' using assms(2) ext_type_mem(2) by blast
  then show ?thesis using assms by (simp add: exts_read_def image_Un)
qed

lemma exts_read_psk:
  assumes "exts_read S es out" and "WN_EXT_PRE_SHARED \<notin> ext_type ` set es"
  shows "exts_read S (es @ [PreSharedExt v]) (out\<lparr>sh_pskSelected := int (unat v)\<rparr>)"
proof -
  have "PreSharedExt v' \<notin> set es" for v' using assms(2) ext_type_mem(3) by blast
  then show ?thesis using assms by (simp add: exts_read_def image_Un)
qed

lemma r_at_bound: "rdr.got r S d \<Longrightarrow> r_at r \<le> length S"
  using rdr.at_bound [of r] by (simp add: rdr.got_def)

lemma got_pos: "rdr.got r S d \<Longrightarrow> \<not> r_failed r \<Longrightarrow> r_at r = length d"
  by (simp add: rdr.got_def)

lemma pos_add:
  assumes "rdr.got r S d" and "length S + 65536 < 2 ^ 32"
  shows "unat (r_pos r + ucast (n :: word16)) = r_at r + unat n"
proof -
  have "unat (r_pos r) + unat n < 2 ^ 32"
    using r_at_bound [OF assms(1)] assms(2) word16_lt [of n] by (simp add: r_at_def del: word16_lt)
  then show ?thesis by (simp add: unat_add_no_wrap r_at_def)
qed

text \<open>
  One extension. \<open>head_read\<close> is the state behind its type and length, with the end of its body
  inside the block; each branch extends the invariant by the extension it reads or fails.
\<close>

definition head_read ::
    "bytes \<Rightarrow> bytes \<Rightarrow> wn_ServerHello \<Rightarrow> word32 \<Rightarrow> sh_ext list \<Rightarrow> sh_loop \<Rightarrow> word16 \<Rightarrow> word16 \<Rightarrow> wn_Reader \<Rightarrow> bool" where
  "head_read S d0 o0 extEnd es s et el r2 \<longleftrightarrow> loop_inv S d0 o0 extEnd es s \<and> \<not> r_failed (fst s) \<and>
     rdr.got r2 S ((d0 @ enc_exts es) @ be_bytes 2 (unat et) @ be_bytes 2 (unat el)) \<and>
     length S + 65536 < 2 ^ 32 \<and> r_pos r2 + ucast el \<le> extEnd"

definition extended :: "bytes \<Rightarrow> bytes \<Rightarrow> wn_ServerHello \<Rightarrow> word32 \<Rightarrow> wn_Reader \<Rightarrow> sh_loop \<Rightarrow> bool" where
  "extended S d0 o0 extEnd r s' \<longleftrightarrow> (\<exists>es'. loop_inv S d0 o0 extEnd es' s') \<and>
     (r_failed (fst s') \<or> r_at r < r_at (fst s'))"

lemma extendedI:
  assumes h: "head_read S d0 o0 extEnd es (r, out, a, b, c) (ext_type e) el r2"
    and g: "rdr.got r' S (((d0 @ enc_exts es) @ be_bytes 2 (unat (ext_type e)) @ be_bytes 2 (unat el)) @ ext_body e)"
    and new: "\<not> r_failed r' \<Longrightarrow> \<not> r_failed r2 \<and> ext_type e \<notin> ext_type ` set es \<and> exts_read S (es @ [e]) out'"
    and fl: "same_head out' out"
    and flags: "a' = (if ext_type e = WN_EXT_KEY_SHARE then 1 else a)"
      "b' = (if ext_type e = WN_EXT_SUPPORTED_VER then 1 else b)"
      "c' = (if ext_type e = WN_EXT_PRE_SHARED then 1 else c)"
  shows "extended S d0 o0 extEnd r (set_err (r_pos r' \<noteq> r_pos r2 + ucast el) r', out', a', b', c')"
proof -
  let ?r = "set_err (r_pos r' \<noteq> r_pos r2 + ucast el) r'"
  have inv: "loop_inv S d0 o0 extEnd es (r, out, a, b, c)" and nf: "\<not> r_failed r"
    and g2: "rdr.got r2 S ((d0 @ enc_exts es) @ be_bytes 2 (unat (ext_type e)) @ be_bytes 2 (unat el))"
    and big: "length S + 65536 < 2 ^ 32" and le: "r_pos r2 + ucast el \<le> extEnd"
    using h by (simp_all add: head_read_def)
  have g': "rdr.got ?r S ((d0 @ enc_exts es) @ be_bytes 2 (unat (ext_type e)) @ be_bytes 2 (unat el) @ ext_body e)"
    using got_set_err [OF g] by simp
  have good: "unat el = length (ext_body e) \<and> ext_type e \<notin> ext_type ` set es \<and> r_at ?r \<le> unat extEnd \<and>
      exts_read S (es @ [e]) out'" if "\<not> r_failed ?r"
  proof -
    from that have nf': "\<not> r_failed r'" and pos: "r_pos r' = r_pos r2 + ucast el" by simp_all
    have at: "r_at r' = r_at r2 + unat el"
      using pos_add [OF g2 big, of el] pos by (simp add: r_at_def)
    have "r_at r' = r_at r2 + length (ext_body e)"
      using got_pos [OF g nf'] got_pos [OF g2] new [OF nf'] by simp
    with at have "unat el = length (ext_body e)" by simp
    moreover have "r_at ?r \<le> unat extEnd"
      using le pos by (simp add: r_at_def word_le_nat_alt)
    ultimately show ?thesis using new [OF nf'] by simp
  qed
  have "r_at r < r_at ?r" if "\<not> r_failed ?r"
    using got_pos [OF g' that] inv nf by (simp add: loop_inv_def rdr.got_def)
  then show ?thesis
    unfolding extended_def using loop_inv_step [OF inv nf g' good fl flags] by auto
qed

lemma head_readD:
  assumes "head_read S d0 o0 extEnd es (r, out, a, b, c) et el r2"
  shows "rdr.got r2 S ((d0 @ enc_exts es) @ be_bytes 2 (unat et) @ be_bytes 2 (unat el))"
    and "length S + 65536 < 2 ^ 32" and "exts_read S es out"
    and "a \<noteq> 0 \<longleftrightarrow> WN_EXT_KEY_SHARE \<in> ext_type ` set es"
    and "b \<noteq> 0 \<longleftrightarrow> WN_EXT_SUPPORTED_VER \<in> ext_type ` set es"
    and "c \<noteq> 0 \<longleftrightarrow> WN_EXT_PRE_SHARED \<in> ext_type ` set es"
  using assms by (simp_all add: head_read_def loop_inv_def)

lemma ext_version_inv:
  assumes h: "head_read S d0 o0 extEnd es (r, out, a, b, c) WN_EXT_SUPPORTED_VER el r2"
  shows "runs (sh_ext_version (r_pos r2 + ucast el) (r2, out, a, b, c)) (extended S d0 o0 extEnd r)"
  unfolding sh_ext_version_def prod.case
proof (rule rdr.u16_got [OF got_set_err [OF head_readD(1) [OF h]]], unfold prod.case runs_Some)
  fix v r'
  assume g: "rdr.got r' S (((d0 @ enc_exts es) @ be_bytes 2 (unat WN_EXT_SUPPORTED_VER) @ be_bytes 2 (unat el)) @
      be_bytes 2 (unat (v :: word16)))"
    and st: "r_failed (set_err (b \<noteq> 0) r2) \<longrightarrow> r_failed r'"
  show "extended S d0 o0 extEnd r (set_err (r_pos r' \<noteq> r_pos r2 + ucast el) r', out\<lparr>sh_version := v\<rparr>, a, 1, c)"
    by (rule extendedI [where e = "SupportedVersionExt v" and out = out and a = a and b = b and c = c and es = es])
      (use h g st head_readD [OF h] exts_read_version [of S es out v] in \<open>auto simp: same_head_def\<close>)
qed

lemma ext_psk_inv:
  assumes h: "head_read S d0 o0 extEnd es (r, out, a, b, c) WN_EXT_PRE_SHARED el r2"
  shows "runs (sh_ext_psk (r_pos r2 + ucast el) (r2, out, a, b, c)) (extended S d0 o0 extEnd r)"
  unfolding sh_ext_psk_def prod.case
proof (rule rdr.u16_got [OF got_set_err [OF head_readD(1) [OF h]]], unfold prod.case runs_Some)
  fix v r'
  assume g: "rdr.got r' S (((d0 @ enc_exts es) @ be_bytes 2 (unat WN_EXT_PRE_SHARED) @ be_bytes 2 (unat el)) @
      be_bytes 2 (unat (v :: word16)))"
    and st: "r_failed (set_err (c \<noteq> 0) r2) \<longrightarrow> r_failed r'"
  show "extended S d0 o0 extEnd r
      (set_err (r_pos r' \<noteq> r_pos r2 + ucast el) r', out\<lparr>sh_pskSelected := int (unat v)\<rparr>, a, b, 1)"
    by (rule extendedI [where e = "PreSharedExt v" and out = out and a = a and b = b and c = c and es = es])
      (use h g st head_readD [OF h] exts_read_psk [of S es out v] in \<open>auto simp: same_head_def\<close>)
qed

lemma ext_key_share_inv:
  assumes h: "head_read S d0 o0 extEnd es (r, out, a, b, c) WN_EXT_KEY_SHARE el r2"
  shows "runs (sh_ext_key_share (r_pos r2 + ucast el) (r2, out, a, b, c)) (extended S d0 o0 extEnd r)"
  unfolding sh_ext_key_share_def prod.case
proof (rule rdr.u16_got [OF got_set_err [OF head_readD(1) [OF h]]], unfold prod.case,
    rule rdr.u16_got, assumption, unfold prod.case)
  let ?d = "(d0 @ enc_exts es) @ be_bytes 2 (unat WN_EXT_KEY_SHARE) @ be_bytes 2 (unat el)"
  fix group r3 klen r4
  assume st3: "r_failed (set_err (a \<noteq> 0) r2) \<longrightarrow> r_failed r3"
    and g4: "rdr.got r4 S ((?d @ be_bytes 2 (unat (group :: word16))) @ be_bytes 2 (unat (klen :: word16)))"
    and st4: "r_failed r3 \<longrightarrow> r_failed r4"
  let ?n = "length ((?d @ be_bytes 2 (unat group)) @ be_bytes 2 (unat klen))"
  have k: "length S + unat (ucast klen :: word32) < 2 ^ 32"
    using head_readD(2) [OF h] word16_lt [of klen] by (simp del: word16_lt)
  show "runs (case wn_Read_Bytes r4 (ucast klen) of (p, r) \<Rightarrow>
      Some (set_err (r_pos r \<noteq> r_pos r2 + ucast el) r,
        out\<lparr>sh_group := group, sh_keyShare := p, sh_keyShareLen := ucast klen\<rparr>, 1, b, c)) (extended S d0 o0 extEnd r)"
  proof (rule rdr.raw_got [OF g4 k, where k = "\<lambda>x. case x of (p, r) \<Rightarrow> Some (set_err (r_pos r \<noteq> r_pos r2 + ucast el) r,
        out\<lparr>sh_group := group, sh_keyShare := p, sh_keyShareLen := ucast klen\<rparr>, 1, b, c)"], unfold prod.case runs_Some)
    fix p :: "word32 option" and r5
    let ?key = "take (unat (ucast klen :: word32)) (drop ?n S)"
    assume g5: "rdr.got r5 S (((?d @ be_bytes 2 (unat group)) @ be_bytes 2 (unat klen)) @ ?key)"
      and st5: "r_failed r4 \<longrightarrow> r_failed r5"
      and p: "map_option unat p = (if r_failed r5 then None else Some ?n)"
      and len: "\<not> r_failed r5 \<longrightarrow> ?n + unat (ucast klen :: word32) \<le> length S"
    show "extended S d0 o0 extEnd r (set_err (r_pos r5 \<noteq> r_pos r2 + ucast el) r5,
        out\<lparr>sh_group := group, sh_keyShare := p, sh_keyShareLen := ucast klen\<rparr>, 1, b, c)"
    proof (cases "r_failed r5")
      case True
      then show ?thesis
        using loop_inv_failed [OF _ got_set_err [OF g5]] h
        by (auto simp: extended_def head_read_def loop_inv_def same_head_def)
    next
      case False
      then have lk: "length ?key = unat klen" using len by simp
      have pt: "points_to S p ?key"
        using p False len lk by (auto simp: points_to_def)
      show ?thesis
        by (rule extendedI [where e = "KeyShareExt group ?key" and out = out and a = a and b = b and c = c and es = es])
          (use h g5 st3 st4 st5 head_readD [OF h] exts_read_key_share [OF _ _ pt, of es out "ucast klen" group] lk
            in \<open>auto simp: same_head_def\<close>)
    qed
  qed
qed

lemma ext_body_inv:
  assumes inv: "loop_inv S d0 o0 extEnd es (r, out, a, b, c)" and nf: "\<not> r_failed r"
    and big: "length S + 65536 < 2 ^ 32"
  shows "runs (sh_ext_body extEnd (r, out, a, b, c)) (extended S d0 o0 extEnd r)"
proof -
  let ?d = "d0 @ enc_exts es"
  have g0: "rdr.got r S ?d" and hd: "same_head out o0"
    using inv by (simp_all add: loop_inv_def)
  show ?thesis
    unfolding sh_ext_body_def prod.case
  proof (rule rdr.u16_got [OF g0], unfold prod.case, rule rdr.u16_got, assumption, unfold prod.case)
    fix et el :: word16 and r1 r2
    assume g2: "rdr.got r2 S ((?d @ be_bytes 2 (unat et)) @ be_bytes 2 (unat el))"
    have fail: "extended S d0 o0 extEnd r (set_err True r2, out, a, b, c)"
      unfolding extended_def using loop_inv_failed [OF _ got_set_err [OF g2] hd] by auto
    have "head_read S d0 o0 extEnd es (r, out, a, b, c) et el r2" if "\<not> extEnd < r_pos r2 + ucast el"
      using inv nf big g2 that by (simp add: head_read_def not_less)
    then show "runs (let eEnd = r_pos r2 + ucast el in
       if extEnd < eEnd then Some (set_err True r2, out, a, b, c)
       else if et = WN_EXT_KEY_SHARE then sh_ext_key_share eEnd (r2, out, a, b, c)
       else if et = WN_EXT_SUPPORTED_VER then sh_ext_version eEnd (r2, out, a, b, c)
       else if et = WN_EXT_PRE_SHARED then sh_ext_psk eEnd (r2, out, a, b, c)
       else Some (set_err True r2, out, a, b, c)) (extended S d0 o0 extEnd r)"
      using fail by (auto simp: Let_def intro: ext_key_share_inv ext_version_inv ext_psk_inv)
  qed
qed

text \<open>The loop ends, and unless the reader has failed it ends at the end of the block.\<close>

lemma ext_loop_inv:
  assumes "loop_inv S d0 o0 extEnd es s" and "length S + 65536 < 2 ^ 32"
  shows "runs (sh_ext_loop extEnd s) (\<lambda>s'. (\<exists>es'. loop_inv S d0 o0 extEnd es' s') \<and>
    (\<not> r_failed (fst s') \<longrightarrow> \<not> r_failed (fst s) \<and> r_at (fst s') = unat extEnd))"
  using assms(1)
proof (induction "if r_failed (fst s) then 0 else Suc (length S) - r_at (fst s)" arbitrary: s es rule: less_induct)
  case less
  obtain r out a b c where s: "s = (r, out, a, b, c)" by (metis prod.exhaust)
  have g: "rdr.got r S (d0 @ enc_exts es)" using less.prems s by (simp add: loop_inv_def)
  show ?case
  proof (cases "r_pos r < extEnd \<and> r_err r = 0")
    case True
    then have nf: "\<not> r_failed r" by (simp add: r_failed_def)
    have "runs (sh_ext_body extEnd s) (\<lambda>s'. runs (sh_ext_loop extEnd s') (\<lambda>s'. (\<exists>es'. loop_inv S d0 o0 extEnd es' s') \<and>
        (\<not> r_failed (fst s') \<longrightarrow> r_at (fst s') = unat extEnd)))"
      unfolding s
    proof (rule runs_mono [OF ext_body_inv [OF less.prems [unfolded s] nf assms(2)]])
      fix s'
      assume "extended S d0 o0 extEnd r s'"
      then obtain es' where inv: "loop_inv S d0 o0 extEnd es' s'" and adv: "r_failed (fst s') \<or> r_at r < r_at (fst s')"
        by (auto simp: extended_def)
      show "runs (sh_ext_loop extEnd s') (\<lambda>s'. (\<exists>es'. loop_inv S d0 o0 extEnd es' s') \<and>
        (\<not> r_failed (fst s') \<longrightarrow> r_at (fst s') = unat extEnd))"
        using adv nf r_at_bound [OF g]
        by (intro runs_mono [OF less.hyps [OF _ inv]]) (auto simp: s)
    qed
    then show ?thesis
      using True s nf by (subst sh_ext_loop.simps) (simp add: runs_bind)
  next
    case False
    have "r_at r = unat extEnd" if "\<not> r_failed r"
      using False that less.prems s by (auto simp: loop_inv_def r_failed_def r_at_def word_less_nat_alt)
    then show ?thesis
      using False less.prems s by (subst sh_ext_loop.simps) auto
  qed
qed

section \<open>The parser accepts only encodings\<close>

lemma or_eq_0: "(a :: 'a::len word) OR b = 0 \<longleftrightarrow> a = 0 \<and> b = 0"
  by (metis or_eq_0_iff)

lemma xor_eq_0: "(a :: 'a::len word) XOR b = 0 \<longleftrightarrow> a = b"
  by (metis xor.left_commute xor.right_neutral xor_self_eq)

lemma sh_diff_fold:
  "length xs = length ys \<Longrightarrow>
   fold (\<lambda>(a, b) diff. diff OR (a XOR b)) (zip xs ys) (d :: byte) = 0 \<longleftrightarrow> d = 0 \<and> xs = ys"
  by (induction xs ys arbitrary: d rule: list_induct2) (auto simp: or_eq_0 xor_eq_0)

lemma sh_diff_0: "length rnd = 32 \<Longrightarrow> sh_diff rnd = 0 \<longleftrightarrow> rnd = wn_hrr_random"
  unfolding sh_diff_def by (subst sh_diff_fold) (simp_all add: wn_hrr_random_def)

definition fresh :: "wn_ServerHello \<Rightarrow> bool" where
  "fresh out \<longleftrightarrow> sh_group out = 0 \<and> sh_keyShareLen out = 0 \<and> sh_keyShare out = None \<and>
     sh_version out = 0 \<and> sh_pskSelected out = - 1"

lemma loop_inv_start:
  assumes "rdr.got r S d" and "fresh out" and "\<not> r_failed r \<longrightarrow> r_at r \<le> unat extEnd"
  shows "loop_inv S d out extEnd [] (r, out, 0, 0, 0)"
  using assms by (simp add: loop_inv_def enc_exts_def same_head_def exts_read_def fresh_def)

text \<open>What the parser knows behind the session identifier, cipher suite and extension length.\<close>

definition head_of :: "byte \<Rightarrow> word32 \<Rightarrow> word16 \<Rightarrow> bytes \<Rightarrow> byte \<Rightarrow> bytes \<Rightarrow> word16 \<Rightarrow> byte \<Rightarrow> word16 \<Rightarrow> bytes" where
  "head_of type hsLen lver rnd sidLen sid cipher compression extLen =
     ([type] @ be_bytes 3 (unat hsLen) @ be_bytes 2 (unat lver) @ rnd) @ [sidLen] @ sid @
     be_bytes 2 (unat cipher) @ [compression] @ be_bytes 2 (unat extLen)"

lemma encoding_of_head:
  assumes S: "S = head_of type hsLen lver rnd sidLen sid cipher compression extLen @ enc_exts es"
    and "unat sidLen = length sid" and "length rnd = 32" and "length (enc_exts es) = unat extLen"
    and "type = WN_HS_SERVER_HELLO" and "lver = 0x0303" and "compression = 0" and "unat hsLen = length S - 4"
  shows "S = enc_sh \<lparr>m_random = rnd, m_sid = sid, m_cipher = cipher, m_exts = es\<rparr>"
proof -
  have "[sidLen] = be_bytes 1 (length sid)"
    using assms(2) by (simp flip: assms(2))
  moreover have "length S = 44 + (length sid + unat extLen)"
    unfolding S using assms(3,4) by (simp add: head_of_def)
  then have "unat hsLen = length (enc_sh_body \<lparr>m_random = rnd, m_sid = sid, m_cipher = cipher, m_exts = es\<rparr>)"
    using assms(3,4,8) by (simp add: enc_sh_body_def)
  ultimately show ?thesis
    unfolding S head_of_def enc_sh_def using assms(4-7) by (simp add: enc_sh_body_def)
qed

lemma accepted_encoding:
  assumes inv: "loop_inv S (head_of type hsLen lver rnd sidLen sid cipher compression extLen) o0 extEnd es (r', out', a, b, c)"
    and nf: "\<not> r_failed r'" and at: "r_at r' = unat extEnd" "unat extEnd = length S"
    and e: "unat extEnd = length (head_of type hsLen lver rnd sidLen sid cipher compression extLen) + unat extLen"
    and hd: "unat sidLen = length sid" "length rnd = 32" "rnd \<noteq> wn_hrr_random"
    and ok: "type = WN_HS_SERVER_HELLO" "lver = 0x0303" "compression = 0" "unat hsLen = length S - 4"
    and o0: "points_to S (sh_random o0) rnd" "points_to S (sh_sessionId o0) sid" "sh_sessionIdLen o0 = sidLen"
      "sh_cipher o0 = cipher" "sh_isHelloRetry o0 = 0"
  shows "\<exists>m. S = enc_sh m \<and> sh_wf m \<and> sh_read S m out'"
proof -
  let ?d = "head_of type hsLen lver rnd sidLen sid cipher compression extLen"
  let ?m = "\<lparr>m_random = rnd, m_sid = sid, m_cipher = cipher, m_exts = es\<rparr>"
  have g: "rdr.got r' S (?d @ enc_exts es)" and sh: "same_head out' o0"
    and ex: "exts_read S es out'" "distinct (map ext_type es)"
    using inv nf by (simp_all add: loop_inv_def)
  have l: "length (enc_exts es) = unat extLen" "length (?d @ enc_exts es) = length S"
    using got_pos [OF g nf] at e by simp_all
  have S: "S = ?d @ enc_exts es"
    using rdr.got_prefix [OF g nf] l(2) by (metis append_self_conv drop_all order_refl)
  have "S = enc_sh ?m"
    by (rule encoding_of_head [OF S hd(1,2) l(1) ok])
  moreover have "sh_wf ?m"
    using hd ex l(1) byte_lt_256 [of sidLen] word16_lt [of extLen]
    by (simp add: sh_wf_def del: byte_lt_256 byte_le_255 word16_lt)
  moreover have "sh_read S ?m out'"
    using sh ex o0 hd(1) by (simp add: sh_read_def same_head_def)
  ultimately show ?thesis by blast
qed

lemma parse_rest_sound:
  assumes g: "rdr.got r S ([type] @ be_bytes 3 (unat hsLen) @ be_bytes 2 (unat lver) @ rnd)"
    and big: "length S + 65536 < 2 ^ 32" and len: "unat msgLen = length S"
    and out: "fresh out" "sh_isHelloRetry out = 0"
    and rnd: "\<not> r_failed r \<longrightarrow> length rnd = 32 \<and> (type = WN_HS_SERVER_HELLO \<longrightarrow> rnd \<noteq> wn_hrr_random) \<and> points_to S (sh_random out) rnd"
  shows "runs (sh_parse_rest msgLen type hsLen lver r out) (\<lambda>(ret, out'). sh_isHelloRetry out' = 0 \<and> ret \<in> {0, WOLFNANO_E_INVALID_ARG} \<and>
    (ret = 0 \<longrightarrow> (\<exists>m. S = enc_sh m \<and> sh_wf m \<and> sh_read S m out')))"
  unfolding sh_parse_rest_def
proof (rule rdr.u8_got [OF g], unfold prod.case, goal_cases)
  case (1 sidLen r1)
  note r1 = 1
  let ?d1 = "([type] @ be_bytes 3 (unat hsLen) @ be_bytes 2 (unat lver) @ rnd) @ [sidLen]"
  have k: "length S + unat (ucast sidLen :: word32) < 2 ^ 32"
    using big byte_lt_256 [of sidLen] by (simp del: byte_lt_256 byte_le_255)
  show ?case
  proof (rule rdr.raw_got [OF r1(1) k], unfold prod.case,
      rule rdr.u16_got, assumption, unfold prod.case, rule rdr.u8_got, assumption, unfold prod.case,
      rule rdr.u16_got, assumption, unfold prod.case)
    fix sid :: "word32 option" and r2 cipher r3 compression r4 extLen r5
    let ?sid = "take (unat (ucast sidLen :: word32)) (drop (length ?d1) S)"
    let ?d5 = "(((?d1 @ ?sid) @ be_bytes 2 (unat (cipher :: word16))) @ [compression]) @ be_bytes 2 (unat (extLen :: word16))"
    assume st2: "r_failed r1 \<longrightarrow> r_failed r2"
      and p: "map_option unat sid = (if r_failed r2 then None else Some (length ?d1))"
      and l2: "\<not> r_failed r2 \<longrightarrow> length ?d1 + unat (ucast sidLen :: word32) \<le> length S"
      and st3: "r_failed r2 \<longrightarrow> r_failed r3" and st4: "r_failed r3 \<longrightarrow> r_failed r4"
      and g5: "rdr.got r5 S ?d5" and st5: "r_failed r4 \<longrightarrow> r_failed r5"
    let ?out = "out\<lparr>sh_sessionId := sid, sh_sessionIdLen := sidLen, sh_cipher := cipher\<rparr>"
    let ?over = "r_pos r5 + ucast extLen > msgLen"
    let ?extEnd = "if ?over then msgLen else r_pos r5 + ucast extLen"
    have fresh: "fresh ?out" using out(1) by (simp add: fresh_def)
    have start: "loop_inv S ?d5 ?out ?extEnd [] (set_err ?over r5, ?out, 0, 0, 0)"
      using pos_add [OF g5 big, of extLen] got_set_err [OF g5] fresh by (intro loop_inv_start) auto
    show "runs (let out = ?out; over = ?over; extEnd = if over then msgLen else r_pos r5 + ucast extLen;
          r = set_err over r5 in
        sh_ext_loop extEnd (r, out, 0, 0, 0) \<bind> (\<lambda>(r, out, seenKs, seenVer, seenPsk).
        Some (if r_err r \<noteq> 0 \<or> type \<noteq> WN_HS_SERVER_HELLO \<or> hsLen \<noteq> msgLen - 4 \<or> sh_random out = None \<or>
              lver \<noteq> 0x0303 \<or> compression \<noteq> 0 \<or> extEnd \<noteq> msgLen
           then WOLFNANO_E_INVALID_ARG else WOLFNANO_SUCCESS, out)))
      (\<lambda>(ret, out'). sh_isHelloRetry out' = 0 \<and> ret \<in> {0, WOLFNANO_E_INVALID_ARG} \<and>
        (ret = 0 \<longrightarrow> (\<exists>m. S = enc_sh m \<and> sh_wf m \<and> sh_read S m out')))"
      unfolding Let_def runs_bind
    proof (rule runs_mono [OF ext_loop_inv [OF start big]], clarify)
      fix r' out' a b c es
      assume inv: "loop_inv S ?d5 ?out ?extEnd es (r', out', a, b, c)"
        and fin: "\<not> r_failed (fst (r', out', a, b, c)) \<longrightarrow> \<not> r_failed (fst (set_err ?over r5, ?out, 0 :: byte, 0 :: byte, 0 :: byte)) \<and>
          r_at (fst (r', out', a, b, c)) = unat ?extEnd"
      show "runs (Some (if r_err r' \<noteq> 0 \<or> type \<noteq> WN_HS_SERVER_HELLO \<or> hsLen \<noteq> msgLen - 4 \<or> sh_random out' = None \<or>
              lver \<noteq> 0x0303 \<or> compression \<noteq> 0 \<or> ?extEnd \<noteq> msgLen
           then WOLFNANO_E_INVALID_ARG else WOLFNANO_SUCCESS, out'))
        (\<lambda>(ret, out'). sh_isHelloRetry out' = 0 \<and> ret \<in> {0, WOLFNANO_E_INVALID_ARG} \<and>
          (ret = 0 \<longrightarrow> (\<exists>m. S = enc_sh m \<and> sh_wf m \<and> sh_read S m out')))"
      proof -
        have hr: "sh_isHelloRetry out' = 0"
          using inv out(2) by (simp add: loop_inv_def same_head_def)
        show ?thesis
      proof (cases "r_err r' \<noteq> 0 \<or> type \<noteq> WN_HS_SERVER_HELLO \<or> hsLen \<noteq> msgLen - 4 \<or> sh_random out' = None \<or>
              lver \<noteq> 0x0303 \<or> compression \<noteq> 0 \<or> ?extEnd \<noteq> msgLen")
        case False
        then have nf': "\<not> r_failed r'" by (simp add: r_failed_def)
        then have nf5: "\<not> ?over" "\<not> r_failed r5" and at: "r_at r' = unat ?extEnd" using fin by simp_all
        have nf2: "\<not> r_failed r2" and nf: "\<not> r_failed r"
          using nf5 st2 st3 st4 st5 r1(2) by auto
        have hsLen: "unat hsLen = length S - 4"
        proof -
          have "4 \<le> length S" using rdr.got_prefix [OF g nf] by simp
          then have "(4 :: word32) \<le> msgLen" using len by (simp add: word_le_nat_alt)
          then show ?thesis using False len by (simp add: unat_sub_no_wrap)
        qed
        have sl: "unat sidLen = length ?sid" and ps: "points_to S sid ?sid"
          using l2 nf2 p by (auto simp: points_to_def)
        have "\<exists>m. S = enc_sh m \<and> sh_wf m \<and> sh_read S m out'"
        proof (rule accepted_encoding)
          show "loop_inv S (head_of type hsLen lver rnd sidLen ?sid cipher compression extLen) ?out ?extEnd es (r', out', a, b, c)"
            using inv by (simp add: head_of_def)
          show "unat ?extEnd = length (head_of type hsLen lver rnd sidLen ?sid cipher compression extLen) + unat extLen"
            using nf5 pos_add [OF g5 big, of extLen] got_pos [OF g5] by (simp add: head_of_def)
        qed (use False nf nf' at len sl ps rnd out hsLen in simp_all)
        then show ?thesis using False hr by simp
      qed (use hr in simp)
      qed
    qed
  qed
qed

definition is_hrr :: "bytes \<Rightarrow> bool" where
  "is_hrr S \<longleftrightarrow> 38 \<le> length S \<and> S ! 0 = WN_HS_SERVER_HELLO \<and> take 32 (drop 6 S) = wn_hrr_random"

lemma length_hrr_random [simp]: "length wn_hrr_random = 32"
  by (simp add: wn_hrr_random_def)

lemma wf_Reader_Init: "unat n \<le> length b \<Longrightarrow> unat n + 3 < 2 ^ 32 \<Longrightarrow> rdr.got (wn_Reader_Init b n) (take (unat n) b) []"
  by (auto simp: rdr.got_def wn_Reader_Init_def reader_obs)

lemma parse_sound:
  assumes mem: "unat msgLen \<le> length msg" and big: "unat msgLen + 65536 < 2 ^ 32" and S: "S = take (unat msgLen) msg"
  shows "runs (wn_ServerHello_Parse (Some msg) msgLen (Some o0)) (\<lambda>(ret, out). \<exists>o'. out = Some o' \<and>
    ret \<in> {0, WOLFNANO_E_INVALID_ARG} \<and> (sh_isHelloRetry o' \<noteq> 0 \<longleftrightarrow> is_hrr S) \<and>
    (is_hrr S \<longrightarrow> ret = 0 \<and> points_to S (sh_random o') wn_hrr_random) \<and>
    (\<not> is_hrr S \<longrightarrow> ret = 0 \<longrightarrow> (\<exists>m. S = enc_sh m \<and> sh_wf m \<and> sh_read S m o')))"
proof -
  have g0: "rdr.got (wn_Reader_Init msg msgLen) S []"
    unfolding S using mem big by (intro wf_Reader_Init) simp_all
  have len: "unat msgLen = length S" using mem S by simp
  show ?thesis
    unfolding wn_ServerHello_Parse_def prod.case option.case
  proof (rule rdr.u8_got [OF g0], unfold prod.case, rule rdr.u24_got, assumption, unfold prod.case,
      rule rdr.u16_got, assumption, unfold prod.case, goal_cases)
    case (1 type r1 hsLen r2 lver r3)
    let ?d = "(([] @ [type]) @ be_bytes 3 (unat hsLen)) @ be_bytes 2 (unat lver)"
    have k: "length S + unat (32 :: word32) < 2 ^ 32" using big len by simp
    show ?case
    proof (rule rdr.raw_got [OF 1(7) k], unfold prod.case)
      fix random :: "word32 option" and r4
      let ?rnd = "take (unat (32 :: word32)) (drop (length ?d) S)"
      assume g4: "rdr.got r4 S (?d @ ?rnd)"
        and p: "map_option unat random = (if r_failed r4 then None else Some (length ?d))"
        and l4: "\<not> r_failed r4 \<longrightarrow> length ?d + unat (32 :: word32) \<le> length S"
        and f4: "\<not> r_failed r3 \<longrightarrow> (r_failed r4 \<longleftrightarrow> length S < length ?d + unat (32 :: word32))"
      let ?o = "sh_clear\<lparr>sh_random := random\<rparr>"
      have g4': "rdr.got r4 S ([type] @ be_bytes 3 (unat hsLen) @ be_bytes 2 (unat lver) @ ?rnd)"
        using g4 by simp
      have pt: "points_to S random ?rnd" if "\<not> r_failed r4"
        using p l4 that by (auto simp: points_to_def)
      have rd: "mem_read msg (unat q) 32 = Some ?rnd" if "random = Some q" "\<not> r_failed r4" for q
        using that p l4 S mem by (auto simp: mem_read_def drop_take)
      have hrr: "is_hrr S \<longleftrightarrow> type = WN_HS_SERVER_HELLO \<and> ?rnd = wn_hrr_random" if "\<not> r_failed r4"
      proof -
        have "S ! 0 = type"
          using rdr.got_prefix [OF g4 that] by (metis append_Cons append_Nil nth_Cons_0)
        then show ?thesis using l4 that by (simp add: is_hrr_def)
      qed
      have nhrr: "\<not> is_hrr S" if "r_failed r4"
      proof -
        have "\<not> r_failed (wn_Reader_Init msg msgLen)" by (simp add: wn_Reader_Init_def r_failed_def)
        then have "length S < 38" using 1 f4 that by auto
        then show ?thesis by (simp add: is_hrr_def)
      qed
      show "runs (sh_check_hrr msg r4 type ?o \<bind> (\<lambda>out.
          if sh_isHelloRetry out = 0 then
            sh_parse_rest msgLen type hsLen lver r4 out \<bind> (\<lambda>(ret, out). Some (ret, Some out))
          else Some (WOLFNANO_SUCCESS, Some out)))
        (\<lambda>(ret, out). \<exists>o'. out = Some o' \<and>
    ret \<in> {0, WOLFNANO_E_INVALID_ARG} \<and> (sh_isHelloRetry o' \<noteq> 0 \<longleftrightarrow> is_hrr S) \<and>
    (is_hrr S \<longrightarrow> ret = 0 \<and> points_to S (sh_random o') wn_hrr_random) \<and>
    (\<not> is_hrr S \<longrightarrow> ret = 0 \<longrightarrow> (\<exists>m. S = enc_sh m \<and> sh_wf m \<and> sh_read S m o')))"
      proof (cases "is_hrr S")
        case True
        then have nf: "\<not> r_failed r4" using nhrr by blast
        then obtain q where "random = Some q" using p by auto
        then show ?thesis
          using True nf hrr [OF nf] rd [OF _ nf] pt [OF nf]
          by (simp add: sh_check_hrr_def sh_clear_def sh_diff_0 r_failed_def runs_bind)
      next
        case False
        have eq: "sh_check_hrr msg r4 type ?o = Some ?o"
          using False hrr rd l4 by (auto simp: sh_check_hrr_def r_failed_def sh_diff_0 split: option.splits)
        have "runs (sh_parse_rest msgLen type hsLen lver r4 ?o) (\<lambda>(ret, out'). sh_isHelloRetry out' = 0 \<and> ret \<in> {0, WOLFNANO_E_INVALID_ARG} \<and>
            (ret = 0 \<longrightarrow> (\<exists>m. S = enc_sh m \<and> sh_wf m \<and> sh_read S m out')))"
          using big len pt hrr False l4
          by (intro parse_rest_sound [OF g4']) (auto simp: fresh_def sh_clear_def)
        then show ?thesis
          unfolding eq using False
          by (auto simp: runs_bind sh_clear_def elim!: runs_mono)
      qed
    qed
  qed
qed

section \<open>The parser accepts every encoding\<close>

lemma expects_end:
  assumes "rdr.expects r d xs" and "length (d @ xs) + 65536 < 2 ^ 32"
  shows "unat (r_pos r) = length d" and "unat (r_pos r + ucast (n :: word16)) = length d + unat n"
    and "r_err r = 0" and "\<not> r_failed r"
proof -
  have g: "rdr.got r (d @ xs) d" using assms(1) by (simp add: rdr.expects_def rdr.got_def)
  show nf: "\<not> r_failed r" using assms(1) by (simp add: rdr.expects_def)
  show "unat (r_pos r) = length d" using assms(1) by (simp add: rdr.expects_def r_at_def)
  show "unat (r_pos r + ucast n) = length d + unat n"
    using pos_add [OF g, of n] assms(2) got_pos [OF g nf] by simp
  show "r_err r = 0" using nf by (simp add: r_failed_def)
qed

definition unseen :: "sh_ext list \<Rightarrow> byte \<Rightarrow> byte \<Rightarrow> byte \<Rightarrow> bool" where
  "unseen es a b c \<longleftrightarrow> distinct (map ext_type es) \<and>
     (WN_EXT_KEY_SHARE \<in> ext_type ` set es \<longrightarrow> a = 0) \<and>
     (WN_EXT_SUPPORTED_VER \<in> ext_type ` set es \<longrightarrow> b = 0) \<and>
     (WN_EXT_PRE_SHARED \<in> ext_type ` set es \<longrightarrow> c = 0)"

lemma set_err_False [simp]: "set_err False r = r"
  by (simp add: set_err_def)

lemma expects_set_err:
  assumes "rdr.expects r' d' xs" and "length (d' @ xs) + 65536 < 2 ^ 32" and "unat e = length d'"
  shows "set_err (r_pos r' \<noteq> e) r' = r'"
  using expects_end(1) [OF assms(1,2)] assms(3) by (simp add: word_unat_eq_iff)

definition accepted :: "bytes \<Rightarrow> bytes \<Rightarrow> wn_ServerHello \<Rightarrow> sh_ext list \<Rightarrow> sh_loop \<Rightarrow> bool" where
  "accepted d rest out es s \<longleftrightarrow> (case s of (r', out', a', b', c') \<Rightarrow>
     rdr.expects r' d rest \<and> same_head out' out \<and> unseen es a' b' c')"

lemma version_accepts:
  assumes r: "rdr.expects r d (ext_body (SupportedVersionExt v) @ rest)"
    and big: "length (d @ ext_body (SupportedVersionExt v) @ rest) + 65536 < 2 ^ 32"
    and e: "unat eEnd = length (d @ ext_body (SupportedVersionExt v))" and new: "unseen (SupportedVersionExt v # es) a b c"
  shows "runs (sh_ext_version eEnd (r, out, a, b, c)) (accepted (d @ ext_body (SupportedVersionExt v)) rest out es)"
proof -
  have b: "b = 0" "unseen es a 1 c" using new by (auto simp: unseen_def)
  show ?thesis
    unfolding sh_ext_version_def prod.case
    by (rule rdr.u16_expect [of _ d v rest])
      (use r b expects_set_err [OF _ _ e, of _ rest] big in \<open>auto simp: accepted_def same_head_def\<close>)
qed

lemma psk_accepts:
  assumes r: "rdr.expects r d (ext_body (PreSharedExt v) @ rest)"
    and big: "length (d @ ext_body (PreSharedExt v) @ rest) + 65536 < 2 ^ 32"
    and e: "unat eEnd = length (d @ ext_body (PreSharedExt v))" and new: "unseen (PreSharedExt v # es) a b c"
  shows "runs (sh_ext_psk eEnd (r, out, a, b, c)) (accepted (d @ ext_body (PreSharedExt v)) rest out es)"
proof -
  have c: "c = 0" "unseen es a b 1" using new by (auto simp: unseen_def)
  show ?thesis
    unfolding sh_ext_psk_def prod.case
    by (rule rdr.u16_expect [of _ d v rest])
      (use r c expects_set_err [OF _ _ e, of _ rest] big in \<open>auto simp: accepted_def same_head_def\<close>)
qed

lemma key_share_accepts:
  assumes r: "rdr.expects r d (ext_body (KeyShareExt g k) @ rest)"
    and big: "length (d @ ext_body (KeyShareExt g k) @ rest) + 65536 < 2 ^ 32"
    and e: "unat eEnd = length (d @ ext_body (KeyShareExt g k))" and new: "unseen (KeyShareExt g k # es) a b c"
    and l: "length k < 65536"
  shows "runs (sh_ext_key_share eEnd (r, out, a, b, c)) (accepted (d @ ext_body (KeyShareExt g k)) rest out es)"
proof -
  let ?kl = "word_of_nat (length k) :: word16"
  have kl: "unat ?kl = length k" using l by (simp add: unat_of_nat)
  have a: "a = 0" "unseen es 1 b c" using new by (auto simp: unseen_def)
  have r': "rdr.expects (set_err (a \<noteq> 0) r) d (be_bytes 2 (unat g) @ be_bytes 2 (unat ?kl) @ k @ rest)"
    using r a kl by simp
  show ?thesis
    unfolding sh_ext_key_share_def prod.case
  proof (rule rdr.u16_expect [OF r'], unfold prod.case, rule rdr.u16_expect, assumption, unfold prod.case)
    fix r3 r4
    assume r4: "rdr.expects r4 ((d @ be_bytes 2 (unat g)) @ be_bytes 2 (unat ?kl)) (k @ rest)"
    show "runs (case wn_Read_Bytes r4 (ucast ?kl) of (p, r) \<Rightarrow> Some (set_err (r_pos r \<noteq> eEnd) r,
        out\<lparr>sh_group := g, sh_keyShare := p, sh_keyShareLen := ucast ?kl\<rparr>, 1, b, c))
      (accepted (d @ ext_body (KeyShareExt g k)) rest out es)"
      by (rule rdr.raw_expect [OF r4, where k = "\<lambda>x. case x of (p, r) \<Rightarrow> Some (set_err (r_pos r \<noteq> eEnd) r,
          out\<lparr>sh_group := g, sh_keyShare := p, sh_keyShareLen := ucast ?kl\<rparr>, 1, b, c)"])
        (use big kl l a expects_set_err [OF _ _ e, of _ rest] in \<open>auto simp: accepted_def same_head_def\<close>)
  qed
qed

lemma ext_body_accepts:
  assumes r: "rdr.expects r d (enc_ext e @ rest)" and big: "length (d @ enc_ext e @ rest) + 65536 < 2 ^ 32"
    and l: "length (ext_body e) < 65536" and fits: "length (d @ enc_ext e) \<le> unat extEnd" and new: "unseen (e # es) a b c"
  shows "runs (sh_ext_body extEnd (r, out, a, b, c)) (accepted (d @ enc_ext e) rest out es)"
proof -
  let ?el = "word_of_nat (length (ext_body e)) :: word16"
  let ?d = "(d @ be_bytes 2 (unat (ext_type e))) @ be_bytes 2 (unat ?el)"
  have el: "unat ?el = length (ext_body e)" using l by (simp add: unat_of_nat)
  have r0: "rdr.expects r d (be_bytes 2 (unat (ext_type e)) @ be_bytes 2 (unat ?el) @ ext_body e @ rest)"
    using r by (simp add: enc_ext_def el)
  have d: "d @ enc_ext e = ?d @ ext_body e" by (simp add: enc_ext_def el)
  show ?thesis
    unfolding sh_ext_body_def prod.case d
  proof (rule rdr.u16_expect [OF r0], unfold prod.case, rule rdr.u16_expect, assumption, unfold prod.case)
    fix r1 r2
    assume r2: "rdr.expects r2 ?d (ext_body e @ rest)"
    let ?stop = "r_pos r2 + ucast ?el"
    have fin: "unat ?stop = length (?d @ ext_body e)"
      using expects_end(2) [OF r2, of ?el] big el by (simp add: enc_ext_def)
    then have ne: "\<not> extEnd < ?stop" using fits d by (simp add: word_less_nat_alt)
    have b2: "length (?d @ ext_body e @ rest) + 65536 < 2 ^ 32"
      using big by (simp add: enc_ext_def)
    show "runs (let eEnd = ?stop in
       if extEnd < eEnd then Some (set_err True r2, out, a, b, c)
       else if ext_type e = WN_EXT_KEY_SHARE then sh_ext_key_share eEnd (r2, out, a, b, c)
       else if ext_type e = WN_EXT_SUPPORTED_VER then sh_ext_version eEnd (r2, out, a, b, c)
       else if ext_type e = WN_EXT_PRE_SHARED then sh_ext_psk eEnd (r2, out, a, b, c)
       else Some (set_err True r2, out, a, b, c)) (accepted (?d @ ext_body e) rest out es)"
    proof (cases e)
      case (KeyShareExt g k)
      then show ?thesis
        using key_share_accepts [OF _ _ _ new [unfolded KeyShareExt], of r2 ?d rest ?stop out] r2 b2 fin ne l by simp
    next
      case (SupportedVersionExt v)
      then show ?thesis
        using version_accepts [OF _ _ _ new [unfolded SupportedVersionExt], of r2 ?d rest ?stop out] r2 b2 fin ne by simp
    next
      case (PreSharedExt v)
      then show ?thesis
        using psk_accepts [OF _ _ _ new [unfolded PreSharedExt], of r2 ?d rest ?stop out] r2 b2 fin ne by simp
    qed
  qed
qed

lemma ext_loop_accepts:
  assumes "rdr.expects r d (enc_exts es)" and "length (d @ enc_exts es) + 65536 < 2 ^ 32"
    and "length (enc_exts es) < 65536" and "unat extEnd = length (d @ enc_exts es)" and "unseen es a b c"
  shows "runs (sh_ext_loop extEnd (r, out, a, b, c)) (accepted (d @ enc_exts es) [] out [])"
  using assms
proof (induction es arbitrary: r d out a b c)
  case Nil
  then show ?case
    using expects_end(1) [OF Nil.prems(1)]
    by (subst sh_ext_loop.simps) (simp add: enc_exts_def accepted_def same_head_def unseen_def word_less_nat_alt)
next
  case (Cons e es)
  have split: "enc_exts (e # es) = enc_ext e @ enc_exts es" by (simp add: enc_exts_def)
  have go: "r_pos r < extEnd \<and> r_err r = 0"
    using expects_end [OF Cons.prems(1,2)] Cons.prems(4) by (simp add: word_less_nat_alt split enc_ext_def)
  have body: "runs (sh_ext_body extEnd (r, out, a, b, c)) (accepted (d @ enc_ext e) (enc_exts es) out es)"
    using Cons.prems by (intro ext_body_accepts) (simp_all add: split enc_ext_def)
  have "runs (sh_ext_body extEnd (r, out, a, b, c)) (\<lambda>s. runs (sh_ext_loop extEnd s) (accepted (d @ enc_exts (e # es)) [] out []))"
  proof (rule runs_mono [OF body])
    fix s
    assume acc: "accepted (d @ enc_ext e) (enc_exts es) out es s"
    obtain r' out' a' b' c' where s: "s = (r', out', a', b', c')" by (metis prod.exhaust)
    have "runs (sh_ext_loop extEnd (r', out', a', b', c')) (accepted ((d @ enc_ext e) @ enc_exts es) [] out' [])"
      using Cons.prems acc s by (intro Cons.IH) (simp_all add: split accepted_def)
    then show "runs (sh_ext_loop extEnd s) (accepted (d @ enc_exts (e # es)) [] out [])"
      using acc s by (auto simp: accepted_def split same_head_def elim!: runs_mono)
  qed
  then show ?case
    using go by (subst sh_ext_loop.simps) (simp add: runs_bind)
qed

lemma parse_rest_accepts:
  assumes g: "rdr.expects r d ([word_of_nat (length sid)] @ sid @ be_bytes 2 (unat (cipher :: word16)) @ [0] @
      be_bytes 2 (length (enc_exts es)) @ enc_exts es)"
    and big: "unat msgLen + 65536 < 2 ^ 32" and len: "unat msgLen = length d + length sid + length (enc_exts es) + 6"
    and l: "length sid < 256" "length (enc_exts es) < 65536" "distinct (map ext_type es)"
    and ok: "type = WN_HS_SERVER_HELLO" "hsLen = msgLen - 4" "lver = 0x0303" "sh_random out \<noteq> None"
  shows "runs (sh_parse_rest msgLen type hsLen lver r out) (\<lambda>(ret, out'). ret = 0)"
proof -
  let ?sl = "word_of_nat (length sid) :: byte"
  let ?el = "word_of_nat (length (enc_exts es)) :: word16"
  have sl: "unat (ucast ?sl :: word32) = length sid" using l(1) by (simp add: unat_of_nat)
  have el: "unat ?el = length (enc_exts es)" using l(2) by (simp add: unat_of_nat)
  have g': "rdr.expects r d (?sl # sid @ be_bytes 2 (unat cipher) @ 0 # be_bytes 2 (unat ?el) @ enc_exts es)"
    using g el by simp
  show ?thesis
    unfolding sh_parse_rest_def
  proof (rule rdr.u8_expect [OF g'], unfold prod.case, rule rdr.raw_expect, assumption, rule sl, goal_cases)
    case (1 r1)
    show ?case using len big l by simp
  next
    case (2 r1 p r2)
    then have r2: "rdr.expects r2 ((d @ [?sl]) @ sid) (be_bytes 2 (unat cipher) @ 0 # be_bytes 2 (unat ?el) @ enc_exts es)"
      by simp
    show ?case
      unfolding prod.case
    proof (rule rdr.u16_expect [OF r2], unfold prod.case, rule rdr.u8_expect, assumption, unfold prod.case,
        rule rdr.u16_expect, assumption, unfold prod.case)
      fix r3 r4 r5
      let ?d = "((((d @ [?sl]) @ sid) @ be_bytes 2 (unat cipher)) @ [0]) @ be_bytes 2 (unat ?el)"
      let ?out = "out\<lparr>sh_sessionId := Some p, sh_sessionIdLen := ?sl, sh_cipher := cipher\<rparr>"
      assume r5: "rdr.expects r5 ?d (enc_exts es)"
      have b5: "length (?d @ enc_exts es) + 65536 < 2 ^ 32" using big len by simp
      have e: "unat (r_pos r5 + ucast ?el) = length (?d @ enc_exts es)"
        using expects_end(2) [OF r5 b5, of ?el] el by simp
      then have eq: "r_pos r5 + ucast ?el = msgLen" using len by (simp add: word_unat_eq_iff)
      have "runs (sh_ext_loop msgLen (r5, ?out, 0, 0, 0)) (accepted (?d @ enc_exts es) [] ?out [])"
        using ext_loop_accepts [OF r5 b5 l(2)] e eq l(3) by (simp add: unseen_def)
      then show "runs (let out = ?out; over = r_pos r5 + ucast ?el > msgLen;
            extEnd = if over then msgLen else r_pos r5 + ucast ?el; r = set_err over r5 in
          sh_ext_loop extEnd (r, out, 0, 0, 0) \<bind> (\<lambda>(r, out, seenKs, seenVer, seenPsk).
          Some (if r_err r \<noteq> 0 \<or> type \<noteq> WN_HS_SERVER_HELLO \<or> hsLen \<noteq> msgLen - 4 \<or> sh_random out = None \<or>
                lver \<noteq> 0x0303 \<or> 0 \<noteq> (0 :: byte) \<or> extEnd \<noteq> msgLen
             then WOLFNANO_E_INVALID_ARG else WOLFNANO_SUCCESS, out))) (\<lambda>(ret, out'). ret = 0)"
        using ok eq unfolding Let_def runs_bind
        by (auto simp: accepted_def same_head_def rdr.expects_def r_failed_def elim!: runs_mono)
    qed
  qed
qed

lemma length_enc_sh: "length (m_random m) = 32 \<Longrightarrow>
    length (enc_sh m) = 44 + length (m_sid m) + length (enc_exts (m_exts m))"
  by (simp add: enc_sh_def enc_sh_body_def)

lemma parse_accepts:
  assumes mem: "unat msgLen \<le> length msg" and big: "unat msgLen + 65536 < 2 ^ 32"
    and S: "take (unat msgLen) msg = enc_sh m" and wf: "sh_wf m"
  shows "runs (wn_ServerHello_Parse (Some msg) msgLen (Some o0)) (\<lambda>(ret, out). ret = 0)"
proof -
  let ?hs = "msgLen - 4"
  let ?tail = "[word_of_nat (length (m_sid m))] @ m_sid m @ be_bytes 2 (unat (m_cipher m)) @ [0] @
      be_bytes 2 (length (enc_exts (m_exts m))) @ enc_exts (m_exts m)"
  have l: "length (m_random m) = 32" "m_random m \<noteq> wn_hrr_random" "length (m_sid m) < 256"
    "length (enc_exts (m_exts m)) < 65536" "distinct (map ext_type (m_exts m))"
    using wf by (simp_all add: sh_wf_def)
  have len: "unat msgLen = 44 + length (m_sid m) + length (enc_exts (m_exts m))"
    using arg_cong [OF S, of length] mem length_enc_sh [OF l(1)] by simp
  then have "(4 :: word32) \<le> msgLen" by (simp add: word_le_nat_alt)
  then have hs: "unat ?hs = length (enc_sh_body m)"
    using len l(1) by (simp add: unat_sub_no_wrap enc_sh_body_def)
  have hs24: "unat ?hs < 2 ^ 24" using hs l by (simp add: enc_sh_body_def)
  have g0: "rdr.expects (wn_Reader_Init msg msgLen) []
      (WN_HS_SERVER_HELLO # be_bytes 3 (unat ?hs) @ be_bytes 2 (unat (0x0303 :: word16)) @ m_random m @ ?tail)"
    using wf_Reader_Init [OF mem] big S
    by (simp add: rdr.expects_def rdr.got_def wn_Reader_Init_def r_failed_def r_at_def enc_sh_def enc_sh_body_def hs)
  show ?thesis
    unfolding wn_ServerHello_Parse_def prod.case option.case
  proof (rule rdr.u8_expect [OF g0], unfold prod.case, rule rdr.u24_expect, assumption, rule hs24, unfold prod.case,
      rule rdr.u16_expect, assumption, unfold prod.case, rule rdr.raw_expect, assumption, goal_cases)
    case 1
    show ?case using l(1) by simp
  next
    case 2
    show ?case using l len big by simp
  next
    case (3 r1 r2 r3 p r4)
    let ?o = "sh_clear\<lparr>sh_random := Some p\<rparr>"
    have "mem_read (take (unat msgLen) msg) (unat p) 32 = Some (m_random m)"
      using 3(5) l(1) S by (simp add: mem_read_def enc_sh_def enc_sh_body_def)
    then have "mem_read msg (unat p) 32 = Some (m_random m)"
      using mem by (auto simp: mem_read_def drop_take split: if_splits)
    then have eq: "sh_check_hrr msg r4 WN_HS_SERVER_HELLO ?o = Some ?o"
      using l by (simp add: sh_check_hrr_def sh_diff_0)
    have "runs (sh_parse_rest msgLen WN_HS_SERVER_HELLO ?hs 0x0303 r4 ?o) (\<lambda>(ret, out'). ret = 0)"
      by (rule parse_rest_accepts [OF 3(4)]) (use l len big in simp_all)
    then show ?case
      unfolding prod.case eq by (auto simp: sh_clear_def runs_bind elim!: runs_mono)
  qed
qed

section \<open>Properties\<close>

text \<open>
  C21. For every input of \<open>msgLen\<close> bytes the parser ends without reading outside it. A
  HelloRetryRequest (the fixed random value) is recognised whatever follows. Any other input
  is accepted exactly when it is the encoding of a well-formed ServerHello: legacy version
  0x0303, null compression, key_share, supported_versions and pre_shared_key extensions, none
  twice, and nothing behind them. Then the result is the content of that message, with its
  pointers inside the input; otherwise the result is \<open>INVALID_ARG\<close>.
\<close>

theorem server_hello_exact:
  assumes "unat msgLen \<le> length msg" and "unat msgLen + 65536 < 2 ^ 32"
  shows "runs (wn_ServerHello_Parse (Some msg) msgLen (Some o0)) (\<lambda>(ret, out).
    let S = take (unat msgLen) msg in
    \<exists>o'. out = Some o' \<and> (sh_isHelloRetry o' \<noteq> 0 \<longleftrightarrow> is_hrr S) \<and>
      (if is_hrr S then ret = 0 \<and> points_to S (sh_random o') wn_hrr_random
       else if \<exists>m. sh_wf m \<and> S = enc_sh m
       then ret = 0 \<and> (\<exists>m. sh_wf m \<and> S = enc_sh m \<and> sh_read S m o')
       else ret = WOLFNANO_E_INVALID_ARG))"
proof (cases "\<exists>m. sh_wf m \<and> take (unat msgLen) msg = enc_sh m")
  case True
  then have "runs (wn_ServerHello_Parse (Some msg) msgLen (Some o0)) (\<lambda>(ret, out). ret = 0)"
    using parse_accepts assms by blast
  from runs_conj [OF this parse_sound [OF assms refl]] show ?thesis
  proof (rule runs_mono, goal_cases)
    case (1 x)
    then obtain o' where x: "x = (0, Some o')" by auto
    show ?case
      using 1 True unfolding x Let_def prod.case
      by (intro exI [of _ o']) (cases "is_hrr (take (unat msgLen) msg)"; simp; metis)
  qed
next
  case False
  from parse_sound [OF assms refl] show ?thesis
  proof (rule runs_mono, goal_cases)
    case (1 x)
    then obtain ret o' where x: "x = (ret, Some o')" by auto
    show ?case
      using 1 False unfolding x Let_def prod.case
      by (intro exI [of _ o']) (cases "is_hrr (take (unat msgLen) msg)"; simp; metis)
  qed
qed

text \<open>A concrete message, its acceptance, and the refusal of a shortened one.\<close>

definition demo_sh :: server_hello where
  "demo_sh = \<lparr>m_random = replicate 32 7, m_sid = [], m_cipher = 0x1301,
     m_exts = [SupportedVersionExt 0x0304, KeyShareExt 0x001d [1, 2, 3]]\<rparr>"

theorem server_hello_exact_witness:
  "runs (wn_ServerHello_Parse (Some (enc_sh demo_sh)) (word_of_nat (length (enc_sh demo_sh))) (Some sh_clear))
    (\<lambda>(ret, out). ret = 0)"
proof -
  have hrr: "wn_hrr_random \<noteq> replicate 32 7"
  proof
    assume "wn_hrr_random = replicate 32 7"
    then have "hd wn_hrr_random = hd (replicate 32 7)" by (rule arg_cong)
    then show False by (simp add: wn_hrr_random_def)
  qed
  have wf: "sh_wf demo_sh"
    using hrr by (simp add: sh_wf_def demo_sh_def enc_exts_def enc_ext_def)
  have l: "length (enc_sh demo_sh) = 61"
    by (simp add: enc_sh_def enc_sh_body_def demo_sh_def enc_exts_def enc_ext_def)
  have "\<not> is_hrr (enc_sh demo_sh)"
    using hrr by (simp add: is_hrr_def enc_sh_def enc_sh_body_def demo_sh_def)
  then show ?thesis
    using wf l by (intro runs_mono [OF server_hello_exact]) (auto simp: Let_def split: if_splits)
qed

end
