(* ===== verification/Wn_KeyShare.thy ===== *)
theory Wn_KeyShare
  imports Wn_Seam
begin

text \<open>
  The key shares of \<open>src/src/wn_keyshare.c\<close> and the X25519MLKEM768 hybrid of
  \<open>src/src/wn_hybrid.c\<close>. One of three groups is compiled in; the macros that choose it are
  fields of the parameter record. Key and RNG contexts belong to the crypto library.
\<close>

section \<open>Constants\<close>

abbreviation (input) WN_GROUP_X25519 :: int where "WN_GROUP_X25519 \<equiv> 0x001d"
abbreviation (input) WN_GROUP_SECP256R1 :: int where "WN_GROUP_SECP256R1 \<equiv> 0x0017"
abbreviation (input) WN_GROUP_X25519MLKEM768 :: int where "WN_GROUP_X25519MLKEM768 \<equiv> 0x11ec"
abbreviation (input) WN_HYBRID_MLKEM_PUB :: nat where "WN_HYBRID_MLKEM_PUB \<equiv> 1184"
abbreviation (input) WN_HYBRID_MLKEM_CT :: nat where "WN_HYBRID_MLKEM_CT \<equiv> 1088"
abbreviation (input) WC_ML_KEM_SS_SZ :: nat where "WC_ML_KEM_SS_SZ \<equiv> 32"
abbreviation (input) WN_HYBRID_X25519 :: nat where "WN_HYBRID_X25519 \<equiv> 32"
abbreviation (input) WN_HYBRID_CLIENT_SHARE :: word32 where "WN_HYBRID_CLIENT_SHARE \<equiv> 1216"
abbreviation (input) WN_HYBRID_SERVER_SHARE :: word32 where "WN_HYBRID_SERVER_SHARE \<equiv> 1120"
abbreviation (input) WN_HYBRID_SECRET :: word32 where "WN_HYBRID_SECRET \<equiv> 64"

definition WN_DEFAULT_GROUP :: "'o wc \<Rightarrow> int" where
  "WN_DEFAULT_GROUP P =
     (if WOLFNANO_HAVE_MLKEM_HYBRID P then WN_GROUP_X25519MLKEM768
      else if WOLFNANO_HAVE_ECDHE_P256 P then WN_GROUP_SECP256R1 else WN_GROUP_X25519)"

definition WN_DEFAULT_PUB_SZ :: "'o wc \<Rightarrow> word32" where
  "WN_DEFAULT_PUB_SZ P =
     (if WOLFNANO_HAVE_MLKEM_HYBRID P then 1216 else if WOLFNANO_HAVE_ECDHE_P256 P then 65 else 32)"

definition WN_DEFAULT_SRV_SHARE_SZ :: "'o wc \<Rightarrow> word32" where
  "WN_DEFAULT_SRV_SHARE_SZ P =
     (if WOLFNANO_HAVE_MLKEM_HYBRID P then 1120 else if WOLFNANO_HAVE_ECDHE_P256 P then 65 else 32)"

definition WN_DEFAULT_SECRET_SZ :: "'o wc \<Rightarrow> word32" where
  "WN_DEFAULT_SECRET_SZ P = (if WOLFNANO_HAVE_MLKEM_HYBRID P then 64 else 32)"

section \<open>The hybrid\<close>

record 'o wn_Hybrid =
  h_kem :: 'o
  h_x :: 'o
  kemInit :: int
  xInit :: int

definition wn_Hybrid_ClientKeyShare ::
    "'o wc \<Rightarrow> 'o wn_Hybrid option \<Rightarrow> 'o option \<Rightarrow> bytes option \<Rightarrow> word32 option \<Rightarrow>
     (int \<times> 'o wn_Hybrid option \<times> 'o option \<times> bytes \<times> word32 option) option" where
  "wn_Hybrid_ClientKeyShare P h rng out outLen =
     (case (h, rng, out, outLen) of
        (Some h, Some rng, Some out, Some ol) \<Rightarrow>
          let fail = (\<lambda>h rng out. Some (WOLFNANO_E_CRYPTO, Some h, Some rng, out, Some ol)) in
          (case wc_MlKemKey_Init P of (r, kem) \<Rightarrow>
           if r \<noteq> 0 then fail (h\<lparr>h_kem := kem\<rparr>) rng out
           else case wc_MlKemKey_MakeKey P kem rng of (r, kem, rng) \<Rightarrow>
           let h = h\<lparr>h_kem := kem, kemInit := 1\<rparr> in
           if r \<noteq> 0 then fail h rng out
           else case wc_MlKemKey_EncodePublicKey P kem of (r, pk) \<Rightarrow>
           mem_write out 0 pk \<bind> (\<lambda>out.
           if r \<noteq> 0 then fail h rng out
           else case wc_curve25519_init P of (r, x) \<Rightarrow>
           if r \<noteq> 0 then fail (h\<lparr>h_x := x\<rparr>) rng out
           else case wc_curve25519_make_key P rng x of (r, rng, x) \<Rightarrow>
           let h = h\<lparr>h_x := x, xInit := 1\<rparr> in
           if r \<noteq> 0 then fail h rng out
           else case wc_curve25519_export_public_ex P x 32 of (r, pk, xLen) \<Rightarrow>
           mem_write out WN_HYBRID_MLKEM_PUB pk \<bind> (\<lambda>out.
           if r \<noteq> 0 then fail h rng out
           else Some (WOLFNANO_SUCCESS, Some h, Some rng, out, Some WN_HYBRID_CLIENT_SHARE))))
      | _ \<Rightarrow> Some (WOLFNANO_E_INVALID_ARG, h, rng, buf out, outLen))"

text \<open>The steps of \<open>wn_Hybrid_ClientShared\<close> that fill the secret.\<close>

definition hybrid_client_secret ::
    "'o wc \<Rightarrow> 'o wn_Hybrid \<Rightarrow> bytes \<Rightarrow> bytes \<Rightarrow> (int \<times> bytes) option" where
  "hybrid_client_secret P h srvShare ss =
     mem_read srvShare 0 WN_HYBRID_MLKEM_CT \<bind> (\<lambda>ct.
     case wc_MlKemKey_Decapsulate P (h_kem h) ct of (r, kss) \<Rightarrow>
     mem_write ss 0 kss \<bind> (\<lambda>ss.
     if r \<noteq> 0 then Some (WOLFNANO_E_CRYPTO, ss)
     else case wc_curve25519_init P of (r, peer) \<Rightarrow>
     if r \<noteq> 0 then Some (WOLFNANO_E_CRYPTO, ss)
     else
       mem_read srvShare WN_HYBRID_MLKEM_CT WN_HYBRID_X25519 \<bind> (\<lambda>xpub.
       case wc_curve25519_import_public_ex P xpub peer of (r, peer) \<Rightarrow>
       if r \<noteq> 0 then Some (WOLFNANO_E_CRYPTO, ss)
       else case wc_curve25519_shared_secret_ex P (h_x h) peer 32 of (r, xss, xLen) \<Rightarrow>
       mem_write ss WC_ML_KEM_SS_SZ xss \<bind> (\<lambda>ss.
       Some (if r \<noteq> 0 then WOLFNANO_E_CRYPTO else WOLFNANO_SUCCESS, ss)))))"

definition wn_Hybrid_ClientShared ::
    "'o wc \<Rightarrow> 'o wn_Hybrid option \<Rightarrow> bytes option \<Rightarrow> word32 \<Rightarrow> bytes option \<Rightarrow> word32 option \<Rightarrow>
     (int \<times> bytes \<times> word32 option) option" where
  "wn_Hybrid_ClientShared P h srvShare srvLen ss ssLen =
     (case (h, srvShare, ss, ssLen) of
        (Some h, Some srv, Some ss, Some sl) \<Rightarrow>
          if srvLen \<noteq> WN_HYBRID_SERVER_SHARE then Some (WOLFNANO_E_INVALID_ARG, ss)
          else hybrid_client_secret P h srv ss
      | _ \<Rightarrow> Some (WOLFNANO_E_INVALID_ARG, buf ss)) \<bind> (\<lambda>(ret, out).
     if ret = WOLFNANO_SUCCESS then Some (ret, out, Some WN_HYBRID_SECRET)
     else if ss \<noteq> None then
       force_zero out 0 (unat WN_HYBRID_SECRET) \<bind> (\<lambda>out. Some (ret, out, ssLen))
     else Some (ret, out, ssLen))"

text \<open>
  The steps of \<open>wn_Hybrid_ServerRespond\<close> that fill the share and the secret: first the ML-KEM
  part, then the X25519 part.
\<close>

definition hybrid_server_kem ::
    "'o wc \<Rightarrow> bytes \<Rightarrow> 'o \<Rightarrow> bytes \<Rightarrow> bytes \<Rightarrow> (int \<times> 'o \<times> bytes \<times> bytes) option" where
  "hybrid_server_kem P cliShare rng srvShare ss =
     (case wc_MlKemKey_Init P of (r, kem) \<Rightarrow>
      if r \<noteq> 0 then Some (WOLFNANO_E_CRYPTO, rng, srvShare, ss)
      else
        mem_read cliShare 0 WN_HYBRID_MLKEM_PUB \<bind> (\<lambda>pk.
        case wc_MlKemKey_DecodePublicKey P kem pk of (r, kem) \<Rightarrow>
        if r \<noteq> 0 then Some (WOLFNANO_E_CRYPTO, rng, srvShare, ss)
        else case wc_MlKemKey_Encapsulate P kem rng of (r, ct, kss, rng) \<Rightarrow>
        mem_write srvShare 0 ct \<bind> (\<lambda>srvShare.
        mem_write ss 0 kss \<bind> (\<lambda>ss.
        Some (if r \<noteq> 0 then WOLFNANO_E_CRYPTO else WOLFNANO_SUCCESS, rng, srvShare, ss)))))"

definition hybrid_server_x25519 ::
    "'o wc \<Rightarrow> bytes \<Rightarrow> 'o \<Rightarrow> bytes \<Rightarrow> bytes \<Rightarrow> (int \<times> 'o \<times> bytes \<times> bytes) option" where
  "hybrid_server_x25519 P cliShare rng srvShare ss =
     (case wc_curve25519_init P of (r, srv) \<Rightarrow>
      if r \<noteq> 0 then Some (WOLFNANO_E_CRYPTO, rng, srvShare, ss)
      else case wc_curve25519_make_key P rng srv of (r, rng, srv) \<Rightarrow>
      if r \<noteq> 0 then Some (WOLFNANO_E_CRYPTO, rng, srvShare, ss)
      else case wc_curve25519_export_public_ex P srv 32 of (r, xpub, xLen) \<Rightarrow>
      mem_write srvShare WN_HYBRID_MLKEM_CT xpub \<bind> (\<lambda>srvShare.
      if r \<noteq> 0 then Some (WOLFNANO_E_CRYPTO, rng, srvShare, ss)
      else case wc_curve25519_init P of (r, peer) \<Rightarrow>
      if r \<noteq> 0 then Some (WOLFNANO_E_CRYPTO, rng, srvShare, ss)
      else
        mem_read cliShare WN_HYBRID_MLKEM_PUB WN_HYBRID_X25519 \<bind> (\<lambda>cpub.
        case wc_curve25519_import_public_ex P cpub peer of (r, peer) \<Rightarrow>
        if r \<noteq> 0 then Some (WOLFNANO_E_CRYPTO, rng, srvShare, ss)
        else case wc_curve25519_shared_secret_ex P srv peer xLen of (r, xss, xLen) \<Rightarrow>
        mem_write ss WC_ML_KEM_SS_SZ xss \<bind> (\<lambda>ss.
        Some (if r \<noteq> 0 then WOLFNANO_E_CRYPTO else WOLFNANO_SUCCESS, rng, srvShare, ss)))))"

definition hybrid_server_secret ::
    "'o wc \<Rightarrow> bytes \<Rightarrow> 'o \<Rightarrow> bytes \<Rightarrow> bytes \<Rightarrow> (int \<times> 'o \<times> bytes \<times> bytes) option" where
  "hybrid_server_secret P cliShare rng srvShare ss =
     hybrid_server_kem P cliShare rng srvShare ss \<bind> (\<lambda>(ret, rng, srvShare, ss).
     if ret \<noteq> WOLFNANO_SUCCESS then Some (ret, rng, srvShare, ss)
     else hybrid_server_x25519 P cliShare rng srvShare ss)"

definition wn_Hybrid_ServerRespond ::
    "'o wc \<Rightarrow> bytes option \<Rightarrow> word32 \<Rightarrow> 'o option \<Rightarrow> bytes option \<Rightarrow> word32 option \<Rightarrow> bytes option \<Rightarrow> word32 option \<Rightarrow>
     (int \<times> 'o option \<times> bytes \<times> word32 option \<times> bytes \<times> word32 option) option" where
  "wn_Hybrid_ServerRespond P cliShare cliLen rng srvShare srvLen ss ssLen =
     (case (cliShare, rng, srvShare, srvLen, ss, ssLen) of
        (Some cli, Some g, Some srv, Some vl, Some s, Some sl) \<Rightarrow>
          if cliLen \<noteq> WN_HYBRID_CLIENT_SHARE then Some (WOLFNANO_E_INVALID_ARG, rng, srv, s)
          else hybrid_server_secret P cli g srv s \<bind> (\<lambda>(ret, g, srv, s). Some (ret, Some g, srv, s))
      | _ \<Rightarrow> Some (WOLFNANO_E_INVALID_ARG, rng, buf srvShare, buf ss)) \<bind> (\<lambda>(ret, g, srv, s).
     if ret = WOLFNANO_SUCCESS then
       Some (ret, g, srv, Some WN_HYBRID_SERVER_SHARE, s, Some WN_HYBRID_SECRET)
     else if ss \<noteq> None then
       force_zero s 0 (unat WN_HYBRID_SECRET) \<bind> (\<lambda>s. Some (ret, g, srv, srvLen, s, ssLen))
     else Some (ret, g, srv, srvLen, s, ssLen))"

definition wn_Hybrid_Free :: "'o wc \<Rightarrow> 'o wn_Hybrid option \<Rightarrow> int \<times> 'o wn_Hybrid option" where
  "wn_Hybrid_Free P h =
     (case h of
        None \<Rightarrow> (WOLFNANO_E_INVALID_ARG, None)
      | Some h \<Rightarrow>
          let h = (if kemInit h \<noteq> 0 then h\<lparr>h_kem := wc_MlKemKey_Free P (h_kem h), kemInit := 0\<rparr> else h);
              h = (if xInit h \<noteq> 0 then h\<lparr>h_x := wc_curve25519_free P (h_x h), xInit := 0\<rparr> else h) in
          (WOLFNANO_SUCCESS, Some h))"

section \<open>Key shares\<close>

text \<open>Of the three keys only the one of the configured group exists in a build.\<close>

record 'o wn_KeyShare =
  ks_hybrid :: "'o wn_Hybrid"
  ks_ecc :: 'o
  ks_x25519 :: 'o
  ks_group :: int

definition wn_KeyShare_Init :: "'o wc \<Rightarrow> 'o wn_KeyShare option \<Rightarrow> int \<Rightarrow> int \<times> 'o wn_KeyShare option" where
  "wn_KeyShare_Init P ks grp =
     (case ks of
        None \<Rightarrow> (WOLFNANO_E_INVALID_ARG, None)
      | Some ks \<Rightarrow>
          let ks = ks\<lparr>ks_group := grp\<rparr> in
          if WOLFNANO_HAVE_MLKEM_HYBRID P then
            (if grp = WN_GROUP_X25519MLKEM768 then
               (WOLFNANO_SUCCESS,
                Some (ks\<lparr>ks_hybrid := \<lparr>h_kem = zero_ctx P, h_x = zero_ctx P, kemInit = 0, xInit = 0\<rparr>\<rparr>))
             else (WOLFNANO_E_UNSUPPORTED, Some ks))
          else if WOLFNANO_HAVE_ECDHE_P256 P then
            (if grp = WN_GROUP_SECP256R1 then
               (case wc_ecc_init P of (r, k) \<Rightarrow>
                  (if r \<noteq> 0 then WOLFNANO_E_CRYPTO else WOLFNANO_SUCCESS, Some (ks\<lparr>ks_ecc := k\<rparr>)))
             else (WOLFNANO_E_UNSUPPORTED, Some ks))
          else
            (if grp = WN_GROUP_X25519 then
               (case wc_curve25519_init P of (r, k) \<Rightarrow>
                  (if r \<noteq> 0 then WOLFNANO_E_CRYPTO else WOLFNANO_SUCCESS, Some (ks\<lparr>ks_x25519 := k\<rparr>)))
             else (WOLFNANO_E_UNSUPPORTED, Some ks)))"

definition generate_p256 ::
    "'o wc \<Rightarrow> 'o wn_KeyShare \<Rightarrow> 'o \<Rightarrow> bytes \<Rightarrow> word32 \<Rightarrow> (int \<times> 'o wn_KeyShare \<times> 'o \<times> bytes \<times> word32) option" where
  "generate_p256 P ks rng pub pubLen =
     (case wc_ecc_make_key_ex P rng (ks_ecc ks) of (r, rng, k) \<Rightarrow>
      let ks = ks\<lparr>ks_ecc := k\<rparr> in
      if r \<noteq> 0 then Some (WOLFNANO_E_CRYPTO, ks, rng, pub, pubLen)
      else case wc_ecc_set_rng P k rng of (r, k) \<Rightarrow>
      let ks = ks\<lparr>ks_ecc := k\<rparr> in
      if r \<noteq> 0 then Some (WOLFNANO_E_CRYPTO, ks, rng, pub, pubLen)
      else case wc_ecc_export_x963 P k 65 of (r, pk, n) \<Rightarrow>
      mem_write pub 0 pk \<bind> (\<lambda>pub.
      Some (if r \<noteq> 0 then WOLFNANO_E_CRYPTO else WOLFNANO_SUCCESS, ks, rng, pub, n)))"

definition generate_x25519 ::
    "'o wc \<Rightarrow> 'o wn_KeyShare \<Rightarrow> 'o \<Rightarrow> bytes \<Rightarrow> word32 \<Rightarrow> (int \<times> 'o wn_KeyShare \<times> 'o \<times> bytes \<times> word32) option" where
  "generate_x25519 P ks rng pub pubLen =
     (case wc_curve25519_make_key P rng (ks_x25519 ks) of (r, rng, k) \<Rightarrow>
      let ks = ks\<lparr>ks_x25519 := k\<rparr> in
      if r \<noteq> 0 then Some (WOLFNANO_E_CRYPTO, ks, rng, pub, pubLen)
      else case wc_curve25519_export_public_ex P k 32 of (r, pk, n) \<Rightarrow>
      mem_write pub 0 pk \<bind> (\<lambda>pub.
      Some (if r \<noteq> 0 then WOLFNANO_E_CRYPTO else WOLFNANO_SUCCESS, ks, rng, pub, n)))"

definition wn_KeyShare_Generate ::
    "'o wc \<Rightarrow> 'o wn_KeyShare option \<Rightarrow> 'o option \<Rightarrow> bytes option \<Rightarrow> word32 option \<Rightarrow>
     (int \<times> 'o wn_KeyShare option \<times> 'o option \<times> bytes \<times> word32 option) option" where
  "wn_KeyShare_Generate P ks rng pub pubLen =
     (case (ks, rng, pub, pubLen) of
        (Some ks, Some rng, Some pub, Some pl) \<Rightarrow>
          let pack = (\<lambda>(ret, ks, rng, pub, pl). Some (ret, Some ks, Some rng, pub, Some pl));
              unsupported = Some (WOLFNANO_E_UNSUPPORTED, Some ks, Some rng, pub, Some pl) in
          if WOLFNANO_HAVE_MLKEM_HYBRID P then
            (if ks_group ks = WN_GROUP_X25519MLKEM768 then
               wn_Hybrid_ClientKeyShare P (Some (ks_hybrid ks)) (Some rng) (Some pub) (Some pl) \<bind>
                 (\<lambda>(ret, h, rng, pub, pl). h \<bind> (\<lambda>h. Some (ret, Some (ks\<lparr>ks_hybrid := h\<rparr>), rng, pub, pl)))
             else unsupported)
          else if WOLFNANO_HAVE_ECDHE_P256 P then
            (if ks_group ks = WN_GROUP_SECP256R1 then generate_p256 P ks rng pub pl \<bind> pack else unsupported)
          else
            (if ks_group ks = WN_GROUP_X25519 then generate_x25519 P ks rng pub pl \<bind> pack else unsupported)
      | _ \<Rightarrow> Some (WOLFNANO_E_INVALID_ARG, ks, rng, buf pub, pubLen))"

definition shared_p256 ::
    "'o wc \<Rightarrow> 'o \<Rightarrow> bytes \<Rightarrow> word32 \<Rightarrow> bytes \<Rightarrow> word32 \<Rightarrow> (int \<times> bytes \<times> word32) option" where
  "shared_p256 P k peerPub peerPubLen out outLen =
     (if peerPubLen \<noteq> 65 then Some (WOLFNANO_E_INVALID_ARG, out, outLen)
      else case wc_ecc_init P of (r, peer) \<Rightarrow>
      if r \<noteq> 0 then Some (WOLFNANO_E_CRYPTO, out, outLen)
      else
        mem_read peerPub 0 (unat peerPubLen) \<bind> (\<lambda>pk.
        case wc_ecc_import_x963_ex P pk peer of (r, peer) \<Rightarrow>
        if r \<noteq> 0 then Some (WOLFNANO_E_CRYPTO, out, outLen)
        else case wc_ecc_shared_secret P k peer 32 of (r, s, n) \<Rightarrow>
        mem_write out 0 s \<bind> (\<lambda>out.
        Some (if r \<noteq> 0 then WOLFNANO_E_CRYPTO else WOLFNANO_SUCCESS, out, n))))"

definition shared_x25519 ::
    "'o wc \<Rightarrow> 'o \<Rightarrow> bytes \<Rightarrow> word32 \<Rightarrow> bytes \<Rightarrow> word32 \<Rightarrow> (int \<times> bytes \<times> word32) option" where
  "shared_x25519 P k peerPub peerPubLen out outLen =
     (if peerPubLen \<noteq> 32 then Some (WOLFNANO_E_INVALID_ARG, out, outLen)
      else case wc_curve25519_init P of (r, peer) \<Rightarrow>
      if r \<noteq> 0 then Some (WOLFNANO_E_CRYPTO, out, outLen)
      else
        mem_read peerPub 0 (unat peerPubLen) \<bind> (\<lambda>pk.
        case wc_curve25519_import_public_ex P pk peer of (r, peer) \<Rightarrow>
        if r \<noteq> 0 then Some (WOLFNANO_E_CRYPTO, out, outLen)
        else case wc_curve25519_shared_secret_ex P k peer 32 of (r, s, n) \<Rightarrow>
        mem_write out 0 s \<bind> (\<lambda>out.
        Some (if r \<noteq> 0 then WOLFNANO_E_CRYPTO else WOLFNANO_SUCCESS, out, n))))"

definition wn_KeyShare_Shared ::
    "'o wc \<Rightarrow> 'o wn_KeyShare option \<Rightarrow> bytes option \<Rightarrow> word32 \<Rightarrow> bytes option \<Rightarrow> word32 option \<Rightarrow>
     (int \<times> bytes \<times> word32 option) option" where
  "wn_KeyShare_Shared P ks peerPub peerPubLen out outLen =
     (case (ks, peerPub, out, outLen) of
        (Some ks, Some peer, Some out, Some ol) \<Rightarrow>
          let pack = (\<lambda>(ret, out, ol). Some (ret, out, Some ol));
              unsupported = Some (WOLFNANO_E_UNSUPPORTED, out, Some ol) in
          if WOLFNANO_HAVE_MLKEM_HYBRID P then
            (if ks_group ks = WN_GROUP_X25519MLKEM768 then
               wn_Hybrid_ClientShared P (Some (ks_hybrid ks)) (Some peer) peerPubLen (Some out) (Some ol)
             else unsupported)
          else if WOLFNANO_HAVE_ECDHE_P256 P then
            (if ks_group ks = WN_GROUP_SECP256R1 then
               shared_p256 P (ks_ecc ks) peer peerPubLen out ol \<bind> pack else unsupported)
          else
            (if ks_group ks = WN_GROUP_X25519 then
               shared_x25519 P (ks_x25519 ks) peer peerPubLen out ol \<bind> pack else unsupported)
      | _ \<Rightarrow> Some (WOLFNANO_E_INVALID_ARG, buf out, outLen))"

definition wn_KeyShare_Free :: "'o wc \<Rightarrow> 'o wn_KeyShare option \<Rightarrow> int \<times> 'o wn_KeyShare option" where
  "wn_KeyShare_Free P ks =
     (case ks of
        None \<Rightarrow> (WOLFNANO_E_INVALID_ARG, None)
      | Some ks \<Rightarrow>
          if WOLFNANO_HAVE_MLKEM_HYBRID P then
            (if ks_group ks = WN_GROUP_X25519MLKEM768 then
               (case wn_Hybrid_Free P (Some (ks_hybrid ks)) of
                  (ret, Some h) \<Rightarrow> (ret, Some (ks\<lparr>ks_hybrid := h\<rparr>))
                | (ret, None) \<Rightarrow> (ret, Some ks))
             else (WOLFNANO_SUCCESS, Some ks))
          else if WOLFNANO_HAVE_ECDHE_P256 P then
            (WOLFNANO_SUCCESS,
             Some (if ks_group ks = WN_GROUP_SECP256R1 then ks\<lparr>ks_ecc := wc_ecc_free P (ks_ecc ks)\<rparr> else ks))
          else
            (WOLFNANO_SUCCESS,
             Some (if ks_group ks = WN_GROUP_X25519 then ks\<lparr>ks_x25519 := wc_curve25519_free P (ks_x25519 ks)\<rparr> else ks)))"

section \<open>Sizes and memory\<close>

lemma kex_sizesD:
  assumes "kex_sizes P"
  shows "wc_RNG_GenerateBlock P g n = (r, b, g') \<Longrightarrow> length b = unat n"
    and "wc_curve25519_export_public_ex P k 32 = (r, b, m) \<Longrightarrow> length b = 32 \<and> m = 32"
    and "wc_curve25519_shared_secret_ex P k q 32 = (r, b, m) \<Longrightarrow> length b = 32 \<and> m = 32"
    and "wc_ecc_export_x963 P k 65 = (r, b, m) \<Longrightarrow> length b = 65 \<and> m = 65"
    and "wc_ecc_shared_secret P k q 32 = (r, b, m) \<Longrightarrow> length b = 32 \<and> m = 32"
    and "wc_MlKemKey_EncodePublicKey P k = (r, b) \<Longrightarrow> length b = 1184"
    and "wc_MlKemKey_Encapsulate P k g = (r, ct, ss, g') \<Longrightarrow> length ct = 1088 \<and> length ss = 32"
    and "wc_MlKemKey_Decapsulate P k ct = (r, ss) \<Longrightarrow> length ss = 32"
  using assms unfolding kex_sizes_def by (metis fst_conv snd_conv)+

lemma hybrid_client_secret_runs:
  assumes "kex_sizes P" and "1120 \<le> length srv" and "64 \<le> length ss"
  shows "runs (hybrid_client_secret P h srv ss) (\<lambda>(ret, ss'). length ss' = length ss \<and> drop 64 ss' = drop 64 ss \<and>
    ret \<in> {0, WOLFNANO_E_CRYPTO})"
  unfolding hybrid_client_secret_def
  using assms(2,3) kex_sizesD [OF assms(1)]
  by (auto simp: runs_bind runs_mem split: prod.splits)

lemma hybrid_server_kem_runs:
  assumes "kex_sizes P" and "1216 \<le> length cli" and "1120 \<le> length srv" and "64 \<le> length ss"
  shows "runs (hybrid_server_kem P cli g srv ss) (\<lambda>(ret, g', srv', ss'). length ss' = length ss \<and>
    drop 64 ss' = drop 64 ss \<and> length srv' = length srv \<and> ret \<in> {0, WOLFNANO_E_CRYPTO})"
  unfolding hybrid_server_kem_def
  using assms(2-4) kex_sizesD(7) [OF assms(1)]
  by (auto simp: runs_bind runs_mem split: prod.splits)

lemma hybrid_server_x25519_runs:
  assumes "kex_sizes P" and "1216 \<le> length cli" and "1120 \<le> length srv" and "64 \<le> length ss"
  shows "runs (hybrid_server_x25519 P cli g srv ss) (\<lambda>(ret, g', srv', ss'). length ss' = length ss \<and>
    drop 64 ss' = drop 64 ss \<and> length srv' = length srv \<and> ret \<in> {0, WOLFNANO_E_CRYPTO})"
proof -
  obtain r1 x where 1: "wc_curve25519_init P = (r1, x)" by (metis prod.exhaust)
  obtain r2 g2 k where 2: "wc_curve25519_make_key P g x = (r2, g2, k)" by (metis prod.exhaust)
  obtain r3 pk n where 3: "wc_curve25519_export_public_ex P k 32 = (r3, pk, n)" by (metis prod.exhaust)
  obtain r4 q where 4: "wc_curve25519_import_public_ex P (take 32 (drop 1184 cli)) x = (r4, q)" by (metis prod.exhaust)
  obtain r5 s m where 5: "wc_curve25519_shared_secret_ex P k q 32 = (r5, s, m)" by (metis prod.exhaust)
  show ?thesis
    unfolding hybrid_server_x25519_def
    using assms(2-4) 1 2 3 4 5 kex_sizesD(2) [OF assms(1) 3] kex_sizesD(3) [OF assms(1) 5]
    by (auto simp: runs_bind runs_mem)
qed

lemma hybrid_server_secret_runs:
  assumes "kex_sizes P" and "1216 \<le> length cli" and "1120 \<le> length srv" and "64 \<le> length ss"
  shows "runs (hybrid_server_secret P cli g srv ss) (\<lambda>(ret, g', srv', ss'). length ss' = length ss \<and>
    drop 64 ss' = drop 64 ss \<and> length srv' = length srv \<and> ret \<in> {0, WOLFNANO_E_CRYPTO})"
  unfolding hybrid_server_secret_def runs_bind
proof (rule runs_mono [OF hybrid_server_kem_runs [OF assms]], goal_cases)
  case (1 x)
  obtain ret g' srv' ss' where x: "x = (ret, g', srv', ss')" by (metis prod.exhaust)
  then show ?case
    using 1 runs_mono [OF hybrid_server_x25519_runs [OF assms(1,2), of srv' ss' g']] assms(3,4) by auto
qed

text \<open>The agreement of the two primitives, with the calls' results named.\<close>

lemma x25519_agree:
  assumes "kex_sizes P" and "x25519_ok P"
  obtains x ga a pa gb b pb qa qb s where "wc_curve25519_init P = (0, x)"
    and "wc_curve25519_make_key P g x = (0, ga, a)" and "wc_curve25519_make_key P g' x = (0, gb, b)"
    and "wc_curve25519_export_public_ex P a 32 = (0, pa, 32)" and "wc_curve25519_export_public_ex P b 32 = (0, pb, 32)"
    and "wc_curve25519_import_public_ex P pb x = (0, qb)" and "wc_curve25519_import_public_ex P pa x = (0, qa)"
    and "wc_curve25519_shared_secret_ex P a qb 32 = (0, s, 32)" and "wc_curve25519_shared_secret_ex P b qa 32 = (0, s, 32)"
    and "length pa = 32" and "length pb = 32" and "length s = 32"
proof -
  obtain x where x: "wc_curve25519_init P = (0, x)"
    using assms(2) by (cases "wc_curve25519_init P") (simp add: x25519_ok_def)
  have ok: "fst (wc_curve25519_make_key P h x) = 0 \<and>
      (a = snd (snd (wc_curve25519_make_key P h x)) \<longrightarrow> b = snd (snd (wc_curve25519_make_key P h' x)) \<longrightarrow>
       pa = fst (snd (wc_curve25519_export_public_ex P a 32)) \<longrightarrow> pb = fst (snd (wc_curve25519_export_public_ex P b 32)) \<longrightarrow>
       fst (wc_curve25519_export_public_ex P a 32) = 0 \<and> fst (wc_curve25519_import_public_ex P pb x) = 0 \<and>
       fst (wc_curve25519_shared_secret_ex P a (snd (wc_curve25519_import_public_ex P pb x)) 32) = 0 \<and>
       fst (snd (wc_curve25519_shared_secret_ex P a (snd (wc_curve25519_import_public_ex P pb x)) 32)) =
       fst (snd (wc_curve25519_shared_secret_ex P b (snd (wc_curve25519_import_public_ex P pa x)) 32)))" for h h' a b pa pb
    using assms(2) x unfolding x25519_ok_def by simp
  obtain ga a where a: "wc_curve25519_make_key P g x = (0, ga, a)"
    using ok [of g] by (cases "wc_curve25519_make_key P g x") auto
  obtain gb b where b: "wc_curve25519_make_key P g' x = (0, gb, b)"
    using ok [of g'] by (cases "wc_curve25519_make_key P g' x") auto
  obtain pa where pa: "wc_curve25519_export_public_ex P a 32 = (0, pa, 32)" "length pa = 32"
    using ok [of g a b g'] a b kex_sizesD(2) [OF assms(1), of a]
    by (cases "wc_curve25519_export_public_ex P a 32") auto
  obtain pb where pb: "wc_curve25519_export_public_ex P b 32 = (0, pb, 32)" "length pb = 32"
    using ok [of g' b a g] a b kex_sizesD(2) [OF assms(1), of b]
    by (cases "wc_curve25519_export_public_ex P b 32") auto
  obtain qb where qb: "wc_curve25519_import_public_ex P pb x = (0, qb)"
    using ok [of g a b g' pa pb] a b pa pb by (cases "wc_curve25519_import_public_ex P pb x") auto
  obtain qa where qa: "wc_curve25519_import_public_ex P pa x = (0, qa)"
    using ok [of g' b a g pb pa] a b pa pb by (cases "wc_curve25519_import_public_ex P pa x") auto
  obtain s where s: "wc_curve25519_shared_secret_ex P a qb 32 = (0, s, 32)" "length s = 32"
    using ok [of g a b g' pa pb] a b pa pb qb kex_sizesD(3) [OF assms(1), of a qb]
    by (cases "wc_curve25519_shared_secret_ex P a qb 32") auto
  have "wc_curve25519_shared_secret_ex P b qa 32 = (0, s, 32)"
    using ok [of g a b g' pa pb] ok [of g' b a g pb pa] a b pa pb qa qb s kex_sizesD(3) [OF assms(1), of b qa]
    by (cases "wc_curve25519_shared_secret_ex P b qa 32") auto
  then show thesis using that x a b pa pb qa qb s by blast
qed

lemma mlkem_agree:
  assumes "kex_sizes P" and "mlkem_ok P"
  obtains i ga a pk e ct s gb where "wc_MlKemKey_Init P = (0, i)" and "wc_MlKemKey_MakeKey P i g = (0, a, ga)"
    and "wc_MlKemKey_EncodePublicKey P a = (0, pk)" and "wc_MlKemKey_DecodePublicKey P i pk = (0, e)"
    and "wc_MlKemKey_Encapsulate P e g' = (0, ct, s, gb)" and "wc_MlKemKey_Decapsulate P a ct = (0, s)"
    and "length pk = 1184" and "length ct = 1088" and "length s = 32"
proof -
  obtain i where i: "wc_MlKemKey_Init P = (0, i)"
    using assms(2) by (cases "wc_MlKemKey_Init P") (simp add: mlkem_ok_def)
  obtain a ga where a: "wc_MlKemKey_MakeKey P i g = (0, a, ga)"
    using assms(2) i by (cases "wc_MlKemKey_MakeKey P i g") (auto simp: mlkem_ok_def dest: spec [of _ g])
  obtain r1 pk where pk: "wc_MlKemKey_EncodePublicKey P a = (r1, pk)" by (metis prod.exhaust)
  obtain r2 e where e: "wc_MlKemKey_DecodePublicKey P i pk = (r2, e)" by (metis prod.exhaust)
  obtain r3 ct s gb where c: "wc_MlKemKey_Encapsulate P e g' = (r3, ct, s, gb)" by (metis prod.exhaust)
  have "r1 = 0 \<and> r2 = 0 \<and> r3 = 0 \<and> wc_MlKemKey_Decapsulate P a ct = (0, s)"
    using assms(2) i a pk e c unfolding mlkem_ok_def by (metis fst_conv snd_conv)
  then show thesis
    using that [of i a ga pk e ct s gb] i a pk e c kex_sizesD(6,7) [OF assms(1)] by blast
qed

section \<open>Properties\<close>

text \<open>
  C34. The hybrid handshake agrees: the share the client makes is 1216 bytes, the server's
  answer to it is 1120 bytes, and from that answer the client derives the same 64-byte secret
  as the server, the ML-KEM secret followed by the X25519 secret, without touching the bytes
  behind its buffers.
\<close>

theorem hybrid_agreement:
  assumes "kex_sizes P" and "x25519_ok P" and "mlkem_ok P"
    and "1216 \<le> length out" and "1120 \<le> length srv" and "64 \<le> length ss" and "64 \<le> length cs"
  shows "\<exists>h' g1 out' g2 srv' s.
    wn_Hybrid_ClientKeyShare P (Some h) (Some g) (Some out) (Some ol) = Some (0, Some h', Some g1, out', Some 1216) \<and>
    drop 1216 out' = drop 1216 out \<and>
    wn_Hybrid_ServerRespond P (Some out') 1216 (Some g') (Some srv) (Some vl) (Some ss) (Some sl) =
      Some (0, Some g2, srv', Some 1120, s @ drop 64 ss, Some 64) \<and> length s = 64 \<and>
    wn_Hybrid_ClientShared P (Some h') (Some srv') 1120 (Some cs) (Some cl) = Some (0, s @ drop 64 cs, Some 64)"
proof -
  obtain i ga a pk e ct sk gb where m: "wc_MlKemKey_Init P = (0, i)" "wc_MlKemKey_MakeKey P i g = (0, a, ga)"
      "wc_MlKemKey_EncodePublicKey P a = (0, pk)" "wc_MlKemKey_DecodePublicKey P i pk = (0, e)"
      "wc_MlKemKey_Encapsulate P e g' = (0, ct, sk, gb)" "wc_MlKemKey_Decapsulate P a ct = (0, sk)"
      "length pk = 1184" "length ct = 1088" "length sk = 32"
    using mlkem_agree [OF assms(1,3), of g g'] by metis
  obtain x gc c pc gd d pd qc qd sx where x: "wc_curve25519_init P = (0, x)"
      "wc_curve25519_make_key P ga x = (0, gc, c)" "wc_curve25519_make_key P gb x = (0, gd, d)"
      "wc_curve25519_export_public_ex P c 32 = (0, pc, 32)" "wc_curve25519_export_public_ex P d 32 = (0, pd, 32)"
      "wc_curve25519_import_public_ex P pd x = (0, qd)" "wc_curve25519_import_public_ex P pc x = (0, qc)"
      "wc_curve25519_shared_secret_ex P c qd 32 = (0, sx, 32)" "wc_curve25519_shared_secret_ex P d qc 32 = (0, sx, 32)"
      "length pc = 32" "length pd = 32" "length sx = 32"
    using x25519_agree [OF assms(1,2), of ga gb] by metis
  let ?h = "h\<lparr>h_kem := a, kemInit := 1, h_x := c, xInit := 1\<rparr>"
  let ?out = "pk @ pc @ drop 1216 out"
  let ?srv = "ct @ pd @ drop 1120 srv"
  have 1: "wn_Hybrid_ClientKeyShare P (Some h) (Some g) (Some out) (Some ol) = Some (0, Some ?h, Some gc, ?out, Some 1216)"
    using m x assms(4) by (simp add: wn_Hybrid_ClientKeyShare_def Let_def mem_write_in)
  have 2: "wn_Hybrid_ServerRespond P (Some ?out) 1216 (Some g') (Some srv) (Some vl) (Some ss) (Some sl) =
      Some (0, Some gd, ?srv, Some 1120, (sk @ sx) @ drop 64 ss, Some 64)"
    using m x assms(5,6)
    by (simp add: wn_Hybrid_ServerRespond_def hybrid_server_secret_def hybrid_server_kem_def
        hybrid_server_x25519_def mem_write_in mem_read_in)
  have 3: "wn_Hybrid_ClientShared P (Some ?h) (Some ?srv) 1120 (Some cs) (Some cl) = Some (0, (sk @ sx) @ drop 64 cs, Some 64)"
    using m x assms(5,7) by (simp add: wn_Hybrid_ClientShared_def hybrid_client_secret_def mem_write_in mem_read_in)
  have 4: "length (sk @ sx) = 64" "drop 1216 ?out = drop 1216 out" using m x by simp_all
  show ?thesis
    using 1 2 3 4 by blast
qed

theorem hybrid_agreement_witness:
  "\<exists>h' g1 out' g2 srv' s.
    wn_Hybrid_ClientKeyShare demo_wc (Some \<lparr>h_kem = [], h_x = [], kemInit = 0, xInit = 0\<rparr>) (Some [1, 2])
      (Some (replicate 1216 0)) (Some 0) = Some (0, Some h', Some g1, out', Some 1216) \<and>
    wn_Hybrid_ServerRespond demo_wc (Some out') 1216 (Some [3, 4]) (Some (replicate 1120 0)) (Some 0)
      (Some (replicate 64 0)) (Some 0) = Some (0, Some g2, srv', Some 1120, s, Some 64) \<and>
    wn_Hybrid_ClientShared demo_wc (Some h') (Some srv') 1120 (Some (replicate 64 0)) (Some 0) = Some (0, s, Some 64)"
  using hybrid_agreement [OF demo_kex_sizes demo_x25519 demo_mlkem, of "replicate 1216 0" "replicate 1120 0"
      "replicate 64 0" "replicate 64 0" "\<lparr>h_kem = [], h_x = [], kemInit = 0, xInit = 0\<rparr>" "[1, 2]" 0 "[3, 4]" 0 0 0]
  by auto

text \<open>
  C35. No partial secret survives a failure of the hybrid: whenever the client's derivation
  returns anything but success, for a refused length or a failing cryptographic call, the 64
  bytes of the secret buffer are zero, the bytes behind them are untouched and the length is
  not reported; on success the length is 64.
\<close>

theorem hybrid_no_partial_secret:
  assumes "kex_sizes P" and "64 \<le> length ss" and "srvLen = WN_HYBRID_SERVER_SHARE \<longrightarrow> 1120 \<le> length srv"
  shows "runs (wn_Hybrid_ClientShared P (Some h) (Some srv) srvLen (Some ss) (Some sl)) (\<lambda>(ret, ss', sl').
    drop 64 ss' = drop 64 ss \<and>
    (if ret = 0 then srvLen = WN_HYBRID_SERVER_SHARE \<and> sl' = Some 64
     else ret \<in> {WOLFNANO_E_INVALID_ARG, WOLFNANO_E_CRYPTO} \<and> sl' = Some sl \<and> take 64 ss' = replicate 64 0))"
proof (cases "srvLen = WN_HYBRID_SERVER_SHARE")
  case True
  have "runs (hybrid_client_secret P h srv ss) (\<lambda>(ret, ss'). length ss' = length ss \<and> drop 64 ss' = drop 64 ss \<and>
      ret \<in> {0, WOLFNANO_E_CRYPTO})"
    using hybrid_client_secret_runs [OF assms(1)] assms(2,3) True by blast
  then show ?thesis
    unfolding wn_Hybrid_ClientShared_def runs_bind
    by (simp add: True) (elim runs_mono, use assms(2) in \<open>auto simp: force_zero_def runs_bind runs_mem\<close>)
next
  case False
  then show ?thesis
    using assms(2) by (auto simp: wn_Hybrid_ClientShared_def runs_bind force_zero_def runs_mem)
qed

theorem hybrid_no_partial_secret_witness:
  "runs (wn_Hybrid_ClientShared demo_wc (Some \<lparr>h_kem = [], h_x = [], kemInit = 1, xInit = 1\<rparr>) (Some [])
      3 (Some (replicate 65 9)) (Some 7)) (\<lambda>(ret, ss', sl'). ret \<noteq> 0 \<longrightarrow> take 64 ss' = replicate 64 0)"
  by (rule runs_mono [OF hybrid_no_partial_secret [OF demo_kex_sizes]]) (auto split: if_splits)

end
