(* ===== verification/Wn_ClientHello.thy ===== *)
theory Wn_ClientHello
  imports Wn_Msg Wn_KeyShare
begin

text \<open>
  The ClientHello encoder of \<open>src/src/wn_clienthello.c\<close>: the calls of the writer in their
  order. The specification is the message as a tree of length-prefixed vectors
  (\<open>client_hello_wire\<close>), so that every length field the code computes by hand is checked
  against the vector it belongs to.
\<close>

section \<open>Operations\<close>

abbreviation (input) WN_HS_CLIENT_HELLO :: byte where "WN_HS_CLIENT_HELLO \<equiv> 1"
abbreviation (input) WN_EXT_SERVER_NAME :: word16 where "WN_EXT_SERVER_NAME \<equiv> 0"
abbreviation (input) WN_SNI_MAX_HOST :: word32 where "WN_SNI_MAX_HOST \<equiv> 255"
abbreviation (input) WN_EXT_SUPPORTED_GRP :: word16 where "WN_EXT_SUPPORTED_GRP \<equiv> 10"
abbreviation (input) WN_EXT_SIG_ALGS :: word16 where "WN_EXT_SIG_ALGS \<equiv> 13"
abbreviation (input) WN_CIPHER_AES_128_GCM_SHA256 :: word16 where "WN_CIPHER_AES_128_GCM_SHA256 \<equiv> 0x1301"

text \<open>The host name is a C string: its characters up to the terminating zero.\<close>

definition ch_server_name :: "bytes option \<Rightarrow> word32 \<Rightarrow> wn_Writer \<Rightarrow> wn_Writer option" where
  "ch_server_name serverName nameLen w =
     (if nameLen > 0 then do {
        w \<leftarrow> wn_Write_U16 w WN_EXT_SERVER_NAME;
        w \<leftarrow> wn_Write_U16 w (ucast (2 + 1 + 2 + nameLen));
        w \<leftarrow> wn_Write_U16 w (ucast (1 + 2 + nameLen));
        w \<leftarrow> wn_Write_U8 w 0;
        w \<leftarrow> wn_Write_U16 w (ucast nameLen);
        wn_Write_Bytes w serverName nameLen
      }
      else Some w)"

definition write_if :: "bool \<Rightarrow> word16 \<Rightarrow> wn_Writer \<Rightarrow> wn_Writer option" where
  "write_if c v w = (if c then wn_Write_U16 w v else Some w)"

definition ch_sig_algs :: "'o wc \<Rightarrow> wn_Writer \<Rightarrow> wn_Writer option" where
  "ch_sig_algs P w = do {
     w \<leftarrow> wn_Write_U16 w WN_EXT_SIG_ALGS;
     (saExt, w) \<leftarrow> wn_Write_LenStart w 2;
     (saList, w) \<leftarrow> wn_Write_LenStart w 2;
     w \<leftarrow> write_if (\<not> WOLFNANO_FIPS P \<and> WOLFSSL_HAVE_MLDSA P) (WN_MLDSA_SCHEME P) w;
     w \<leftarrow> write_if (\<not> WOLFNANO_FIPS P) 0x0807 w;
     w \<leftarrow> write_if (HAVE_ECC384 P \<and> WOLFSSL_SHA384 P) 0x0503 w;
     w \<leftarrow> wn_Write_U16 w 0x0403;
     w \<leftarrow> write_if (\<not> NO_RSA P \<and> WOLFSSL_SHA512 P) 0x0806 w;
     w \<leftarrow> write_if (\<not> NO_RSA P \<and> WOLFSSL_SHA384 P) 0x0805 w;
     w \<leftarrow> write_if (\<not> NO_RSA P) 0x0804 w;
     w \<leftarrow> wn_Write_LenEnd w saList 2;
     wn_Write_LenEnd w saExt 2
   }"

definition ch_key_share :: "'o wc \<Rightarrow> bytes option \<Rightarrow> word32 \<Rightarrow> wn_Writer \<Rightarrow> wn_Writer option" where
  "ch_key_share P pub pubLen w = do {
     w \<leftarrow> wn_Write_U16 w 51;
     w \<leftarrow> wn_Write_U16 w (ucast (2 + 2 + 2 + pubLen));
     w \<leftarrow> wn_Write_U16 w (ucast (2 + 2 + pubLen));
     w \<leftarrow> wn_Write_U16 w (word_of_int (WN_DEFAULT_GROUP P));
     w \<leftarrow> wn_Write_U16 w (ucast pubLen);
     wn_Write_Bytes w pub pubLen
   }"

definition ch_write ::
    "'o wc \<Rightarrow> bytes option \<Rightarrow> bytes option \<Rightarrow> word32 \<Rightarrow> bytes option \<Rightarrow> word32 \<Rightarrow> bytes option \<Rightarrow> word32 \<Rightarrow>
     wn_Writer \<Rightarrow> wn_Writer option" where
  "ch_write P random32 sessionId sessionIdLen pub pubLen serverName nameLen w = do {
     w \<leftarrow> wn_Write_U8 w WN_HS_CLIENT_HELLO;
     (hsLen, w) \<leftarrow> wn_Write_LenStart w 3;
     w \<leftarrow> wn_Write_U16 w 0x0303;
     w \<leftarrow> wn_Write_Bytes w random32 32;
     w \<leftarrow> wn_Write_U8 w (ucast sessionIdLen);
     w \<leftarrow> (if sessionIdLen > 0 then wn_Write_Bytes w sessionId sessionIdLen else Some w);
     w \<leftarrow> wn_Write_U16 w 2;
     w \<leftarrow> wn_Write_U16 w WN_CIPHER_AES_128_GCM_SHA256;
     w \<leftarrow> wn_Write_U8 w 1;
     w \<leftarrow> wn_Write_U8 w 0;
     (extLen, w) \<leftarrow> wn_Write_LenStart w 2;
     w \<leftarrow> ch_server_name serverName nameLen w;
     w \<leftarrow> wn_Write_U16 w 43;
     w \<leftarrow> wn_Write_U16 w 3;
     w \<leftarrow> wn_Write_U8 w 2;
     w \<leftarrow> wn_Write_U16 w 0x0304;
     w \<leftarrow> wn_Write_U16 w WN_EXT_SUPPORTED_GRP;
     w \<leftarrow> wn_Write_U16 w 4;
     w \<leftarrow> wn_Write_U16 w 2;
     w \<leftarrow> wn_Write_U16 w (word_of_int (WN_DEFAULT_GROUP P));
     w \<leftarrow> ch_sig_algs P w;
     w \<leftarrow> ch_key_share P pub pubLen w;
     w \<leftarrow> wn_Write_LenEnd w extLen 2;
     wn_Write_LenEnd w hsLen 3
   }"

definition wn_ClientHello_Build_ex ::
    "'o wc \<Rightarrow> bytes option \<Rightarrow> word32 option \<Rightarrow> word32 \<Rightarrow> bytes option \<Rightarrow> bytes option \<Rightarrow> word32 \<Rightarrow> bytes option \<Rightarrow>
     word32 \<Rightarrow> bytes option \<Rightarrow> (int \<times> bytes \<times> word32 option) option" where
  "wn_ClientHello_Build_ex P out outLen outCap random32 sessionId sessionIdLen pub pubLen serverName =
     (let nameLen = (case serverName of None \<Rightarrow> 0 | Some s \<Rightarrow> word_of_nat (length s)) in
      case (out, outLen) of
        (Some b, Some ol) \<Rightarrow>
          if random32 = None \<or> pub = None \<or> pubLen \<noteq> WN_DEFAULT_PUB_SZ P \<or> sessionIdLen > 32 \<or>
             nameLen > WN_SNI_MAX_HOST
          then Some (WOLFNANO_E_INVALID_ARG, b, Some ol)
          else do {
            w \<leftarrow> ch_write P random32 sessionId sessionIdLen pub pubLen serverName nameLen (wn_Writer_Init b outCap);
            Some (if w_err w \<noteq> 0 then (WOLFNANO_E_INVALID_ARG, w_buf w, Some ol)
                  else (WOLFNANO_SUCCESS, w_buf w, Some (w_len w)))
          }
      | _ \<Rightarrow> Some (WOLFNANO_E_INVALID_ARG, buf out, outLen))"

definition wn_ClientHello_Build ::
    "'o wc \<Rightarrow> bytes option \<Rightarrow> word32 option \<Rightarrow> word32 \<Rightarrow> bytes option \<Rightarrow> bytes option \<Rightarrow> word32 \<Rightarrow> bytes option \<Rightarrow>
     word32 \<Rightarrow> (int \<times> bytes \<times> word32 option) option" where
  "wn_ClientHello_Build P out outLen outCap random32 sessionId sessionIdLen pub pubLen =
     wn_ClientHello_Build_ex P out outLen outCap random32 sessionId sessionIdLen pub pubLen None"

section \<open>Specification\<close>

definition offered_schemes :: "'o wc \<Rightarrow> word16 list" where
  "offered_schemes P =
     (if \<not> WOLFNANO_FIPS P \<and> WOLFSSL_HAVE_MLDSA P then [WN_MLDSA_SCHEME P] else []) @
     (if \<not> WOLFNANO_FIPS P then [0x0807] else []) @
     (if HAVE_ECC384 P \<and> WOLFSSL_SHA384 P then [0x0503] else []) @ [0x0403] @
     (if \<not> NO_RSA P \<and> WOLFSSL_SHA512 P then [0x0806] else []) @
     (if \<not> NO_RSA P \<and> WOLFSSL_SHA384 P then [0x0805] else []) @
     (if \<not> NO_RSA P then [0x0804] else [])"

definition ext_wire :: "word16 \<Rightarrow> wire list \<Rightarrow> wire list" where
  "ext_wire t body = [WU16 t, WVec 2 body]"

definition client_hello_wire :: "'o wc \<Rightarrow> bytes \<Rightarrow> bytes \<Rightarrow> bytes \<Rightarrow> bytes \<Rightarrow> wire list" where
  "client_hello_wire P random sid pub name =
     [WU8 1, WVec 3
       ([WU16 0x0303, WBytes random, WVec 1 [WBytes sid], WVec 2 [WU16 0x1301], WVec 1 [WU8 0], WVec 2
         ((if name = [] then [] else ext_wire 0 [WVec 2 [WU8 0, WVec 2 [WBytes name]]]) @
          ext_wire 43 [WVec 1 [WU16 0x0304]] @
          ext_wire 10 [WVec 2 [WU16 (word_of_int (WN_DEFAULT_GROUP P))]] @
          ext_wire 13 [WVec 2 (map WU16 (offered_schemes P))] @
          ext_wire 51 [WVec 2 [WU16 (word_of_int (WN_DEFAULT_GROUP P)), WVec 2 [WBytes pub]]])])]"

section \<open>The calls write the message\<close>

lemma block_step: "runs m R \<Longrightarrow> (\<And>w'. R w' \<Longrightarrow> runs (k w') Q) \<Longrightarrow> runs (m \<bind> k) Q"
  unfolding runs_bind by (rule runs_mono)

text \<open>The same steps with the value of the argument named, and for the two widths of a length field.\<close>

lemma u16_value:
  assumes "wtr.holds w cap fs b" and "unat v = n" and "\<And>w'. wtr.holds w' cap fs (b @ be_bytes 2 n) \<Longrightarrow> runs (k w') Q"
  shows "runs (wn_Write_U16 w v \<bind> k) Q"
  using wtr.u16_step [OF assms(1), of v k Q] assms(2,3) by simp

lemmas len2_start = wtr.len_start_step [where n = 2, simplified]
lemmas len3_start = wtr.len_start_step [where n = 3, simplified]
lemmas len2_end = wtr.len_end_step [where n = 2, simplified]
lemmas len3_end = wtr.len_end_step [where n = 3, simplified]

lemma bytes_value:
  assumes "wtr.holds w cap fs b" and "unat n \<le> length src" and "cap + unat n < 2 ^ 32" and "take (unat n) src = d"
    and "\<And>w'. wtr.holds w' cap fs (b @ d) \<Longrightarrow> runs (k w') Q"
  shows "runs (wn_Write_Bytes w (Some src) n \<bind> k) Q"
  using wtr.raw_step [OF assms(1-3), of k Q] assms(4,5) by simp

lemmas len2_last = len2_end [where k = Some, simplified]
lemmas len3_last = len3_end [where k = Some, simplified]
lemmas bytes_last = bytes_value [where k = Some, simplified]

lemma write_if_step:
  assumes "wtr.holds w cap fs b"
    and "\<And>w'. wtr.holds w' cap fs (b @ (if c then be_bytes 2 (unat v) else [])) \<Longrightarrow> runs (k w') Q"
  shows "runs (write_if c v w \<bind> k) Q"
  using assms wtr.u16_step [OF assms(1), of v k Q] by (cases c) (simp_all add: write_if_def)

lemma length_field:
  assumes "unat (c :: word32) + unat (d :: word32) < 2 ^ 16"
  shows "unat (ucast (c + d) :: word16) = unat c + unat d"
proof -
  have "unat (c + d) = unat c + unat d"
    using assms by (intro unat_add_no_wrap) simp
  then show ?thesis
    using assms by (simp add: unsigned_ucast_eq take_bit_nat_eq_self)
qed

lemma plus_Suc_numeral:
  "3 + n = Suc (Suc (Suc n))" "4 + n = Suc (Suc (Suc (Suc n)))"
  "5 + n = Suc (Suc (Suc (Suc (Suc n))))" "6 + n = Suc (Suc (Suc (Suc (Suc (Suc n)))))"
  by simp_all

lemma encodes_append [simp]: "encodes (xs @ ys) = encodes xs @ encodes ys"
  by (induction xs) simp_all

lemma encodes_scheme_if:
  "encodes (map WU16 (if c then [v] else [])) = (if c then be_bytes 2 (unat v) else [])"
  by simp

lemma sig_algs_holds:
  assumes "wtr.holds w cap fs b"
  shows "runs (ch_sig_algs P w)
    (\<lambda>w'. wtr.holds w' cap fs (b @ encodes (ext_wire 13 [WVec 2 (map WU16 (offered_schemes P))])))"
  unfolding ch_sig_algs_def
  apply (rule wtr.u16_step [OF assms])
  apply (erule len2_start, simp only: prod.case)+
  apply (erule write_if_step)+
  apply (erule wtr.u16_step)
  apply (erule write_if_step)+
  apply (erule len2_end)
  apply (erule len2_last)
  apply (simp add: ext_wire_def offered_schemes_def encodes_scheme_if split del: if_split)
  done

lemma server_name_holds:
  assumes "wtr.holds w cap fs b" and "cap + 255 < 2 ^ 32" and "length name \<le> 255"
  shows "runs (ch_server_name (Some name) (word_of_nat (length name)) w)
    (\<lambda>w'. wtr.holds w' cap fs
      (b @ encodes (if name = [] then [] else ext_wire 0 [WVec 2 [WU8 0, WVec 2 [WBytes name]]])))"
proof (cases "name = []")
  case True
  then show ?thesis using assms(1) by (simp add: ch_server_name_def)
next
  case False
  then have pos: "(0 :: word32) < word_of_nat (length name)"
    using assms(3) by (simp add: word_less_nat_alt)
  have n: "unat (word_of_nat (length name) :: word32) = length name"
    using assms(3) by simp
  have v: "unat (ucast (c + word_of_nat (length name) :: word32) :: word16) = unat c + length name" if "unat c \<le> 5" for c
    using length_field [of c "word_of_nat (length name)"] that assms(3) by simp
  show ?thesis
    unfolding ch_server_name_def if_P [OF pos]
    apply (rule wtr.u16_step [OF assms(1)])
    apply (erule u16_value, rule v, simp)+
    apply (erule wtr.u8_step)
    apply (erule u16_value, rule v [of 0, simplified])
    apply (erule bytes_last)
    using assms False
    apply (simp_all add: n ext_wire_def plus_Suc_numeral)
    done
qed

lemma pub_size: "unat (WN_DEFAULT_PUB_SZ P) \<le> 1216"
  by (simp add: WN_DEFAULT_PUB_SZ_def)

lemma key_share_holds:
  assumes "wtr.holds w cap fs b" and "cap + 1216 < 2 ^ 32" and "unat n \<le> 1216" and "unat n \<le> length pub"
  shows "runs (ch_key_share P (Some pub) n w)
    (\<lambda>w'. wtr.holds w' cap fs (b @ encodes (ext_wire 51
      [WVec 2 [WU16 (word_of_int (WN_DEFAULT_GROUP P)), WVec 2 [WBytes (take (unat n) pub)]]])))"
proof -
  have v: "unat (ucast (c + n) :: word16) = unat c + unat n" if "unat c \<le> 6" for c
    using length_field [of c n] that assms(3) by simp
  show ?thesis
    unfolding ch_key_share_def
    apply (rule wtr.u16_step [OF assms(1)])
    apply (erule u16_value, rule v, simp)+
    apply (erule wtr.u16_step)
    apply (erule u16_value, rule v [of 0, simplified])
    apply (erule bytes_last)
    using assms
    apply (simp_all add: ext_wire_def plus_Suc_numeral min_absorb2)
    done
qed

lemma session_id_holds:
  assumes "wtr.holds w cap fs b" and "cap + 32 < 2 ^ 32" and "unat n \<le> 32" and "unat n \<le> length sid"
  shows "runs (if n > 0 then wn_Write_Bytes w (Some sid) n else Some w)
    (\<lambda>w'. wtr.holds w' cap fs (b @ take (unat n) sid))"
proof (cases "n = 0")
  case False
  then have "n > 0" by (simp add: word_neq_0_conv)
  then show ?thesis using assms by (auto elim!: bytes_last)
qed (use assms(1) in simp)

lemma fixed_exts:
  "encodes (ext_wire 43 [WVec (Suc 0) [WU16 0x0304]]) =
     be_bytes 2 43 @ be_bytes 2 3 @ [2] @ be_bytes 2 0x0304"
  "encodes (ext_wire 10 [WVec 2 [WU16 g]]) = be_bytes 2 10 @ be_bytes 2 4 @ be_bytes 2 2 @ be_bytes 2 (unat g)"
  by (simp_all add: ext_wire_def be_bytes_1 be_bytes_2)

lemma write_holds:
  fixes P :: "'o wc" and rnd sid pub name :: bytes and sidLen pubLen :: word32
  defines "msg \<equiv> client_hello_wire P (take 32 rnd) (take (unat sidLen) sid) (take (unat pubLen) pub) name"
  assumes w: "wtr.holds w cap [] []" and cap: "cap + 1216 < 2 ^ 32"
    and "32 \<le> length rnd" and sid: "unat sidLen \<le> 32" "unat sidLen \<le> length sid"
    and pub: "unat pubLen \<le> 1216" "unat pubLen \<le> length pub" and name: "length name \<le> 255"
  shows "runs (ch_write P (Some rnd) (Some sid) sidLen (Some pub) pubLen (Some name) (word_of_nat (length name)) w)
    (\<lambda>w'. wtr.holds w' cap [] (encodes msg))"
proof -
  note sn = server_name_holds [OF _ _ name, THEN block_step]
  note si = session_id_holds [OF _ _ sid, THEN block_step]
  note ks = key_share_holds [OF _ cap pub, THEN block_step]
  have sidb: "[ucast sidLen :: byte] = be_bytes 1 (length (take (unat sidLen) sid))"
    using sid by (simp add: be_bytes_1 min_absorb2)
  show ?thesis
    unfolding ch_write_def
    apply (rule wtr.u8_step [OF w])
    apply (erule len3_start, simp only: prod.case)
    apply (erule wtr.u16_step)
    apply (erule bytes_value, use assms in simp, use assms in simp, rule refl)
    apply (erule wtr.u8_step)
    apply (erule si, use cap in simp)
    apply (erule wtr.u16_step)+
    apply (erule wtr.u8_step)+
    apply (erule len2_start, simp only: prod.case)
    apply (erule sn, use cap in simp)
    apply (erule wtr.u16_step)+
    apply (erule wtr.u8_step)+
    apply (erule wtr.u16_step)+
    apply (erule sig_algs_holds [THEN block_step])
    apply (erule ks)
    apply (erule len2_end)
    apply (erule len3_last)
    apply (simp add: msg_def client_hello_wire_def fixed_exts sidb be_bytes_1 split del: if_split)
    done
qed

section \<open>Properties\<close>

lemma no_server_name: "ch_server_name None 0 w = ch_server_name (Some []) (word_of_nat (length ([] :: bytes))) w"
  by (simp add: ch_server_name_def)

lemma write_no_name:
  "ch_write P rnd sid sidLen pub pubLen None 0 w =
   ch_write P rnd sid sidLen pub pubLen (Some []) (word_of_nat (length ([] :: bytes))) w"
  by (simp only: ch_write_def no_server_name)

lemma client_hello_result:
  fixes P :: "'o wc" and rnd sid pub out :: bytes and name :: "bytes option" and sidLen outCap ol :: word32
  defines "e \<equiv> encodes (client_hello_wire P (take 32 rnd) (take (unat sidLen) sid)
      (take (unat (WN_DEFAULT_PUB_SZ P)) pub) (case name of None \<Rightarrow> [] | Some n \<Rightarrow> n))"
  assumes "unat outCap \<le> length out" and "unat outCap + 1216 < 2 ^ 32"
    and "32 \<le> length rnd" and "sidLen \<le> 32" and "unat sidLen \<le> length sid"
    and "unat (WN_DEFAULT_PUB_SZ P) \<le> length pub"
    and "\<And>n. name = Some n \<Longrightarrow> length n \<le> 255"
  shows "\<exists>ret out' ol'. wn_ClientHello_Build_ex P (Some out) (Some ol) outCap (Some rnd) (Some sid) sidLen
      (Some pub) (WN_DEFAULT_PUB_SZ P) name = Some (ret, out', Some ol') \<and> unat outCap \<le> length out' \<and>
    (if length e \<le> unat outCap
     then ret = WOLFNANO_SUCCESS \<and> unat ol' = length e \<and> take (length e) out' = e
     else ret = WOLFNANO_E_INVALID_ARG \<and> ol' = ol)"
proof -
  define n where "n = (case name of None \<Rightarrow> [] | Some n \<Rightarrow> n)"
  have n: "length n \<le> 255" using assms(8) by (auto simp: n_def split: option.splits)
  have args: "unat sidLen \<le> 32" "\<not> 32 < sidLen" using assms(5) by (simp_all add: word_le_nat_alt not_less)
  have guard: "\<not> word_of_nat (length n) > (255 :: word32)"
    using n by (simp add: word_less_nat_alt)
  have "wtr.holds (wn_Writer_Init out outCap) (unat outCap) [] []"
    using assms(2,3) by (intro holds_Writer_Init) simp_all
  then have h: "runs (ch_write P (Some rnd) (Some sid) sidLen (Some pub) (WN_DEFAULT_PUB_SZ P) (Some n)
      (word_of_nat (length n)) (wn_Writer_Init out outCap)) (\<lambda>w'. wtr.holds w' (unat outCap) [] e)"
    unfolding e_def n_def [symmetric] using assms args n pub_size [of P] by (intro write_holds)
  have fin: "unat outCap \<le> length (w_buf w) \<and> (length e \<le> unat outCap \<longrightarrow> w_err w = 0 \<and> unat (w_len w) = length e \<and> take (length e) (w_buf w) = e) \<and>
      (\<not> length e \<le> unat outCap \<longrightarrow> w_err w \<noteq> 0)" if "wtr.holds w (unat outCap) [] e" for w
  proof -
    from wtr.holds_done [OF that]
    have ok: "wf_writer w" and err: "w_err w \<noteq> 0 \<longleftrightarrow> unat outCap < length e"
      and c: "w_err w = 0 \<Longrightarrow> w_content w = e" and room: "w_room w = unat outCap"
      by (simp_all add: w_failed_def)
    from ok have "length (w_content w) = unat (w_len w)"
      by (simp add: writer_obs word_le_nat_alt)
    moreover have "unat outCap \<le> length (w_buf w)"
      using ok room by (simp add: wf_writer_def w_room_def)
    ultimately show ?thesis using err c by (fastforce simp: w_content_def not_less)
  qed
  have nameLen: "(case name of None \<Rightarrow> 0 | Some s \<Rightarrow> word_of_nat (length s)) = (word_of_nat (length n) :: word32)"
    by (cases name) (simp_all add: n_def)
  have name: "ch_write P (Some rnd) (Some sid) sidLen (Some pub) l name (word_of_nat (length n)) w =
      ch_write P (Some rnd) (Some sid) sidLen (Some pub) l (Some n) (word_of_nat (length n)) w" for l w
    using write_no_name by (cases name) (simp_all add: n_def)
  have "runs (wn_ClientHello_Build_ex P (Some out) (Some ol) outCap (Some rnd) (Some sid) sidLen
      (Some pub) (WN_DEFAULT_PUB_SZ P) name) (\<lambda>(ret, out', ol'). \<exists>l. ol' = Some l \<and> unat outCap \<le> length out' \<and>
      (if length e \<le> unat outCap
       then ret = WOLFNANO_SUCCESS \<and> unat l = length e \<and> take (length e) out' = e
       else ret = WOLFNANO_E_INVALID_ARG \<and> l = ol))"
    unfolding wn_ClientHello_Build_ex_def nameLen
    using args guard
    by (simp add: name runs_bind) (rule runs_mono [OF h], use fin in fastforce)
  then show ?thesis by (elim runs3E) blast
qed

lemma client_hello_long_name:
  assumes "255 < length n" and "length n < 2 ^ 32"
  shows "wn_ClientHello_Build_ex P (Some out) (Some ol) outCap rnd sid sidLen pub pubLen (Some n) =
    Some (WOLFNANO_E_INVALID_ARG, out, Some ol)"
proof -
  have "word_of_nat (length n) > (255 :: word32)"
    using assms by (simp add: word_less_nat_alt)
  then show ?thesis by (simp add: wn_ClientHello_Build_ex_def Let_def)
qed

text \<open>
  C22. For valid arguments \<open>wn_ClientHello_Build_ex\<close> never leaves the output buffer, and it
  succeeds exactly when the RFC 8446 ClientHello fits the capacity: then the first
  \<open>outLen\<close> bytes are the encoding of the message as a tree of length-prefixed vectors (SNI
  present exactly when a non-empty name is given, the signature schemes of the build, one
  key share of the configured group). Otherwise it returns \<open>INVALID_ARG\<close> and keeps
  \<open>outLen\<close>.
\<close>

theorem client_hello_exact:
  fixes P :: "'o wc" and rnd sid pub out :: bytes and name :: "bytes option" and sidLen outCap ol :: word32
  defines "e \<equiv> encodes (client_hello_wire P (take 32 rnd) (take (unat sidLen) sid)
      (take (unat (WN_DEFAULT_PUB_SZ P)) pub) (case name of None \<Rightarrow> [] | Some n \<Rightarrow> n))"
  assumes "unat outCap \<le> length out" and "unat outCap + 1216 < 2 ^ 32"
    and "32 \<le> length rnd" and "sidLen \<le> 32" and "unat sidLen \<le> length sid"
    and "unat (WN_DEFAULT_PUB_SZ P) \<le> length pub"
    and "\<And>n. name = Some n \<Longrightarrow> length n \<le> 255"
  shows "\<exists>ret out' ol'. wn_ClientHello_Build_ex P (Some out) (Some ol) outCap (Some rnd) (Some sid) sidLen
      (Some pub) (WN_DEFAULT_PUB_SZ P) name = Some (ret, out', Some ol') \<and>
    (if length e \<le> unat outCap
     then ret = WOLFNANO_SUCCESS \<and> unat ol' = length e \<and> take (length e) out' = e
     else ret = WOLFNANO_E_INVALID_ARG \<and> ol' = ol)"
  using client_hello_result [OF assms(2-8)] unfolding e_def by blast

theorem client_hello_exact_witness:
  "\<exists>out' ol'. wn_ClientHello_Build_ex demo_wc (Some (replicate 300 0)) (Some 0) 300 (Some (replicate 32 7))
      (Some (replicate 32 9)) 32 (Some (replicate 32 5)) 32 (Some [97, 98]) = Some (WOLFNANO_SUCCESS, out', Some ol')"
proof -
  have sz: "WN_DEFAULT_PUB_SZ demo_wc = 32" by (simp add: WN_DEFAULT_PUB_SZ_def demo_wc_def)
  have "length (encodes (client_hello_wire demo_wc (replicate 32 7) (replicate 32 9) (replicate 32 5) [97, 98])) \<le> 300"
    by (simp add: client_hello_wire_def ext_wire_def offered_schemes_def demo_wc_def)
  then show ?thesis
    using client_hello_exact [of 300 "replicate 300 0" "replicate 32 7" 32 "replicate 32 9" demo_wc
        "replicate 32 5" "Some [97, 98]" 0]
    by (auto simp: sz)
qed

end
