(* ===== verification/Wn_Session.thy ===== *)
theory Wn_Session
  imports Wn_Msg Wn_Record Wn_KeySchedule
begin

text \<open>
  The established session of \<open>src/src/wn_session.c\<close>: sending and receiving application data,
  post-handshake messages, and closing. The struct's \<open>ioCtx\<close> is an address the code only
  hands to the callbacks, so the transport state it stands for is threaded through the
  operations beside the session (\<open>io\<close>); \<open>scratch\<close> is the memory the pointer addresses.
  Local record buffers hold zero bytes until they are written.
\<close>

section \<open>State\<close>

record 'io wn_Session =
  ioSend :: "'io wn_IoSend option"
  ioRecv :: "'io wn_IoRecv option"
  ioCtx :: nat
  scratch :: "bytes option"
  scratchLen :: word32
  cAppSecret :: bytes
  sAppSecret :: bytes
  cKey :: bytes
  cIv :: bytes
  sKey :: bytes
  sIv :: bytes
  cSeq :: word64
  sSeq :: word64
  sess_digest :: hash_id
  flags :: int

abbreviation (input) WN_SESS_ESTABLISHED :: int where "WN_SESS_ESTABLISHED \<equiv> 1"
abbreviation (input) WN_SESS_CLOSED :: int where "WN_SESS_CLOSED \<equiv> 2"
abbreviation (input) WN_AEAD_KEY_SZ :: word32 where "WN_AEAD_KEY_SZ \<equiv> 16"
abbreviation (input) WN_HS_NEW_SESSION_TICKET :: byte where "WN_HS_NEW_SESSION_TICKET \<equiv> 4"
abbreviation (input) WN_HS_KEY_UPDATE :: byte where "WN_HS_KEY_UPDATE \<equiv> 24"
abbreviation (input) WN_KU_NOT_REQUESTED :: byte where "WN_KU_NOT_REQUESTED \<equiv> 0"
abbreviation (input) WN_KU_REQUESTED :: byte where "WN_KU_REQUESTED \<equiv> 1"

text \<open>The struct after \<open>ForceZero\<close> or \<open>XMEMSET\<close> with 0.\<close>

definition zero_session :: "'io wn_Session" where
  "zero_session = \<lparr>ioSend = None, ioRecv = None, ioCtx = 0, scratch = None, scratchLen = 0,
     cAppSecret = replicate 32 0, sAppSecret = replicate 32 0, cKey = replicate 16 0, cIv = replicate 12 0,
     sKey = replicate 16 0, sIv = replicate 12 0, cSeq = 0, sSeq = 0, sess_digest = WC_OTHER_HASH 0, flags = 0\<rparr>"

section \<open>Operations\<close>

definition wn_session_send_key_update ::
    "'o wc \<Rightarrow> 'io wn_Session \<Rightarrow> 'io \<Rightarrow> (int \<times> 'io wn_Session \<times> 'io) option" where
  "wn_session_send_key_update P s io =
     wn_Record_Protect P (Some (replicate 27 0)) (Some 0) (Some (cKey s)) WN_AEAD_KEY_SZ (Some (cIv s)) (cSeq s)
       WN_REC_HANDSHAKE (Some [WN_HS_KEY_UPDATE, 0, 0, 1, WN_KU_NOT_REQUESTED]) 5 \<bind> (\<lambda>(ret, rec, rl).
     if ret \<noteq> WOLFNANO_SUCCESS then Some (ret, s, io)
     else
       rl \<bind> (\<lambda>recLen.
       let s = s\<lparr>cSeq := cSeq s + 1\<rparr> in
       ioSend s \<bind> (\<lambda>send.
       mem_read rec 0 (unat recLen) \<bind> (\<lambda>d.
       case send io d of (r, io) \<Rightarrow>
         if r \<noteq> sint recLen then Some (WOLFNANO_E_CRYPTO, s, io)
         else
           wn_Tls13_KeyUpdate P (Some (cAppSecret s)) (Some (cKey s)) (Some (cIv s)) (sess_digest s) \<bind>
             (\<lambda>(ret, sec, key, iv).
           let s = s\<lparr>cAppSecret := sec, cKey := key, cIv := iv\<rparr> in
           Some (ret, if ret = WOLFNANO_SUCCESS then s\<lparr>cSeq := 0\<rparr> else s, io))))))"

text \<open>A KeyUpdate, behind its header.\<close>

definition posths_key_update ::
    "'o wc \<Rightarrow> word32 \<Rightarrow> 'io wn_Session \<Rightarrow> 'io \<Rightarrow> wn_Reader \<Rightarrow> (int \<times> 'io wn_Session \<times> 'io \<times> wn_Reader) option" where
  "posths_key_update P mLen s io r =
     wn_Read_U8 r \<bind> (\<lambda>(req, r).
     if r_err r \<noteq> 0 \<or> mLen \<noteq> 1 \<or> req > WN_KU_REQUESTED then Some (WOLFNANO_E_DECODE, s, io, r)
     else
       wn_Tls13_KeyUpdate P (Some (sAppSecret s)) (Some (sKey s)) (Some (sIv s)) (sess_digest s) \<bind>
         (\<lambda>(ret, sec, key, iv).
       let s = s\<lparr>sAppSecret := sec, sKey := key, sIv := iv\<rparr> in
       if ret \<noteq> WOLFNANO_SUCCESS then Some (ret, s, io, r)
       else
         let s = s\<lparr>sSeq := 0\<rparr> in
         if req = WN_KU_REQUESTED
         then wn_session_send_key_update P s io \<bind> (\<lambda>(ret, s, io). Some (ret, s, io, r))
         else Some (WOLFNANO_SUCCESS, s, io, r)))"

text \<open>One turn of the loop over the messages of a record.\<close>

definition posths_msg ::
    "'o wc \<Rightarrow> 'io wn_Session \<Rightarrow> 'io \<Rightarrow> wn_Reader \<Rightarrow> (int \<times> 'io wn_Session \<times> 'io \<times> wn_Reader) option" where
  "posths_msg P s io r =
     wn_Read_U8 r \<bind> (\<lambda>(mType, r).
     wn_Read_U24 r \<bind> (\<lambda>(mLen, r).
     (if mType = WN_HS_NEW_SESSION_TICKET then
        (case wn_Read_Bytes r mLen of (_, r) \<Rightarrow> Some (WOLFNANO_SUCCESS, s, io, r))
      else if mType = WN_HS_KEY_UPDATE then posths_key_update P mLen s io r
      else Some (WOLFNANO_E_UNEXPECTED_MSG, s, io, r)) \<bind> (\<lambda>(ret, s, io, r).
     Some (if ret = WOLFNANO_SUCCESS \<and> r_err r \<noteq> 0 then WOLFNANO_E_DECODE else ret, s, io, r))))"

partial_function (option) posths_loop ::
    "'o wc \<Rightarrow> word32 \<Rightarrow> int \<Rightarrow> 'io wn_Session \<Rightarrow> 'io \<Rightarrow> wn_Reader \<Rightarrow> (int \<times> 'io wn_Session \<times> 'io) option" where
  "posths_loop P msgLen ret s io r =
     (if r_pos r < msgLen \<and> ret = WOLFNANO_SUCCESS
      then posths_msg P s io r \<bind> (\<lambda>(ret, s, io, r). posths_loop P msgLen ret s io r)
      else Some (ret, s, io))"

definition wn_session_posths ::
    "'o wc \<Rightarrow> 'io wn_Session \<Rightarrow> 'io \<Rightarrow> bytes \<Rightarrow> word32 \<Rightarrow> (int \<times> 'io wn_Session \<times> 'io) option" where
  "wn_session_posths P s io msg msgLen =
     posths_loop P msgLen WOLFNANO_SUCCESS s io (wn_Reader_Init msg msgLen)"

definition wn_Send ::
    "'o wc \<Rightarrow> 'io wn_Session option \<Rightarrow> 'io \<Rightarrow> bytes option \<Rightarrow> word32 \<Rightarrow> (int \<times> 'io wn_Session option \<times> 'io) option" where
  "wn_Send P sp io data len =
     (let overhead = 5 + 1 + 16 in
      case (sp, data) of
        (Some s, Some d) \<Rightarrow>
          if flags s AND WN_SESS_CLOSED \<noteq> 0 then Some (WOLFNANO_E_CLOSED, sp, io)
          else if flags s AND WN_SESS_ESTABLISHED = 0 then Some (WOLFNANO_E_BAD_STATE, sp, io)
          else if len > WN_MAX_PLAINTEXT \<or> scratchLen s < overhead \<or> len > scratchLen s - overhead
          then Some (WOLFNANO_E_INVALID_ARG, sp, io)
          else
            wn_Record_Protect P (scratch s) (Some 0) (Some (cKey s)) WN_AEAD_KEY_SZ (Some (cIv s)) (cSeq s)
              WN_REC_APPDATA data len \<bind> (\<lambda>(ret, b, rl).
            let s = (if scratch s = None then s else s\<lparr>scratch := Some b\<rparr>) in
            if ret \<noteq> WOLFNANO_SUCCESS then Some (ret, Some s, io)
            else
              rl \<bind> (\<lambda>recLen.
              let s = s\<lparr>cSeq := cSeq s + 1\<rparr> in
              ioSend s \<bind> (\<lambda>send.
              mem_read b 0 (unat recLen) \<bind> (\<lambda>m.
              case send io m of (r, io) \<Rightarrow>
                Some (if r \<noteq> sint recLen then WOLFNANO_E_CRYPTO else WOLFNANO_SUCCESS, Some s, io)))))
      | _ \<Rightarrow> Some (WOLFNANO_E_INVALID_ARG, sp, io))"

text \<open>
  What \<open>wn_Recv\<close> does with a decrypted record of \<open>plainLen\<close> bytes, which lie behind the
  header in \<open>scratch\<close>. The results are the return code, the flag \<open>done\<close>, the session, the
  transport, and the output buffer and length.
\<close>

definition recv_content ::
    "'o wc \<Rightarrow> 'io wn_Session \<Rightarrow> 'io \<Rightarrow> bytes \<Rightarrow> word32 \<Rightarrow> byte \<Rightarrow> bytes \<Rightarrow> word32 \<Rightarrow> word32 \<Rightarrow>
     (int \<times> bool \<times> 'io wn_Session \<times> 'io \<times> bytes \<times> word32) option" where
  "recv_content P s io plain plainLen ctype out outCap outLen =
     (let s = s\<lparr>sSeq := sSeq s + 1\<rparr> in
      if ctype = WN_REC_APPDATA then
        (if plainLen > outCap then Some (WOLFNANO_E_INVALID_ARG, False, s, io, out, outLen)
         else
           mem_read plain 0 (unat plainLen) \<bind> (\<lambda>d.
           mem_write out 0 d \<bind> (\<lambda>out.
           Some (WOLFNANO_SUCCESS, True, s, io, out, plainLen))))
      else if ctype = WN_REC_HANDSHAKE then
        wn_session_posths P s io plain plainLen \<bind> (\<lambda>(ret, s, io). Some (ret, False, s, io, out, outLen))
      else if ctype = WN_REC_ALERT then
        (if plainLen \<ge> 2 then
           mem_get plain 1 \<bind> (\<lambda>desc.
           if desc = 0
           then Some (WOLFNANO_E_CLOSED, False, s\<lparr>flags := flags s OR WN_SESS_CLOSED\<rparr>, io, out, outLen)
           else Some (WOLFNANO_E_CRYPTO, False, s, io, out, outLen))
         else Some (WOLFNANO_E_CRYPTO, False, s, io, out, outLen))
      else Some (WOLFNANO_E_UNEXPECTED_MSG, False, s, io, out, outLen))"

text \<open>
  One turn of the receive loop. The record is decrypted in place: the content buffer is the
  scratch buffer behind the record header.
\<close>

definition recv_step ::
    "'o wc \<Rightarrow> 'io wn_Session \<Rightarrow> 'io \<Rightarrow> bytes \<Rightarrow> word32 \<Rightarrow> word32 \<Rightarrow>
     (int \<times> bool \<times> 'io wn_Session \<times> 'io \<times> bytes \<times> word32) option" where
  "recv_step P s io out outCap outLen =
     ioRecv s \<bind> (\<lambda>recv.
     scratch s \<bind> (\<lambda>b.
     wn_RecvRecord recv io b (scratchLen s) 0 0 \<bind> (\<lambda>(ret, b, rtype, recLen, io).
     let s = s\<lparr>scratch := Some b\<rparr>;
         ret = (if ret = WOLFNANO_SUCCESS \<and> rtype = WN_REC_CHANGE_CIPHER then WOLFNANO_E_UNEXPECTED_MSG else ret) in
     if ret \<noteq> WOLFNANO_SUCCESS then Some (ret, False, s, io, out, outLen)
     else
       wn_Record_Unprotect P (Some (drop WN_RECORD_HEADER_SZ b)) (Some 0) (Some 0) (Some (sKey s)) WN_AEAD_KEY_SZ
         (Some (sIv s)) (sSeq s) (Some b) recLen \<bind> (\<lambda>(ret, plain, pl, ct).
       pl \<bind> (\<lambda>plainLen.
       ct \<bind> (\<lambda>ctype.
       let s = s\<lparr>scratch := Some (take WN_RECORD_HEADER_SZ b @ plain)\<rparr> in
       (if ret = WOLFNANO_SUCCESS then recv_content P s io plain plainLen ctype out outCap outLen
        else Some (ret, False, s, io, out, outLen)) \<bind> (\<lambda>(ret, dn, s, io, out, outLen).
       if plainLen > 0 then
         scratch s \<bind> (\<lambda>b.
         force_zero b WN_RECORD_HEADER_SZ (unat plainLen) \<bind> (\<lambda>b.
         Some (ret, dn, s\<lparr>scratch := Some b\<rparr>, io, out, outLen)))
       else Some (ret, dn, s, io, out, outLen))))))))"

partial_function (option) recv_loop ::
    "'o wc \<Rightarrow> int \<Rightarrow> bool \<Rightarrow> 'io wn_Session \<Rightarrow> 'io \<Rightarrow> bytes \<Rightarrow> word32 \<Rightarrow> word32 \<Rightarrow>
     (int \<times> 'io wn_Session \<times> 'io \<times> bytes \<times> word32) option" where
  "recv_loop P ret dn s io out outCap outLen =
     (if ret = WOLFNANO_SUCCESS \<and> \<not> dn
      then recv_step P s io out outCap outLen \<bind>
        (\<lambda>(ret, dn, s, io, out, outLen). recv_loop P ret dn s io out outCap outLen)
      else Some (ret, s, io, out, outLen))"

definition wn_Recv ::
    "'o wc \<Rightarrow> 'io wn_Session option \<Rightarrow> 'io \<Rightarrow> bytes option \<Rightarrow> word32 \<Rightarrow> word32 option \<Rightarrow>
     (int \<times> 'io wn_Session option \<times> 'io \<times> bytes \<times> word32 option) option" where
  "wn_Recv P sp io out outCap outLen =
     (case (sp, out, outLen) of
        (Some s, Some o', Some ol) \<Rightarrow>
          if flags s AND WN_SESS_CLOSED \<noteq> 0 then Some (WOLFNANO_E_CLOSED, sp, io, o', outLen)
          else if flags s AND WN_SESS_ESTABLISHED = 0 then Some (WOLFNANO_E_BAD_STATE, sp, io, o', outLen)
          else
            recv_loop P WOLFNANO_SUCCESS False s io o' outCap 0 \<bind> (\<lambda>(ret, s, io, o', ol).
            Some (ret, Some s, io, o', Some ol))
      | _ \<Rightarrow> Some (WOLFNANO_E_INVALID_ARG, sp, io, buf out, outLen))"

definition wn_Close :: "'o wc \<Rightarrow> 'io wn_Session option \<Rightarrow> 'io \<Rightarrow> (int \<times> 'io wn_Session option \<times> 'io) option" where
  "wn_Close P sp io =
     (case sp of
        None \<Rightarrow> Some (WOLFNANO_E_INVALID_ARG, None, io)
      | Some s \<Rightarrow>
          (case ioSend s of
             Some send \<Rightarrow>
               if flags s AND WN_SESS_CLOSED = 0 \<and> flags s AND WN_SESS_ESTABLISHED \<noteq> 0 then
                 wn_Record_Protect P (Some (replicate 24 0)) (Some 0) (Some (cKey s)) WN_AEAD_KEY_SZ (Some (cIv s))
                   (cSeq s) WN_REC_ALERT (Some [1, 0]) 2 \<bind> (\<lambda>(ret, rec, rl).
                 if ret = WOLFNANO_SUCCESS then
                   rl \<bind> (\<lambda>recLen. mem_read rec 0 (unat recLen) \<bind> (\<lambda>d. Some (ret, snd (send io d))))
                 else Some (ret, io))
               else Some (WOLFNANO_SUCCESS, io)
           | None \<Rightarrow> Some (WOLFNANO_SUCCESS, io)) \<bind> (\<lambda>(ret, io).
          Some (ret, Some zero_session, io)))"

section \<open>Contracts\<close>

text \<open>
  The transport: the receive callback keeps its contract, and \<open>avail\<close> bounds what it can still
  deliver, which every successful receive lowers and no send raises.
\<close>

definition io_ok :: "'io wn_IoSend \<Rightarrow> 'io wn_IoRecv \<Rightarrow> ('io \<Rightarrow> nat) \<Rightarrow> bool" where
  "io_ok send recv avail \<longleftrightarrow> recv_ok recv \<and> (\<forall>io d. avail (snd (send io d)) \<le> avail io) \<and>
     (\<forall>io n r bs io'. 0 < n \<longrightarrow> recv io n = (r, bs, io') \<longrightarrow>
        avail io' \<le> avail io \<and> (0 < r \<longrightarrow> avail io' < avail io))"

text \<open>The shape of a session the handshake hands out; every operation but \<open>wn_Close\<close> keeps it.\<close>

definition sess_ok :: "'io wn_IoSend \<Rightarrow> 'io wn_IoRecv \<Rightarrow> 'io wn_Session \<Rightarrow> bool" where
  "sess_ok send recv s \<longleftrightarrow> ioSend s = Some send \<and> ioRecv s = Some recv \<and>
     22 \<le> scratchLen s \<and> unat (scratchLen s) \<le> length (buf (scratch s)) \<and> sess_digest s = WC_SHA256 \<and>
     length (cAppSecret s) = 32 \<and> length (sAppSecret s) = 32 \<and> length (cKey s) = 16 \<and> length (cIv s) = 12 \<and>
     length (sKey s) = 16 \<and> length (sIv s) = 12"

text \<open>What an operation that does not touch the buffers leaves alone.\<close>

definition same_frame :: "'io wn_Session \<Rightarrow> 'io wn_Session \<Rightarrow> bool" where
  "same_frame s s' \<longleftrightarrow> scratch s' = scratch s \<and> scratchLen s' = scratchLen s \<and> ioCtx s' = ioCtx s \<and>
     flags s' = flags s"

text \<open>An operation closes the session exactly when it returns \<open>E_CLOSED\<close>.\<close>

definition flags_after :: "int \<Rightarrow> 'io wn_Session \<Rightarrow> 'io wn_Session \<Rightarrow> bool" where
  "flags_after ret s s' \<longleftrightarrow> ret \<le> 0 \<and>
     flags s' = (if ret = WOLFNANO_E_CLOSED then flags s OR WN_SESS_CLOSED else flags s)"

lemma sess_ok_scratch:
  assumes "sess_ok send recv s"
  obtains b where "scratch s = Some b" and "unat (scratchLen s) \<le> length b" and "22 \<le> unat (scratchLen s)"
  using assms by (cases "scratch s") (auto simp: sess_ok_def word_le_nat_alt)

section \<open>Every operation returns\<close>

lemma ExpandLabel_runs:
  assumes "wc_sizes P" and "unat n \<le> length out" and "32 \<le> length sec"
  shows "runs (wn_Tls13_ExpandLabel P (Some out) n (Some sec) (Some l) None 0 WC_SHA256)
    (\<lambda>(ret, out'). length out' = length out \<and> ret \<in> {0, WOLFNANO_E_CRYPTO})"
proof -
  obtain r b where e: "wc_Tls13_HKDF_Expand_Label P n (take 32 sec) (ascii ''tls13 '') (ascii l) [] WC_SHA256 = (r, b)"
    by (metis prod.exhaust)
  have "\<forall>n k p l i d. length (snd (wc_Tls13_HKDF_Expand_Label P n k p l i d)) = unat n"
    using assms(1) by (simp add: wc_sizes_def)
  then have "length b = unat n" by (metis e snd_conv)
  then show ?thesis
    using assms e by (simp add: wn_Tls13_ExpandLabel_def wn_DigestSize_def mem_read_in mem_write_in)
qed

lemma KeyUpdate_runs:
  assumes "wc_sizes P" and "length sec = 32" and "length key = 16" and "length iv = 12"
  shows "runs (wn_Tls13_KeyUpdate P (Some sec) (Some key) (Some iv) WC_SHA256)
    (\<lambda>(ret, sec', key', iv'). length sec' = 32 \<and> length key' = 16 \<and> length iv' = 12 \<and> ret \<in> {0, WOLFNANO_E_CRYPTO})"
proof -
  have d: "wn_DigestSize P WC_SHA256 = 32" by (simp add: wn_DigestSize_def)
  have m: "48 \<le> WC_MAX_DIGEST_SIZE P" using assms(1) by (simp add: wc_sizes_def)
  let ?z = "replicate (WC_MAX_DIGEST_SIZE P) (0 :: byte)"
  obtain r0 ns where e0: "wn_Tls13_ExpandLabel P (Some ?z) 32 (Some sec) (Some ''traffic upd'') None 0 WC_SHA256 = Some (r0, ns)"
    and l0: "length ns = WC_MAX_DIGEST_SIZE P" "r0 \<in> {0, WOLFNANO_E_CRYPTO}"
    using ExpandLabel_runs [OF assms(1), of 32 ?z sec "''traffic upd''"] m assms(2) by (auto elim!: runs2E)
  define sec' where "sec' = take 32 ns"
  have ls: "length sec' = 32" using l0 m by (simp add: sec'_def)
  obtain r1 key' where e1: "wn_Tls13_ExpandLabel P (Some key) 16 (Some sec') (Some ''key'') None 0 WC_SHA256 = Some (r1, key')"
    and l1: "length key' = 16" "r1 \<in> {0, WOLFNANO_E_CRYPTO}"
    using ExpandLabel_runs [OF assms(1), of 16 key sec' "''key''"] ls assms(3) by (auto elim!: runs2E)
  obtain r2 iv' where e2: "wn_Tls13_ExpandLabel P (Some iv) 12 (Some sec') (Some ''iv'') None 0 WC_SHA256 = Some (r2, iv')"
    and l2: "length iv' = 12" "r2 \<in> {0, WOLFNANO_E_CRYPTO}"
    using ExpandLabel_runs [OF assms(1), of 12 iv sec' "''iv''"] ls assms(4) by (auto elim!: runs2E)
  show ?thesis
    using e0 e1 e2 l0 l1 l2 ls m assms
    by (auto simp: wn_Tls13_KeyUpdate_def Let_def d mem_read_in mem_write_in sec'_def [symmetric])
qed

lemma Protect_runs:
  assumes "gcm_sizes P" and "length key = 16" and "length iv = 12" and "unat n \<le> length content"
    and "n \<le> WN_MAX_PLAINTEXT" and "unat n + 22 \<le> length rec"
  shows "runs (wn_Record_Protect P (Some rec) (Some rl) (Some key) 16 (Some iv) seq ty (Some content) n)
    (\<lambda>(ret, rec', rl'). length rec' = length rec \<and> ret \<in> {0, WOLFNANO_E_CRYPTO} \<and>
      (ret = 0 \<longrightarrow> rl' = Some (n + 22)))"
proof -
  have k: "unat (16 :: word32) \<le> length key" and i: "12 \<le> length iv" using assms(2,3) by simp_all
  note sp = Protect_spec [OF assms(1) k i assms(4-6) refl refl refl, of rl seq ty]
  obtain ret rec' rl' where e: "wn_Record_Protect P (Some rec) (Some rl) (Some key) 16 (Some iv) seq ty (Some content) n =
      Some (ret, rec', rl')"
    and c: "case seal P (take (unat (16 :: word32)) key) (nonce_of (take 12 iv) seq) (record_header (unat n + 17))
        (take (unat n) content @ [ty]) of
      Some x \<Rightarrow> ret = 0 \<and> rec' = record_header (unat n + 17) @ x @ drop (unat n + 22) rec \<and>
        rl' = Some (n + 22) \<and> length x = unat n + 17
    | None \<Rightarrow> ret = WOLFNANO_E_CRYPTO \<and> length rec' = length rec \<and>
        drop (unat n + 22) rec' = drop (unat n + 22) rec \<and> take (unat n + 1) (drop 5 rec') = replicate (unat n + 1) 0"
    using sp by (rule runs3E)
  from c have "length rec' = length rec \<and> ret \<in> {0, WOLFNANO_E_CRYPTO} \<and> (ret = 0 \<longrightarrow> rl' = Some (n + 22))"
    using assms(6) by (simp split: option.splits)
  with e show ?thesis by simp
qed

lemma record_len:
  assumes "(n :: word32) \<le> WN_MAX_PLAINTEXT"
  shows "unat (n + 22) = unat n + 22" and "sint (n + 22) = int (unat n) + 22"
proof -
  have n: "unat n \<le> 16384" using assms by (simp add: word_le_nat_alt)
  then show u: "unat (n + 22) = unat n + 22" by (simp add: unat_add_no_wrap)
  have ui: "uint (n + 22) = int (unat n) + 22"
    using u by (simp only: uint_nat of_nat_add of_nat_numeral)
  have "int (unat n) \<le> 16384" using n by (simp only: of_nat_le_numeral_iff)
  moreover have "(2 :: int) ^ 31 = 2147483648" by simp
  ultimately have b: "0 \<le> uint (n + 22)" "uint (n + 22) < 2 ^ 31"
    unfolding ui by linarith+
  have "sint (n + 22) = signed_take_bit 31 (uint (n + 22))"
    by (simp add: sint_uint)
  also have "\<dots> = uint (n + 22)"
    by (rule signed_take_bit_int_eq_self) (use b in linarith)+
  finally show "sint (n + 22) = int (unat n) + 22" using ui by (simp only:)
qed

lemma send_key_update_runs:
  assumes "wc_sizes P" and "gcm_sizes P" and "sess_ok send recv s"
  shows "runs (wn_session_send_key_update P s io) (\<lambda>(ret, s', io').
    sess_ok send recv s' \<and> same_frame s s' \<and> sSeq s' = sSeq s \<and> ret \<in> {0, WOLFNANO_E_CRYPTO} \<and>
    (io' = io \<or> (\<exists>d. io' = snd (send io d))))"
proof -
  let ?m = "[WN_HS_KEY_UPDATE, 0, 0, 1, WN_KU_NOT_REQUESTED]"
  have ok: "ioSend s = Some send" "length (cKey s) = 16" "length (cIv s) = 12" "length (cAppSecret s) = 32"
    "sess_digest s = WC_SHA256"
    using assms(3) by (simp_all add: sess_ok_def)
  obtain ret rec rl where e: "wn_Record_Protect P (Some (replicate 27 0)) (Some 0) (Some (cKey s)) 16 (Some (cIv s)) (cSeq s)
      WN_REC_HANDSHAKE (Some ?m) 5 = Some (ret, rec, rl)"
    and r: "length rec = 27" "ret \<in> {0, WOLFNANO_E_CRYPTO}" "ret = 0 \<longrightarrow> rl = Some 27"
    using Protect_runs [OF assms(2), of "cKey s" "cIv s" 5 ?m "replicate 27 0" 0 "cSeq s" WN_REC_HANDSHAKE] ok
    by (auto simp: runs_def word_le_nat_alt)
  obtain r' io' where io: "send io (take 27 rec) = (r', io')" by fastforce
  obtain ret2 sec key iv where k: "wn_Tls13_KeyUpdate P (Some (cAppSecret s)) (Some (cKey s)) (Some (cIv s)) WC_SHA256 =
      Some (ret2, sec, key, iv)" and l: "length sec = 32" "length key = 16" "length iv = 12" "ret2 \<in> {0, WOLFNANO_E_CRYPTO}"
    using KeyUpdate_runs [OF assms(1) ok(4,2,3)] by (auto simp: runs_def)
  have "\<exists>d. io' = snd (send io d)" by (rule exI [of _ "take 27 rec"]) (simp add: io)
  then show ?thesis
    using e r io k l ok assms(3) unfolding wn_session_send_key_update_def
    by (auto simp: mem_read_in Let_def sess_ok_def same_frame_def)
qed

lemma key_update_msg_runs:
  assumes "wc_sizes P" and "gcm_sizes P" and "sess_ok send recv s" and "wf_reader r"
    and "\<And>io d. avail (snd (send io d)) \<le> avail io"
  shows "runs (posths_key_update P mLen s io r) (\<lambda>(ret, s', io', r').
    sess_ok send recv s' \<and> same_frame s s' \<and> wf_reader r' \<and> avail io' \<le> (avail io :: nat) \<and>
    ret \<in> {0, WOLFNANO_E_CRYPTO, WOLFNANO_E_DECODE} \<and>
    (ret = 0 \<longrightarrow> took wf_reader r_src r_at r_failed r 1 r' \<and> r_err r' = 0))"
  unfolding posths_key_update_def
proof (rule rdr.u8_step [OF assms(4)], unfold prod.case)
  fix req r'
  assume t: "took wf_reader r_src r_at r_failed r 1 r'"
  have ok: "length (sKey s) = 16" "length (sIv s) = 12" "length (sAppSecret s) = 32" "sess_digest s = WC_SHA256"
    using assms(3) by (simp_all add: sess_ok_def)
  obtain ret sec key iv where k: "wn_Tls13_KeyUpdate P (Some (sAppSecret s)) (Some (sKey s)) (Some (sIv s)) WC_SHA256 =
      Some (ret, sec, key, iv)" and l: "length sec = 32" "length key = 16" "length iv = 12" "ret \<in> {0, WOLFNANO_E_CRYPTO}"
    using KeyUpdate_runs [OF assms(1) ok(3,1,2)] by (auto simp: runs_def)
  let ?s = "s\<lparr>sAppSecret := sec, sKey := key, sIv := iv, sSeq := 0\<rparr>"
  have "sess_ok send recv ?s" using assms(3) l by (simp add: sess_ok_def)
  then obtain ret2 s2 io2 where u: "wn_session_send_key_update P ?s io = Some (ret2, s2, io2)"
    and p: "sess_ok send recv s2" "same_frame ?s s2" "ret2 \<in> {0, WOLFNANO_E_CRYPTO}" "io2 = io \<or> (\<exists>d. io2 = snd (send io d))"
    using send_key_update_runs [OF assms(1,2), of send recv ?s io] by (auto simp: runs_def)
  have a: "avail io2 \<le> avail io" using p(4) assms(5) by auto
  have f: "same_frame s s2" using p(2) by (simp add: same_frame_def)
  show "runs (if r_err r' \<noteq> 0 \<or> mLen \<noteq> 1 \<or> WN_KU_REQUESTED < req then Some (WOLFNANO_E_DECODE, s, io, r')
     else wn_Tls13_KeyUpdate P (Some (sAppSecret s)) (Some (sKey s)) (Some (sIv s)) (sess_digest s) \<bind>
       (\<lambda>(ret, sec, key, iv). let s = s\<lparr>sAppSecret := sec, sKey := key, sIv := iv\<rparr> in
        if ret \<noteq> WOLFNANO_SUCCESS then Some (ret, s, io, r')
        else let s = s\<lparr>sSeq := 0\<rparr> in
          if req = WN_KU_REQUESTED
          then wn_session_send_key_update P s io \<bind> (\<lambda>(ret, s, io). Some (ret, s, io, r'))
          else Some (WOLFNANO_SUCCESS, s, io, r'))) (\<lambda>(ret, s', io', r').
    sess_ok send recv s' \<and> same_frame s s' \<and> wf_reader r' \<and> avail io' \<le> avail io \<and>
    ret \<in> {0, WOLFNANO_E_CRYPTO, WOLFNANO_E_DECODE} \<and>
    (ret = 0 \<longrightarrow> took wf_reader r_src r_at r_failed r 1 r' \<and> r_err r' = 0))"
    using k l ok t u p(1,3) a f assms(3) rdr.took_ok [OF t]
    by (auto simp: Let_def same_frame_def sess_ok_def)
qed

lemma be_val_take: "be_val (take k xs) < 256 ^ k"
  by (rule less_le_trans [OF be_val_lt]) (simp add: power_increasing)

lemma posths_msg_runs:
  assumes "wc_sizes P" and "gcm_sizes P" and "sess_ok send recv s" and "wf_reader r"
    and "length (r_src r) < 2 ^ 31" and "\<And>io d. avail (snd (send io d)) \<le> avail io"
  shows "runs (posths_msg P s io r) (\<lambda>(ret, s', io', r').
    sess_ok send recv s' \<and> same_frame s s' \<and> wf_reader r' \<and> avail io' \<le> (avail io :: nat) \<and>
    ret \<in> {0, WOLFNANO_E_CRYPTO, WOLFNANO_E_DECODE, WOLFNANO_E_UNEXPECTED_MSG} \<and>
    (ret = 0 \<longrightarrow> r_src r' = r_src r \<and> r_at r < r_at r'))"
  unfolding posths_msg_def
proof (rule rdr.u8_step [OF assms(4)], unfold prod.case, rule rdr.u24_step, erule rdr.took_ok, unfold prod.case)
  fix ty r1 r2 and mLen :: word32
  assume t1: "took wf_reader r_src r_at r_failed r 1 r1" and t2: "took wf_reader r_src r_at r_failed r1 3 r2"
    and m: "unat mLen = (if r_failed r2 then 0 else be_val (take 3 (drop (r_at r1) (r_src r1))))"
  note adv = rdr.took_advances [OF t1] rdr.took_advances [OF t2] rdr.took_sticky [OF t2]
  have src: "length (r_src r2) < 2 ^ 31" using t1 t2 assms(5) by (simp add: took_def)
  have "unat mLen < 256 ^ 3"
    using m be_val_take [of 3 "drop (r_at r1) (r_src r1)"] by (simp split: if_splits)
  then have small: "length (r_src r2) + unat mLen < 2 ^ 32" using src by simp
  obtain p r3 where b: "wn_Read_Bytes r2 mLen = (p, r3)" by fastforce
  then have t3: "took wf_reader r_src r_at r_failed r2 (unat mLen) r3"
    using read_Bytes_law [OF rdr.took_ok [OF t2] small] by simp
  obtain ret s' io' r4 where k: "posths_key_update P mLen s io r2 = Some (ret, s', io', r4)"
    and q: "sess_ok send recv s'" "same_frame s s'" "wf_reader r4" "avail io' \<le> avail io"
      "ret \<in> {0, WOLFNANO_E_CRYPTO, WOLFNANO_E_DECODE}"
      "ret = 0 \<longrightarrow> took wf_reader r_src r_at r_failed r2 1 r4 \<and> r_err r4 = 0"
    using key_update_msg_runs [OF assms(1-3) rdr.took_ok [OF t2], of avail mLen io] assms(6) by (auto simp: runs_def)
  have adv: "r_src r' = r_src r \<and> r_at r < r_at r'"
    if "took wf_reader r_src r_at r_failed r2 j r'" and "r_err r' = 0" for j r'
    using rdr.took_advances [OF that(1)] rdr.took_advances [OF t2] rdr.took_advances [OF t1] that(2)
    by (auto simp: r_failed_def)
  have frame: "same_frame s s" by (simp add: same_frame_def)
  have fin: "runs (m \<bind> (\<lambda>(ret, s, io, r).
        Some (if ret = WOLFNANO_SUCCESS \<and> r_err r \<noteq> 0 then WOLFNANO_E_DECODE else ret, s, io, r))) Q"
    if "runs m (\<lambda>(ret, s, io, r). Q (if ret = WOLFNANO_SUCCESS \<and> r_err r \<noteq> 0 then WOLFNANO_E_DECODE else ret, s, io, r))"
    for m :: "(int \<times> 'b wn_Session \<times> 'b \<times> wn_Reader) option" and Q
    using that by (auto simp: runs_def)
  show "runs ((if ty = WN_HS_NEW_SESSION_TICKET then case wn_Read_Bytes r2 mLen of (_, r) \<Rightarrow> Some (WOLFNANO_SUCCESS, s, io, r)
       else if ty = WN_HS_KEY_UPDATE then posths_key_update P mLen s io r2
       else Some (WOLFNANO_E_UNEXPECTED_MSG, s, io, r2)) \<bind> (\<lambda>(ret, s, io, r).
      Some (if ret = WOLFNANO_SUCCESS \<and> r_err r \<noteq> 0 then WOLFNANO_E_DECODE else ret, s, io, r)))
    (\<lambda>(ret, s', io', r').
      sess_ok send recv s' \<and> same_frame s s' \<and> wf_reader r' \<and> avail io' \<le> avail io \<and>
      ret \<in> {0, WOLFNANO_E_CRYPTO, WOLFNANO_E_DECODE, WOLFNANO_E_UNEXPECTED_MSG} \<and>
      (ret = 0 \<longrightarrow> r_src r' = r_src r \<and> r_at r < r_at r'))"
    by (rule fin) (use b k q adv t3 frame assms(3) rdr.took_ok [OF t3] rdr.took_ok [OF t2] in auto)
qed

lemma posths_loop_done: "\<not> (r_pos r < n \<and> ret = 0) \<Longrightarrow> posths_loop P n ret s io r = Some (ret, s, io)"
  by (subst posths_loop.simps) (simp only: if_False)

lemma posths_loop_turn:
  "r_pos r < n \<Longrightarrow> posths_loop P n 0 s io r =
   posths_msg P s io r \<bind> (\<lambda>(ret, s, io, r). posths_loop P n ret s io r)"
  by (subst posths_loop.simps) (simp only: simp_thms if_True)

text \<open>The loop over the messages of a record ends on every input.\<close>

lemma posths_loop_runs:
  assumes "wc_sizes P" and "gcm_sizes P" and send: "\<And>io d. avail (snd (send io d)) \<le> (avail io :: nat)"
  shows "sess_ok send recv s \<Longrightarrow> wf_reader r \<Longrightarrow> length (r_src r) = unat n \<Longrightarrow> unat n < 2 ^ 31 \<Longrightarrow>
    ret \<in> {0, WOLFNANO_E_CRYPTO, WOLFNANO_E_DECODE, WOLFNANO_E_UNEXPECTED_MSG} \<Longrightarrow>
    runs (posths_loop P n ret s io r) (\<lambda>(ret, s', io'). sess_ok send recv s' \<and> same_frame s s' \<and> avail io' \<le> avail io \<and>
      ret \<in> {0, WOLFNANO_E_CRYPTO, WOLFNANO_E_DECODE, WOLFNANO_E_UNEXPECTED_MSG})"
proof (induction "length (r_src r) - r_at r" arbitrary: ret s io r rule: less_induct)
  case less
  show ?case
  proof (cases "r_pos r < n \<and> ret = 0")
    case False
    then show ?thesis using less.prems by (simp add: posths_loop_done same_frame_def)
  next
    case True
    obtain ret1 s1 io1 r1 where e: "posths_msg P s io r = Some (ret1, s1, io1, r1)"
      and q: "sess_ok send recv s1" "same_frame s s1" "wf_reader r1" "avail io1 \<le> avail io"
        "ret1 \<in> {0, WOLFNANO_E_CRYPTO, WOLFNANO_E_DECODE, WOLFNANO_E_UNEXPECTED_MSG}"
        "ret1 = 0 \<longrightarrow> r_src r1 = r_src r \<and> r_at r < r_at r1"
      using posths_msg_runs [OF assms(1,2) less.prems(1,2), of avail io] less.prems(3,4) send by (auto simp: runs_def)
    have step: "posths_loop P n ret s io r = posths_loop P n ret1 s1 io1 r1"
      using True e by (simp add: posths_loop_turn)
    show ?thesis
    proof (cases "ret1 = 0")
      case False
      then show ?thesis using step q by (simp add: posths_loop_done)
    next
      case t: True
      have "r_at r < length (r_src r)"
        using True less.prems(3) by (simp add: r_at_def word_less_nat_alt)
      then have dec: "length (r_src r1) - r_at r1 < length (r_src r) - r_at r"
        using q(6) t by (auto intro: diff_less_mono2)
      have l: "length (r_src r1) = unat n" using q(6) t less.prems(3) by simp
      show ?thesis
        unfolding step
        by (rule runs_mono [OF less.hyps [OF dec q(1,3) l less.prems(4) q(5)]])
          (use q(2,4) in \<open>auto simp: same_frame_def\<close>)
    qed
  qed
qed

lemma posths_runs:
  assumes "wc_sizes P" and "gcm_sizes P" and "sess_ok send recv s"
    and "\<And>io d. avail (snd (send io d)) \<le> (avail io :: nat)" and "unat n \<le> length msg" and "unat n < 2 ^ 31"
  shows "runs (wn_session_posths P s io msg n) (\<lambda>(ret, s', io'). sess_ok send recv s' \<and> same_frame s s' \<and>
    avail io' \<le> avail io \<and> ret \<in> {0, WOLFNANO_E_CRYPTO, WOLFNANO_E_DECODE, WOLFNANO_E_UNEXPECTED_MSG})"
proof -
  have "wf_reader (wn_Reader_Init msg n)" and "length (r_src (wn_Reader_Init msg n)) = unat n"
    using assms(5,6) by (simp_all add: wn_Reader_Init_def reader_obs)
  then show ?thesis
    unfolding wn_session_posths_def
    using posths_loop_runs [OF assms(1,2), of avail send recv s "wn_Reader_Init msg n" n 0 io] assms(3,4,6) by simp
qed

section \<open>Receiving returns on a finite transport\<close>

lemma io_recv_loop_avail:
  "io_recv_loop recv ctx b off n got = Some y \<Longrightarrow> io_ok send recv avail \<longrightarrow>
   (case y of (ret, b', ctx') \<Rightarrow> avail ctx' \<le> avail ctx \<and> (ret = 0 \<longrightarrow> got < n \<longrightarrow> avail ctx' < avail ctx))"
proof (rule io_recv_loop.raw_induct [where P = "\<lambda>recv ctx b off n got y. io_ok send recv avail \<longrightarrow>
   (case y of (ret, b', ctx') \<Rightarrow> avail ctx' \<le> avail ctx \<and> (ret = 0 \<longrightarrow> got < n \<longrightarrow> avail ctx' < avail ctx))"], rule impI)
  fix loop and recv :: "'a wn_IoRecv" and ctx b off and n got :: word32 and y
  assume IH: "\<And>recv ctx b off n got y. loop recv ctx b off n got = Some y \<Longrightarrow> io_ok send recv avail \<longrightarrow>
      (case y of (ret, b', ctx') \<Rightarrow> avail ctx' \<le> avail ctx \<and> (ret = 0 \<longrightarrow> got < n \<longrightarrow> avail ctx' < avail ctx))"
    and eq: "(if got < n then case recv ctx (n - got) of (r, bs, ctx) \<Rightarrow>
        mem_write b (off + unat got) bs \<bind> (\<lambda>b. if r \<le> 0 then Some (WOLFNANO_E_CRYPTO, b, ctx)
          else loop recv ctx b off n (got + word_of_int r)) else Some (0, b, ctx)) = Some y"
    and io: "io_ok send recv avail"
  obtain r bs ctx1 where c: "recv ctx (n - got) = (r, bs, ctx1)" by (metis prod.exhaust)
  show "case y of (ret, b', ctx') \<Rightarrow> avail ctx' \<le> avail ctx \<and> (ret = 0 \<longrightarrow> got < n \<longrightarrow> avail ctx' < avail ctx)"
  proof (cases "got < n")
    case True
    have "0 < n - got" using True by (simp add: word_neq_0_conv [symmetric])
    then have a: "avail ctx1 \<le> avail ctx" "0 < r \<Longrightarrow> avail ctx1 < avail ctx"
      using io c by (auto simp: io_ok_def)
    show ?thesis
      using eq True c a IH [of recv ctx1 _ off n "got + word_of_int r" y] io
      by (fastforce simp: bind_eq_Some_conv split: if_splits)
  qed (use eq in auto)
qed

lemma RecvRecord_avail:
  assumes "io_ok send recv avail" and "wn_RecvRecord recv ctx rec cap ty rl = Some (ret, rec', ty', rl', ctx')"
  shows "avail ctx' \<le> avail ctx \<and> (ret = 0 \<longrightarrow> avail ctx' < avail ctx)"
proof -
  obtain ret1 rec1 ctx1 where e1: "io_recv_exact recv ctx rec 0 5 = Some (ret1, rec1, ctx1)"
    using assms(2) by (auto simp: wn_RecvRecord_def bind_eq_Some_conv)
  have a1: "avail ctx1 \<le> avail ctx \<and> (ret1 = 0 \<longrightarrow> avail ctx1 < avail ctx)"
    using io_recv_loop_avail [of recv ctx rec 0 5 0 _ send avail] e1 assms(1) by (auto simp: io_recv_exact_def)
  have a2: "avail c' \<le> avail ctx1" if "io_recv_exact recv ctx1 rec1 5 f = Some (x, y, c')" for f x y c'
    using io_recv_loop_avail [of recv ctx1 rec1 5 f 0 _ send avail] that assms(1) by (auto simp: io_recv_exact_def)
  show ?thesis
    using assms(2) a1 unfolding wn_RecvRecord_def e1
    by (auto simp: bind_eq_Some_conv Let_def split: if_splits dest!: a2)
qed

lemma Unprotect_runs:
  assumes "gcm_sizes P" and "length key = 16" and "length iv = 12"
    and "unat recLen \<le> length rec" and "unat recLen \<le> length content + 21"
  shows "runs (wn_Record_Unprotect P (Some content) (Some 0) (Some ty) (Some key) 16 (Some iv) seq (Some rec) recLen)
    (\<lambda>(ret, content', cl', cty'). length content' = length content \<and>
      (\<exists>l t. cl' = Some l \<and> cty' = Some t \<and> unat l < max 1 (unat recLen - 21)) \<and>
      ret \<in> {0, WOLFNANO_E_CRYPTO, WOLFNANO_E_DECODE, WOLFNANO_E_BAD_MAC, WOLFNANO_E_INVALID_ARG})"
proof -
  have nonce: "wn_BuildNonce iv seq = Some (nonce_of (take 12 iv) seq)"
    using assms(3) by (intro BuildNonce_eq) simp
  consider "recLen < 22" | "fst (wc_AesInit P) \<noteq> 0" "22 \<le> recLen"
    | "fst (wc_AesInit P) = 0" "fst (gcm_key P (take (unat (16 :: word32)) key)) \<noteq> 0" "22 \<le> recLen"
    | "fst (wc_AesInit P) = 0" "fst (gcm_key P (take (unat (16 :: word32)) key)) = 0" "22 \<le> recLen"
    by (meson not_le)
  then show ?thesis
  proof cases
    case 1
    then show ?thesis by (simp add: wn_Record_Unprotect_def)
  next
    case 2
    obtain r a where "wc_AesInit P = (r, a)" by fastforce
    then show ?thesis
      using nonce 2 by (simp add: wn_Record_Unprotect_def not_less [symmetric])
  next
    case 3
    obtain a where a: "wc_AesInit P = (0, a)" using 3(1) by (cases "wc_AesInit P") simp
    obtain r aes where "wc_AesGcmSetKey P a key = (r, aes)" by fastforce
    with a show ?thesis
      using nonce 3 assms(2) by (simp add: wn_Record_Unprotect_def gcm_key_def mem_read_in not_less [symmetric])
  next
    case 4
    have n: "22 \<le> unat recLen" using 4 by (simp add: word_le_nat_alt)
    have kk: "unat (16 :: word32) \<le> length key" and i: "12 \<le> length iv" and c: "unat recLen - 21 \<le> length content"
      using assms(2,3,5) by simp_all
    have m: "unat (word_of_nat (length m) :: word32) < unat recLen - 21"
      if "inner_plaintext pt m t" and "length pt = unat recLen - 21" for pt m t
    proof -
      have "length m < length pt" using that(1) by (auto simp: inner_plaintext_def)
      with that(2) show ?thesis by (simp add: unat_of_nat le_less_trans [OF mod_less_eq_dividend])
    qed
    show ?thesis
    proof (rule runs_mono [OF Unprotect_spec [OF assms(1) 4(1,2) kk i assms(4) 4(3) refl c, of 0 ty seq]], goal_cases)
      case (1 x)
      then show ?case
        using n m by (cases x) (auto split: option.splits if_splits)
    qed
  qed
qed

lemma recv_content_runs:
  assumes "wc_sizes P" and "gcm_sizes P" and "sess_ok send recv s" and io: "io_ok send recv avail"
    and "unat n \<le> length plain" and "unat n < 2 ^ 31" and "unat outCap \<le> length out"
  shows "runs (recv_content P s io plain n ctype out outCap ol) (\<lambda>(ret, dn, s', io', out', ol').
    sess_ok send recv s' \<and> scratch s' = scratch s \<and> flags_after ret s s' \<and> avail io' \<le> avail io \<and>
    length out' = length out \<and> drop (unat outCap) out' = drop (unat outCap) out \<and>
    (if dn then ret = 0 \<and> ol' = n \<and> n \<le> outCap \<and> take (unat n) out' = take (unat n) plain else ol' = ol))"
proof -
  have send: "\<And>io d. avail (snd (send io d)) \<le> avail io" using io by (simp add: io_ok_def)
  let ?s = "s\<lparr>sSeq := sSeq s + 1\<rparr>"
  have ok: "sess_ok send recv ?s" using assms(3) by (simp add: sess_ok_def)
  have fl: "sess_ok send recv (s\<lparr>sSeq := x, flags := y\<rparr>)" for x y using assms(3) by (simp add: sess_ok_def)
  consider "ctype = 23" | "ctype = 22" | "ctype = 21" | "ctype \<notin> {21, 22, 23}" by auto
  then show ?thesis
  proof cases
    case 1
    have "unat n \<le> unat outCap" if "\<not> n > outCap" using that by (simp add: word_le_nat_alt not_less)
    then show ?thesis
      using 1 ok assms(5,7) by (auto simp: recv_content_def Let_def mem_read_in mem_write_in not_less flags_after_def)
  next
    case 2
    have "runs (wn_session_posths P ?s io plain n) (\<lambda>(ret, s', io'). sess_ok send recv s' \<and> scratch s' = scratch s \<and>
        flags_after ret s s' \<and> avail io' \<le> avail io)"
    proof -
      have "runs (wn_session_posths P ?s io plain n) (\<lambda>(ret, s', io'). sess_ok send recv s' \<and> same_frame ?s s' \<and>
          avail io' \<le> avail io \<and> ret \<in> {0, WOLFNANO_E_CRYPTO, WOLFNANO_E_DECODE, WOLFNANO_E_UNEXPECTED_MSG})"
        using ok send assms(5,6) by (intro posths_runs [OF assms(1,2)]) simp_all
      then show ?thesis by (rule runs_mono) (auto simp: same_frame_def flags_after_def)
    qed
    then show ?thesis using 2 by (elim runs3E) (simp add: recv_content_def)
  next
    case 3
    have "1 < length plain" if "2 \<le> n" using that assms(5) by (simp add: word_le_nat_alt)
    then show ?thesis
      using 3 ok fl by (auto simp: recv_content_def Let_def mem_get_def flags_after_def)
  next
    case 4
    then show ?thesis using ok by (auto simp: recv_content_def Let_def flags_after_def)
  qed
qed

lemma recv_step_runs:
  assumes "wc_sizes P" and "gcm_sizes P" and ok: "sess_ok send recv s" and io: "io_ok send recv avail"
    and out: "unat outCap \<le> length out"
  shows "runs (recv_step P s io out outCap ol) (\<lambda>(ret, dn, s', io', out', ol').
    sess_ok send recv s' \<and> flags_after ret s s' \<and> avail io' \<le> avail io \<and> (ret = 0 \<longrightarrow> avail io' < avail io) \<and>
    length out' = length out \<and> drop (unat outCap) out' = drop (unat outCap) out \<and>
    (if dn then ret = 0 \<and> ol' \<le> outCap else ol' = ol))"
proof -
  obtain b where b: "scratch s = Some b" "unat (scratchLen s) \<le> length b" "22 \<le> unat (scratchLen s)"
    using ok by (rule sess_ok_scratch)
  have s: "ioSend s = Some send" "ioRecv s = Some recv" "length (sKey s) = 16" "length (sIv s) = 12"
    using ok by (simp_all add: sess_ok_def)
  have rok: "recv_ok recv" using io by (simp add: io_ok_def)
  have b5: "5 \<le> length b" using b by simp
  obtain ret b1 ty rl io1 where e1: "wn_RecvRecord recv io b (scratchLen s) 0 0 = Some (ret, b1, ty, rl, io1)"
    and l1: "length b1 = length b" and rr: "ret \<in> {0, WOLFNANO_E_CRYPTO, WOLFNANO_E_DECODE}" and r1: "ret = 0 \<longrightarrow> unat rl = frag_of b1 + 5 \<and> unat rl \<le> unat (scratchLen s) \<and> frag_of b1 \<le> 16640"
    using RecvRecord_safe [OF rok b5 b(2), of io 0 0] by (auto simp: runs_def)
  have a1: "avail io1 \<le> avail io" "ret = 0 \<longrightarrow> avail io1 < avail io"
    using RecvRecord_avail [OF io e1] by auto
  have ok1: "sess_ok send recv (s\<lparr>scratch := Some c\<rparr>)" if "length c = length b" for c
    using ok b that by (simp add: sess_ok_def)
  show ?thesis
  proof (cases "ret = 0 \<and> ty \<noteq> WN_REC_CHANGE_CIPHER")
    case False
    then show ?thesis
      using e1 a1 l1 ok1 b s rr by (auto simp: recv_step_def flags_after_def)
  next
    case True
    have u: "unat rl \<le> length b1" "unat rl \<le> length (drop 5 b1) + 21"
      using r1 True l1 b by auto
    obtain ret2 pl l t where e2: "wn_Record_Unprotect P (Some (drop 5 b1)) (Some 0) (Some 0) (Some (sKey s)) 16 (Some (sIv s)) (sSeq s)
        (Some b1) rl = Some (ret2, pl, Some l, Some t)"
      and l2: "length pl = length b1 - 5" "unat l < max 1 (unat rl - 21)"
      and r2: "ret2 \<in> {0, WOLFNANO_E_CRYPTO, WOLFNANO_E_DECODE, WOLFNANO_E_BAD_MAC, WOLFNANO_E_INVALID_ARG}"
      using Unprotect_runs [OF assms(2) s(3,4) u, of 0 "sSeq s"] by (auto simp: runs_def)
    let ?s = "s\<lparr>scratch := Some (take 5 b1 @ pl)\<rparr>"
    have lb: "length (take 5 b1 @ pl) = length b" using l1 l2 b5 by simp
    have ll: "unat l \<le> length pl" "unat l < 2 ^ 31"
      using l2 r1 True b l1 by (auto simp: max_def split: if_splits)
    have "runs (if ret2 = 0 then recv_content P ?s io1 pl l t out outCap ol else Some (ret2, False, ?s, io1, out, ol))
      (\<lambda>(ret, dn, s', io', out', ol'). sess_ok send recv s' \<and> scratch s' = Some (take 5 b1 @ pl) \<and> flags_after ret s s' \<and> avail io' \<le> avail io1 \<and>
         length out' = length out \<and> drop (unat outCap) out' = drop (unat outCap) out \<and>
         (if dn then ret = 0 \<and> ol' \<le> outCap else ol' = ol))"
    proof (cases "ret2 = 0")
      case t: True
      show ?thesis
        unfolding if_P [OF t]
        by (rule runs_mono [OF recv_content_runs [OF assms(1,2) ok1 [OF lb] io ll out]]) (auto simp: flags_after_def split: if_splits)
    qed (use ok1 [OF lb] r2 in \<open>auto simp: flags_after_def\<close>)
    then obtain ret3 dn s3 io3 out3 ol3 where
      e3: "(if ret2 = 0 then recv_content P ?s io1 pl l t out outCap ol else Some (ret2, False, ?s, io1, out, ol)) =
        Some (ret3, dn, s3, io3, out3, ol3)"
      and q: "sess_ok send recv s3" "scratch s3 = Some (take 5 b1 @ pl)" "flags_after ret3 s s3" "avail io3 \<le> avail io1" "length out3 = length out"
        "drop (unat outCap) out3 = drop (unat outCap) out" "if dn then ret3 = 0 \<and> ol3 \<le> outCap else ol3 = ol"
      by (auto simp: runs_def)
    define b4 where "b4 = take 5 b1 @ replicate (unat l) 0 @ drop (unat l) pl"
    have z: "force_zero (take 5 b1 @ pl) 5 (unat l) = Some b4"
      using ll l1 b5 by (simp add: b4_def force_zero_def mem_write_in)
    have "sess_ok send recv (s3\<lparr>scratch := Some b4\<rparr>)"
      using q(1,2) ll lb by (auto simp: sess_ok_def b4_def)
    then show ?thesis
      using e1 e2 e3 q z a1 True s b unfolding recv_step_def
      by (auto simp: Let_def flags_after_def)
  qed
qed

lemma recv_loop_done: "ret \<noteq> 0 \<or> dn \<Longrightarrow> recv_loop P ret dn s io out outCap ol = Some (ret, s, io, out, ol)"
  by (subst recv_loop.simps) auto

lemma recv_loop_turn:
  "recv_loop P 0 False s io out outCap ol = recv_step P s io out outCap ol \<bind>
     (\<lambda>(ret, dn, s, io, out, ol). recv_loop P ret dn s io out outCap ol)"
  by (subst recv_loop.simps) simp

lemma recv_loop_runs:
  assumes "wc_sizes P" and "gcm_sizes P" and io: "io_ok send recv avail"
  shows "sess_ok send recv s \<Longrightarrow> unat outCap \<le> length out \<Longrightarrow>
    runs (recv_loop P 0 False s io out outCap ol) (\<lambda>(ret, s', io', out', ol').
      sess_ok send recv s' \<and> flags_after ret s s' \<and> avail io' \<le> avail io \<and> length out' = length out \<and>
      drop (unat outCap) out' = drop (unat outCap) out \<and> (if ret = 0 then ol' \<le> outCap else ol' = ol))"
proof (induction "avail io" arbitrary: s io out rule: less_induct)
  case less
  obtain ret dn s1 io1 out1 ol1 where e: "recv_step P s io out outCap ol = Some (ret, dn, s1, io1, out1, ol1)"
    and q: "sess_ok send recv s1" "flags_after ret s s1" "avail io1 \<le> avail io" "ret = 0 \<longrightarrow> avail io1 < avail io" "length out1 = length out"
      "drop (unat outCap) out1 = drop (unat outCap) out" "if dn then ret = 0 \<and> ol1 \<le> outCap else ol1 = ol"
    using recv_step_runs [OF assms(1,2) less.prems(1) io less.prems(2), of io ol] by (auto simp: runs_def)
  have step: "recv_loop P 0 False s io out outCap ol = recv_loop P ret dn s1 io1 out1 outCap ol1"
    using e by (simp add: recv_loop_turn)
  show ?case
  proof (cases "ret = 0 \<and> \<not> dn")
    case True
    then have dec: "avail io1 < avail io" and o: "unat outCap \<le> length out1" and eq: "ol1 = ol"
      and fl: "flags_after r s1 s' = flags_after r s s'" for r s'
      using q less.prems(2) by (auto simp: flags_after_def)
    show ?thesis
      unfolding step using True eq
      by (auto intro!: runs_mono [OF less.hyps [OF dec q(1) o]] simp: q(5,6) fl le_trans [OF _ q(3)])
  next
    case False
    then show ?thesis
      unfolding step using q by (auto simp: recv_loop_done split: if_splits)
  qed
qed

end
