(* ===== verification/Wn_SessionSpec.thy ===== *)
theory Wn_SessionSpec
  imports Wn_Session
begin

text \<open>
  What the session of \<open>Wn_Session\<close> promises. The post-handshake messages are a datatype with
  their encoding and their effect on the keys (RFC 8446, sections 4.6 and 7.2); the peer's
  record stream is described by what it sends, and receiving is proved to deliver exactly
  that.
\<close>

section \<open>Post-handshake messages\<close>

datatype post_hs = NewSessionTicket bytes | KeyUpdate bool

fun enc_ph :: "post_hs \<Rightarrow> bytes" where
  "enc_ph (NewSessionTicket b) = 4 # be_bytes 3 (length b) @ b"
| "enc_ph (KeyUpdate requested) = 24 # be_bytes 3 1 @ [if requested then 1 else 0]"

definition enc_phs :: "post_hs list \<Rightarrow> bytes" where
  "enc_phs ms = concat (map enc_ph ms)"

fun ph_wf :: "post_hs \<Rightarrow> bool" where
  "ph_wf (NewSessionTicket b) \<longleftrightarrow> length b < 2 ^ 24"
| "ph_wf (KeyUpdate q) \<longleftrightarrow> True"

type_synonym hkdf_expand = "hash_id \<Rightarrow> bytes \<Rightarrow> bytes \<Rightarrow> nat \<Rightarrow> bytes"

definition next_secret :: "hkdf_expand \<Rightarrow> bytes \<Rightarrow> bytes" where
  "next_secret exp sec = HKDF_Expand_Label exp WC_SHA256 sec ''traffic upd'' [] 32"

definition secret_key :: "hkdf_expand \<Rightarrow> bytes \<Rightarrow> bytes" where
  "secret_key exp sec = HKDF_Expand_Label exp WC_SHA256 sec ''key'' [] 16"

definition secret_iv :: "hkdf_expand \<Rightarrow> bytes \<Rightarrow> bytes" where
  "secret_iv exp sec = HKDF_Expand_Label exp WC_SHA256 sec ''iv'' [] 12"

definition rekey_read :: "hkdf_expand \<Rightarrow> 'io wn_Session \<Rightarrow> 'io wn_Session" where
  "rekey_read exp s = (let n = next_secret exp (sAppSecret s) in
     s\<lparr>sAppSecret := n, sKey := secret_key exp n, sIv := secret_iv exp n, sSeq := 0\<rparr>)"

definition rekey_write :: "hkdf_expand \<Rightarrow> 'io wn_Session \<Rightarrow> 'io wn_Session" where
  "rekey_write exp s = (let n = next_secret exp (cAppSecret s) in
     s\<lparr>cAppSecret := n, cKey := secret_key exp n, cIv := secret_iv exp n, cSeq := 0\<rparr>)"

text \<open>
  A KeyUpdate moves the read keys on; a requested one is answered by a KeyUpdate under the old
  write keys, which then move on too.
\<close>

definition update_record :: "'o wc \<Rightarrow> 'io wn_Session \<Rightarrow> bytes" where
  "update_record P s = the (protect P (cKey s) (cIv s) (cSeq s) WN_REC_HANDSHAKE (enc_ph (KeyUpdate False)))"

fun ph_effect :: "'o wc \<Rightarrow> hkdf_expand \<Rightarrow> 'io wn_IoSend \<Rightarrow> post_hs \<Rightarrow> 'io wn_Session \<times> 'io \<Rightarrow> 'io wn_Session \<times> 'io" where
  "ph_effect P exp send (NewSessionTicket b) (s, io) = (s, io)"
| "ph_effect P exp send (KeyUpdate False) (s, io) = (rekey_read exp s, io)"
| "ph_effect P exp send (KeyUpdate True) (s, io) =
     (rekey_write exp (rekey_read exp s), snd (send io (update_record P s)))"

text \<open>The callbacks accept every record in full.\<close>

definition send_ok :: "'io wn_IoSend \<Rightarrow> bool" where
  "send_ok send \<longleftrightarrow> (\<forall>io d. fst (send io d) = int (length d))"

text \<open>The crypto library works, and the session is usable.\<close>

definition crypto_ok :: "'o wc \<Rightarrow> hkdf_expand \<Rightarrow> bool" where
  "crypto_ok P exp \<longleftrightarrow> gcm_ok P \<and> (\<exists>ext. kdf_usable P ext exp WC_SHA256)"

lemma crypto_sizes: "crypto_ok P exp \<Longrightarrow> wc_sizes P \<and> gcm_sizes P"
  by (auto simp: crypto_ok_def gcm_ok_def kdf_usable_def hkdf_ok_def)

lemma KeyUpdate_eq:
  assumes "crypto_ok P exp" and "length sec = 32" and "length key = 16" and "length iv = 12"
  shows "wn_Tls13_KeyUpdate P (Some sec) (Some key) (Some iv) WC_SHA256 =
    Some (0, next_secret exp sec, secret_key exp (next_secret exp sec), secret_iv exp (next_secret exp sec))"
proof -
  obtain ext where u: "kdf_usable P ext exp WC_SHA256" using assms(1) by (auto simp: crypto_ok_def)
  show ?thesis
    using KeyUpdate_spec [OF u, of sec key iv] assms(2-4)
    by (simp add: next_secret_def secret_key_def secret_iv_def digest_size_def)
qed

lemma derived_lengths:
  assumes "crypto_ok P exp"
  shows "length (next_secret exp sec) = 32" "length (secret_key exp sec) = 16" "length (secret_iv exp sec) = 12"
proof -
  obtain ext where "kdf_usable P ext exp WC_SHA256" using assms by (auto simp: crypto_ok_def)
  then show "length (next_secret exp sec) = 32" "length (secret_key exp sec) = 16" "length (secret_iv exp sec) = 12"
    by (auto simp: next_secret_def secret_key_def secret_iv_def HKDF_Expand_Label_def kdf_usable_def)
qed

lemma rekey_ok:
  assumes "crypto_ok P exp" and "sess_ok send recv s"
  shows "sess_ok send recv (rekey_read exp s)" "sess_ok send recv (rekey_write exp s)"
  using assms(2) derived_lengths [OF assms(1)] by (simp_all add: sess_ok_def rekey_read_def rekey_write_def Let_def)

lemma be_bytes_3_1: "be_bytes 3 (Suc 0) = [0, 0, 1]"
  by (simp add: be_bytes_3)

lemma send_key_update_eq:
  assumes "crypto_ok P exp" and "sess_ok send recv s" and "send_ok send"
  shows "wn_session_send_key_update P s io = Some (0, rekey_write exp s, snd (send io (update_record P s)))"
proof -
  let ?m = "[WN_HS_KEY_UPDATE, 0, 0, 1, WN_KU_NOT_REQUESTED]"
  have ok: "ioSend s = Some send" "length (cKey s) = 16" "length (cIv s) = 12" "length (cAppSecret s) = 32"
    "sess_digest s = WC_SHA256"
    using assms(2) by (simp_all add: sess_ok_def)
  have "channel_ready P (cKey s) (cIv s)" "fits_record ?m"
    using assms(1) ok by (simp_all add: channel_ready_def crypto_ok_def fits_record_def)
  then obtain r where r: "protect P (cKey s) (cIv s) (cSeq s) WN_REC_HANDSHAKE ?m = Some r" "length r = 27"
      "wn_Record_Protect P (Some (replicate 27 0)) (Some 0) (Some (cKey s)) 16 (Some (cIv s)) (cSeq s) WN_REC_HANDSHAKE (Some ?m) 5 =
        Some (0, r, Some 27)"
    using Protect_record [of P "cKey s" "cIv s" ?m "replicate 27 0" 5 ?m "cSeq s" WN_REC_HANDSHAKE 0] by auto
  have u: "update_record P s = r" using r by (simp add: update_record_def be_bytes_3_1)
  have "fst (send io r) = 27" using assms(3) r(2) by (simp add: send_ok_def)
  then obtain io' where "send io r = (27, io')" by (metis prod.collapse)
  then show ?thesis
    using r ok u KeyUpdate_eq [OF assms(1) ok(4,2,3)]
    by (simp add: wn_session_send_key_update_def mem_read_in Let_def rekey_write_def)
qed

text \<open>The reads of the calculus as equations.\<close>

lemma read_u8_eq: "rdr.expects r d (b # xs) \<Longrightarrow> \<exists>r'. wn_Read_U8 r = Some (b, r') \<and> rdr.expects r' (d @ [b]) xs"
  using rdr.u8_expect [of r d b xs Some "\<lambda>(v, r'). v = b \<and> rdr.expects r' (d @ [b]) xs"] by (auto simp: runs_def)

lemma read_u24_eq:
  assumes "rdr.expects r d (be_bytes 3 n @ xs)" and "n < 2 ^ 24"
  shows "\<exists>r'. wn_Read_U24 r = Some (word_of_nat n, r') \<and> rdr.expects r' (d @ be_bytes 3 n) xs"
proof -
  have "unat (word_of_nat n :: word32) = n" using assms(2) by (simp add: unat_of_nat)
  then show ?thesis
    using rdr.u24_expect [of r d "word_of_nat n" xs Some
        "\<lambda>(v, r'). v = word_of_nat n \<and> rdr.expects r' (d @ be_bytes 3 n) xs"] assms
    by (auto simp: runs_def)
qed

lemma read_bytes_eq:
  assumes "rdr.expects r d (bs @ xs)" and "unat n = length bs" and "length (d @ bs @ xs) + length bs < 2 ^ 32"
  shows "\<exists>p r'. wn_Read_Bytes r n = (p, r') \<and> rdr.expects r' (d @ bs) xs"
  using rdr.raw_expect [OF assms, of Some "\<lambda>(p, r'). rdr.expects r' (d @ bs) xs"] by (auto simp: runs_def)

lemma expects_pos: "rdr.expects r d xs \<Longrightarrow> unat (r_pos r) = length d"
  unfolding rdr.expects_def by (simp add: r_at_def)

lemma expects_err: "rdr.expects r d xs \<Longrightarrow> r_err r = 0"
  by (simp add: rdr.expects_def r_failed_def)

lemma posths_msg_eq:
  assumes "crypto_ok P exp" and "sess_ok send recv s" and "send_ok send" and "ph_wf m"
    and "rdr.expects r d (enc_ph m @ rest)" and "length (d @ enc_ph m @ rest) < 2 ^ 31"
  shows "\<exists>r'. posths_msg P s io r = Some (0, fst (ph_effect P exp send m (s, io)), snd (ph_effect P exp send m (s, io)), r') \<and>
    rdr.expects r' (d @ enc_ph m) rest"
proof (cases m)
  case (NewSessionTicket b)
  have r: "rdr.expects r d (4 # be_bytes 3 (length b) @ b @ rest)" using assms(5) NewSessionTicket by simp
  obtain r1 where r1: "wn_Read_U8 r = Some (4, r1)" "rdr.expects r1 (d @ [4]) (be_bytes 3 (length b) @ b @ rest)"
    using read_u8_eq [OF r] by auto
  have lb: "length b < 2 ^ 24" using assms(4) NewSessionTicket by simp
  obtain r2 where r2: "wn_Read_U24 r1 = Some (word_of_nat (length b), r2)"
      "rdr.expects r2 ((d @ [4]) @ be_bytes 3 (length b)) (b @ rest)"
    using read_u24_eq [OF r1(2) lb] by auto
  obtain p r3 where r3: "wn_Read_Bytes r2 (word_of_nat (length b)) = (p, r3)"
      "rdr.expects r3 (((d @ [4]) @ be_bytes 3 (length b)) @ b) rest"
    using read_bytes_eq [OF r2(2), of "word_of_nat (length b)"] assms(6) lb NewSessionTicket by (auto simp: unat_of_nat)
  show ?thesis
    using r1 r2 r3 expects_err [OF r3(2)] NewSessionTicket by (simp add: posths_msg_def)
next
  case (KeyUpdate q)
  let ?q = "if q then 1 else 0 :: byte"
  have r: "rdr.expects r d (24 # be_bytes 3 1 @ ?q # rest)" using assms(5) KeyUpdate by simp
  obtain r1 where r1: "wn_Read_U8 r = Some (24, r1)" "rdr.expects r1 (d @ [24]) (be_bytes 3 1 @ ?q # rest)"
    using read_u8_eq [OF r] by auto
  obtain r2 where r2: "wn_Read_U24 r1 = Some (1, r2)" "rdr.expects r2 ((d @ [24]) @ be_bytes 3 1) (?q # rest)"
    using read_u24_eq [OF r1(2)] by auto
  obtain r3 where r3: "wn_Read_U8 r2 = Some (?q, r3)" "rdr.expects r3 (((d @ [24]) @ be_bytes 3 1) @ [?q]) rest"
    using read_u8_eq [OF r2(2)] by auto
  have ok: "length (sAppSecret s) = 32" "length (sKey s) = 16" "length (sIv s) = 12" "sess_digest s = WC_SHA256"
    using assms(2) by (simp_all add: sess_ok_def)
  have k: "posths_key_update P 1 s io r2 =
      Some (0, fst (ph_effect P exp send m (s, io)), snd (ph_effect P exp send m (s, io)), r3)"
  proof (cases q)
    case True
    have u: "update_record P (rekey_read exp s) = update_record P s"
      by (simp add: update_record_def rekey_read_def Let_def)
    show ?thesis
      using True KeyUpdate r3(1) expects_err [OF r3(2)] KeyUpdate_eq [OF assms(1) ok(1-3)] ok(4)
        send_key_update_eq [OF assms(1) rekey_ok(1) [OF assms(1,2)] assms(3), of io] u
      by (simp add: posths_key_update_def rekey_read_def Let_def)
  next
    case False
    then show ?thesis
      using KeyUpdate r3(1) expects_err [OF r3(2)] KeyUpdate_eq [OF assms(1) ok(1-3)] ok(4)
      by (simp add: posths_key_update_def rekey_read_def Let_def)
  qed
  show ?thesis
    using r1 r2 k r3(2) expects_err [OF r3(2)] KeyUpdate by (simp add: posths_msg_def)
qed

lemma effect_ok:
  assumes "crypto_ok P exp" and "sess_ok send recv s"
  shows "sess_ok send recv (fst (ph_effect P exp send m (s, io)))"
proof (cases m)
  case (KeyUpdate q)
  then show ?thesis by (cases q) (simp_all add: rekey_ok [OF assms(1)] assms(2))
qed (simp add: assms(2))

lemma posths_loop_eq:
  assumes "crypto_ok P exp" and "send_ok send"
  shows "sess_ok send recv s \<Longrightarrow> \<forall>m\<in>set ms. ph_wf m \<Longrightarrow> rdr.expects r d (enc_phs ms) \<Longrightarrow>
    length (d @ enc_phs ms) = unat n \<Longrightarrow> unat n < 2 ^ 31 \<Longrightarrow>
    posths_loop P n 0 s io r = (case fold (ph_effect P exp send) ms (s, io) of (s', io') \<Rightarrow> Some (0, s', io'))"
proof (induction ms arbitrary: s io r d)
  case Nil
  then have "\<not> r_pos r < n" by (simp add: enc_phs_def word_less_nat_alt expects_pos)
  then show ?case by (simp add: posths_loop_done)
next
  case (Cons m ms)
  have e: "rdr.expects r d (enc_ph m @ enc_phs ms)" using Cons.prems(3) by (simp add: enc_phs_def)
  have l: "length (d @ enc_ph m @ enc_phs ms) < 2 ^ 31" using Cons.prems(4,5) by (simp add: enc_phs_def)
  obtain r' where r': "posths_msg P s io r =
        Some (0, fst (ph_effect P exp send m (s, io)), snd (ph_effect P exp send m (s, io)), r')"
      "rdr.expects r' (d @ enc_ph m) (enc_phs ms)"
    using posths_msg_eq [OF assms(1) Cons.prems(1) assms(2) _ e l] Cons.prems(2) by auto
  have "enc_ph m \<noteq> []" by (cases m) auto
  then have "length d < unat n"
    using Cons.prems(4) by (cases "enc_ph m") (auto simp: enc_phs_def)
  then have "r_pos r < n"
    using Cons.prems(3) by (simp add: word_less_nat_alt expects_pos)
  then show ?case
    using r' Cons.IH [OF effect_ok [OF assms(1) Cons.prems(1)] _ r'(2)] Cons.prems(2,4,5)
    by (simp add: posths_loop_turn enc_phs_def)
qed

lemma posths_eq:
  assumes "crypto_ok P exp" and "send_ok send" and "sess_ok send recv s" and "\<forall>m\<in>set ms. ph_wf m"
    and "unat n = length (enc_phs ms)" and "take (unat n) msg = enc_phs ms" and "unat n < 2 ^ 31"
  shows "wn_session_posths P s io msg n =
    (case fold (ph_effect P exp send) ms (s, io) of (s', io') \<Rightarrow> Some (0, s', io'))"
proof -
  have "unat n \<le> length msg" using assms(5,6) by (metis length_take min.cobounded1)
  then have "rdr.expects (wn_Reader_Init msg n) [] (enc_phs ms)"
    using assms(6,7) by (simp add: rdr.expects_def wn_Reader_Init_def reader_obs)
  then show ?thesis
    unfolding wn_session_posths_def using assms by (intro posths_loop_eq) auto
qed

section \<open>Records of the peer\<close>

lemma protect_shape:
  assumes "protect P key iv seq ty m = Some r" and "channel_ready P key iv" and "fits_record m"
  shows "\<exists>h3 h4 x. r = 23 # 3 # 3 # h3 # h4 # x \<and> length x = length m + 17 \<and> unat h3 * 256 + unat h4 = length x"
proof -
  obtain x where x: "r = record_header (length m + 17) @ x" "length x = length m + 17"
    using protect_eq [OF assms(2,3), of seq ty] assms(1) by auto
  have "frag_of (record_header (length m + 17) @ []) = length m + 17"
    using assms(3) by (intro frag_of_header) (simp add: fits_record_def)
  then show ?thesis using x by (auto simp: record_header_def frag_of_def)
qed

text \<open>A record of the peer at the front of the stream is received and opened in place.\<close>

lemma recv_peer_record:
  assumes "crypto_ok P exp" and ok: "sess_ok send recv s" and "stream_ok recv pending"
    and "protect P (sKey s) (sIv s) (sSeq s) ty m = Some r" and "ty \<noteq> 0" and "fits_record m"
    and "pending io = r @ rest" and "length m + 22 \<le> unat (scratchLen s)"
  shows "\<exists>b c io'. wn_RecvRecord recv io (buf (scratch s)) (scratchLen s) 0 0 = Some (0, b, 23, word_of_nat (length m + 22), io') \<and>
    pending io' = rest \<and> length b = length (buf (scratch s)) \<and>
    wn_Record_Unprotect P (Some (drop 5 b)) (Some 0) (Some 0) (Some (sKey s)) 16 (Some (sIv s)) (sSeq s) (Some b)
      (word_of_nat (length m + 22)) = Some (0, c, Some (word_of_nat (length m)), Some ty) \<and>
    take (length m) c = m \<and> length c = length b - 5"
proof -
  have ch: "channel_ready P (sKey s) (sIv s)"
    using assms(1) ok by (simp add: channel_ready_def crypto_ok_def sess_ok_def)
  obtain h3 h4 x where r: "r = 23 # 3 # 3 # h3 # h4 # x" "length x = length m + 17" "unat h3 * 256 + unat h4 = length x"
    using protect_shape [OF assms(4) ch assms(6)] by blast
  have fm: "length m \<le> 16384" using assms(6) by (simp add: fits_record_def)
  have cap: "unat (scratchLen s) \<le> length (buf (scratch s))" using ok by (simp add: sess_ok_def)
  have ccs: "(23 :: byte) = WN_REC_CHANGE_CIPHER \<longrightarrow> x = [1]" by simp
  have pend: "pending io = 23 # 3 # 3 # h3 # h4 # x @ rest" using assms(7) r(1) by simp
  have x0: "x \<noteq> []" "length x \<le> 16640" "length x + 5 \<le> unat (scratchLen s)" using r(2) fm assms(8) by auto
  obtain io' where e: "wn_RecvRecord recv io (buf (scratch s)) (scratchLen s) 0 0 =
      Some (0, r @ drop (length m + 22) (buf (scratch s)), 23, word_of_nat (length m + 22), io')" "pending io' = rest"
    using RecvRecord_stream [OF assms(3) pend r(3) [symmetric] x0 cap ccs, of 0 0] r by (auto simp: add.commute)
  have "unat (word_of_nat (length m + 22) :: word32) = length m + 22"
    by (rule unat_word32_of_nat) (use fm in simp)
  also have "\<dots> = length r" using r by simp
  finally have lr: "unat (word_of_nat (length m + 22) :: word32) = length r" .
  from Unprotect_record [OF ch assms(6,5,4) lr, of "drop (length m + 22) (buf (scratch s))" 0 0]
  show ?thesis using e r cap assms(8) by (auto intro!: exI)
qed

lemma recv_step_data:
  assumes "crypto_ok P exp" and ok: "sess_ok send recv s" and "stream_ok recv pending"
    and "protect P (sKey s) (sIv s) (sSeq s) WN_REC_APPDATA m = Some r" and "fits_record m"
    and "pending io = r @ rest" and "length m + 22 \<le> unat (scratchLen s)"
    and "length m \<le> unat outCap" and "unat outCap \<le> length out"
  shows "\<exists>b io'. recv_step P s io out outCap ol =
      Some (0, True, s\<lparr>sSeq := sSeq s + 1, scratch := Some b\<rparr>, io', m @ drop (length m) out, word_of_nat (length m)) \<and>
    pending io' = rest \<and> length b = length (buf (scratch s)) \<and> take (length m) (drop 5 b) = replicate (length m) 0"
proof -
  obtain b c io' where e: "wn_RecvRecord recv io (buf (scratch s)) (scratchLen s) 0 0 =
        Some (0, b, 23, word_of_nat (length m + 22), io')"
      "pending io' = rest" "length b = length (buf (scratch s))"
    and u: "wn_Record_Unprotect P (Some (drop 5 b)) (Some 0) (Some 0) (Some (sKey s)) 16 (Some (sIv s)) (sSeq s) (Some b)
      (word_of_nat (length m + 22)) = Some (0, c, Some (word_of_nat (length m)), Some 23)"
      "take (length m) c = m" "length c = length b - 5"
    using recv_peer_record [OF assms(1,2,3,4) _ assms(5-7)] by auto
  obtain b0 where b0: "scratch s = Some b0" "unat (scratchLen s) \<le> length b0" using ok by (rule sess_ok_scratch)
  have recv: "ioRecv s = Some recv" using ok by (simp add: sess_ok_def)
  have n: "unat (word_of_nat (length m) :: word32) = length m"
    using assms(5) by (simp add: fits_record_def)
  have pos: "(word_of_nat (length m) :: word32) \<noteq> 0" if "m \<noteq> []"
    using n that by (metis length_0_conv unat_0)
  have lm: "length m \<le> length c" using u(2) by (metis length_take min.cobounded1 min.commute)
  have out: "mem_write out 0 m = Some (m @ drop (length m) out)" using assms(8,9) by (simp add: mem_write_in)
  have cap: "\<not> (word_of_nat (length m) :: word32) > outCap" using n assms(8) by (simp add: word_less_nat_alt)
  define b1 where "b1 = take 5 b @ replicate (length m) 0 @ drop (length m) c"
  have l5: "length (take 5 b) = 5" using e(3) b0 ok by (simp add: sess_ok_def word_le_nat_alt)
  then have z: "force_zero (take 5 b @ c) 5 (length m) = Some b1" using lm by (simp add: b1_def force_zero_def mem_write_in)
  have z0: "b1 = take 5 b @ c" if "length m = 0" using that by (simp add: b1_def)
  have c: "recv_content P (s\<lparr>scratch := Some (take 5 b @ c)\<rparr>) io' c (word_of_nat (length m)) 23 out outCap ol =
      Some (0, True, s\<lparr>scratch := Some (take 5 b @ c), sSeq := sSeq s + 1\<rparr>, io', m @ drop (length m) out, word_of_nat (length m))"
    using u(2) lm n out cap by (simp add: recv_content_def mem_read_in)
  have "recv_step P s io out outCap ol =
      Some (0, True, s\<lparr>sSeq := sSeq s + 1, scratch := Some b1\<rparr>, io', m @ drop (length m) out, word_of_nat (length m))"
    using e(1) u(1) b0(1) recv c z z0 n pos
    by (cases "m = []") (simp_all add: recv_step_def Let_def word_neq_0_conv [symmetric])
  moreover have "length b1 = length b" "take (length m) (drop 5 b1) = replicate (length m) 0"
    using l5 lm u(3) by (auto simp: b1_def)
  ultimately show ?thesis using e by auto
qed

text \<open>The effect of the messages does not depend on the scratch buffer.\<close>

lemma effect_scratch:
  "ph_effect P exp send m (s\<lparr>scratch := x\<rparr>, io) =
   (fst (ph_effect P exp send m (s, io))\<lparr>scratch := x\<rparr>, snd (ph_effect P exp send m (s, io)))"
proof (cases m)
  case (KeyUpdate q)
  then show ?thesis
    by (cases q) (simp_all add: rekey_read_def rekey_write_def update_record_def Let_def)
qed simp

lemma effects_scratch:
  "fold (ph_effect P exp send) ms (s\<lparr>scratch := x\<rparr>, io) =
   (fst (fold (ph_effect P exp send) ms (s, io))\<lparr>scratch := x\<rparr>, snd (fold (ph_effect P exp send) ms (s, io)))"
proof (induction ms arbitrary: s io)
  case (Cons m ms)
  show ?case
    using Cons.IH [of "fst (ph_effect P exp send m (s, io))" "snd (ph_effect P exp send m (s, io))"]
    by (simp add: effect_scratch)
qed simp

lemma effects_keep:
  "scratch (fst (fold (ph_effect P exp send) ms (s, io))) = scratch s \<and>
   scratchLen (fst (fold (ph_effect P exp send) ms (s, io))) = scratchLen s \<and>
   flags (fst (fold (ph_effect P exp send) ms (s, io))) = flags s"
proof (induction ms arbitrary: s io)
  case (Cons m ms)
  have "scratch (fst (ph_effect P exp send m (s, io))) = scratch s \<and>
      scratchLen (fst (ph_effect P exp send m (s, io))) = scratchLen s \<and> flags (fst (ph_effect P exp send m (s, io))) = flags s"
  proof (cases m)
    case (KeyUpdate q)
    then show ?thesis by (cases q) (simp_all add: rekey_read_def rekey_write_def Let_def)
  qed simp
  then show ?case
    using Cons.IH [of "fst (ph_effect P exp send m (s, io))" "snd (ph_effect P exp send m (s, io))"] by simp
qed simp

lemma effects_pending:
  assumes "\<And>io d. pending (snd (send io d)) = pending io"
  shows "pending (snd (fold (ph_effect P exp send) ms (s, io))) = pending io"
proof (induction ms arbitrary: s io)
  case (Cons m ms)
  have "pending (snd (ph_effect P exp send m (s, io))) = pending io"
  proof (cases m)
    case (KeyUpdate q)
    then show ?thesis by (cases q) (simp_all add: assms)
  qed simp
  then show ?case
    using Cons.IH [of "fst (ph_effect P exp send m (s, io))" "snd (ph_effect P exp send m (s, io))"] by simp
qed simp

lemma effects_ok:
  assumes "crypto_ok P exp"
  shows "sess_ok send recv s \<Longrightarrow> sess_ok send recv (fst (fold (ph_effect P exp send) ms (s, io)))"
proof (induction ms arbitrary: s io)
  case (Cons m ms)
  show ?case
    using Cons.IH [OF effect_ok [OF assms Cons.prems], of m io "snd (ph_effect P exp send m (s, io))"] by simp
qed simp

lemma recv_step_posts:
  assumes "crypto_ok P exp" and "send_ok send" and ok: "sess_ok send recv s" and "stream_ok recv pending"
    and "\<And>io d. pending (snd (send io d)) = pending io"
    and "\<forall>m\<in>set ms. ph_wf m" and "protect P (sKey s) (sIv s) (sSeq s) WN_REC_HANDSHAKE (enc_phs ms) = Some r"
    and "fits_record (enc_phs ms)" and "pending io = r @ rest" and "length (enc_phs ms) + 22 \<le> unat (scratchLen s)"
  shows "\<exists>b io1 io'. recv_step P s io out outCap ol =
      Some (0, False, fst (fold (ph_effect P exp send) ms (s\<lparr>sSeq := sSeq s + 1\<rparr>, io1))\<lparr>scratch := Some b\<rparr>, io', out, ol) \<and>
    pending io' = rest \<and> length b = length (buf (scratch s))"
proof -
  let ?m = "enc_phs ms"
  obtain b c io1 where e: "wn_RecvRecord recv io (buf (scratch s)) (scratchLen s) 0 0 =
        Some (0, b, 23, word_of_nat (length ?m + 22), io1)"
      "pending io1 = rest" "length b = length (buf (scratch s))"
    and u: "wn_Record_Unprotect P (Some (drop 5 b)) (Some 0) (Some 0) (Some (sKey s)) 16 (Some (sIv s)) (sSeq s) (Some b)
      (word_of_nat (length ?m + 22)) = Some (0, c, Some (word_of_nat (length ?m)), Some 22)"
      "take (length ?m) c = ?m" "length c = length b - 5"
    using recv_peer_record [OF assms(1,3,4,7) _ assms(8-10)] by auto
  obtain b0 where b0: "scratch s = Some b0" "unat (scratchLen s) \<le> length b0" using ok by (rule sess_ok_scratch)
  have recv: "ioRecv s = Some recv" using ok by (simp add: sess_ok_def)
  have n: "unat (word_of_nat (length ?m) :: word32) = length ?m" "length ?m < 2 ^ 31"
    using assms(8) by (simp_all add: fits_record_def)
  have lm: "length ?m \<le> length c" using u(2) by (metis length_take min.cobounded1 min.commute)
  have l5: "length (take 5 b) = 5" using e(3) b0 ok by (simp add: sess_ok_def word_le_nat_alt)
  let ?s = "s\<lparr>sSeq := sSeq s + 1\<rparr>"
  let ?f = "fold (ph_effect P exp send) ms (?s, io1)"
  have "length (take 5 b @ c) = length b0" using l5 u(3) e(3) b0(1) by simp
  then have ok1: "sess_ok send recv (?s\<lparr>scratch := Some (take 5 b @ c)\<rparr>)"
    using ok b0 by (simp add: sess_ok_def)
  have "wn_session_posths P (?s\<lparr>scratch := Some (take 5 b @ c)\<rparr>) io1 c (word_of_nat (length ?m)) =
      Some (0, fst ?f\<lparr>scratch := Some (take 5 b @ c)\<rparr>, snd ?f)"
    using posths_eq [OF assms(1,2) ok1 assms(6), of "word_of_nat (length ?m)" c io1] n u(2) by (simp add: effects_scratch)
  moreover have swap: "s\<lparr>scratch := Some x, sSeq := y\<rparr> = s\<lparr>sSeq := y, scratch := Some x\<rparr>" for x y by simp
  ultimately have rc: "recv_content P (s\<lparr>scratch := Some (take 5 b @ c)\<rparr>) io1 c (word_of_nat (length ?m)) 22 out outCap ol =
      Some (0, False, fst ?f\<lparr>scratch := Some (take 5 b @ c)\<rparr>, snd ?f, out, ol)"
    by (simp add: recv_content_def Let_def swap)
  define b1 where "b1 = (if ?m = [] then take 5 b @ c else take 5 b @ replicate (length ?m) 0 @ drop (length ?m) c)"
  have z: "force_zero (take 5 b @ c) 5 (length ?m) = Some b1" if "?m \<noteq> []"
    using lm l5 that by (simp add: b1_def force_zero_def mem_write_in)
  have pos: "(word_of_nat (length ?m) :: word32) > 0 \<longleftrightarrow> ?m \<noteq> []"
    using n(1) by (simp add: word_less_nat_alt)
  have "recv_step P s io out outCap ol = Some (0, False, fst ?f\<lparr>scratch := Some b1\<rparr>, snd ?f, out, ol)"
    using e(1) u(1) b0(1) recv rc z n(1) pos
    by (cases "?m = []") (simp_all add: recv_step_def Let_def b1_def)
  moreover have "length b1 = length b" using l5 lm u(3) by (auto simp: b1_def)
  moreover have "pending (snd ?f) = rest" using e(2) by (simp add: effects_pending [of pending send, OF assms(5)])
  ultimately show ?thesis using e(3) by auto
qed

section \<open>The peer's stream\<close>

text \<open>
  The peer's write state: traffic secret, record key, IV and sequence number. Each list of
  post-handshake messages goes into one record; behind it the keys have moved on once per
  KeyUpdate.
\<close>

type_synonym write_state = "bytes \<times> bytes \<times> bytes \<times> word64"

definition read_state :: "'io wn_Session \<Rightarrow> write_state" where
  "read_state s = (sAppSecret s, sKey s, sIv s, sSeq s)"

fun peer_rekey :: "hkdf_expand \<Rightarrow> post_hs \<Rightarrow> write_state \<Rightarrow> write_state" where
  "peer_rekey exp (NewSessionTicket b) ws = ws"
| "peer_rekey exp (KeyUpdate q) (sec, key, iv, seq) =
     (let n = next_secret exp sec in (n, secret_key exp n, secret_iv exp n, 0))"

fun peer_posts :: "'o wc \<Rightarrow> hkdf_expand \<Rightarrow> write_state \<Rightarrow> post_hs list list \<Rightarrow> (bytes \<times> write_state) option" where
  "peer_posts P exp ws [] = Some ([], ws)"
| "peer_posts P exp (sec, key, iv, seq) (ms # mss) = do {
     r \<leftarrow> protect P key iv seq WN_REC_HANDSHAKE (enc_phs ms);
     (bs, ws) \<leftarrow> peer_posts P exp (fold (peer_rekey exp) ms (sec, key, iv, seq + 1)) mss;
     Some (r @ bs, ws)
   }"

definition posts_ok :: "word32 \<Rightarrow> post_hs list \<Rightarrow> bool" where
  "posts_ok cap ms \<longleftrightarrow> (\<forall>m\<in>set ms. ph_wf m) \<and> fits_record (enc_phs ms) \<and> length (enc_phs ms) + 22 \<le> unat cap"

lemma read_state_effect: "read_state (fst (ph_effect P exp send m (s, io))) = peer_rekey exp m (read_state s)"
proof (cases m)
  case (KeyUpdate q)
  then show ?thesis by (cases q) (simp_all add: read_state_def rekey_read_def rekey_write_def Let_def)
qed simp

lemma read_state_effects:
  "read_state (fst (fold (ph_effect P exp send) ms (s, io))) = fold (peer_rekey exp) ms (read_state s)"
proof (induction ms arbitrary: s io)
  case (Cons m ms)
  show ?case
    using Cons.IH [of "fst (ph_effect P exp send m (s, io))" "snd (ph_effect P exp send m (s, io))"]
    by (simp add: read_state_effect)
qed simp

lemma recv_loop_delivers:
  assumes "crypto_ok P exp" and "send_ok send" and "stream_ok recv pending"
    and "\<And>io d. pending (snd (send io d)) = pending io"
    and "fits_record m" and "length m \<le> unat outCap" and "unat outCap \<le> length out"
  shows "sess_ok send recv s \<Longrightarrow> scratchLen s = cap \<Longrightarrow> length m + 22 \<le> unat cap \<Longrightarrow> \<forall>ms\<in>set mss. posts_ok cap ms \<Longrightarrow>
    peer_posts P exp (read_state s) mss = Some (pre, sec, key, iv, seq) \<Longrightarrow>
    protect P key iv seq WN_REC_APPDATA m = Some r \<Longrightarrow> pending io = pre @ r @ rest \<Longrightarrow>
    \<exists>s' io'. recv_loop P 0 False s io out outCap ol =
        Some (0, s', io', m @ drop (length m) out, word_of_nat (length m)) \<and>
      pending io' = rest \<and> read_state s' = (sec, key, iv, seq + 1) \<and> sess_ok send recv s' \<and> flags s' = flags s \<and>
      scratchLen s' = scratchLen s \<and> take (length m) (drop 5 (buf (scratch s'))) = replicate (length m) 0"
proof (induction mss arbitrary: s io pre)
  case Nil
  then have st: "pre = []" "read_state s = (sec, key, iv, seq)" by simp_all
  have p: "protect P (sKey s) (sIv s) (sSeq s) WN_REC_APPDATA m = Some r" and q: "pending io = r @ rest"
    and c: "length m + 22 \<le> unat (scratchLen s)"
    using st Nil.prems by (simp_all add: read_state_def)
  obtain b io' where e: "recv_step P s io out outCap ol =
        Some (0, True, s\<lparr>sSeq := sSeq s + 1, scratch := Some b\<rparr>, io', m @ drop (length m) out, word_of_nat (length m))"
      "pending io' = rest" "length b = length (buf (scratch s))" "take (length m) (drop 5 b) = replicate (length m) 0"
    using recv_step_data [OF assms(1) Nil.prems(1) assms(3) p assms(5) q c assms(6,7)] by blast
  have "sess_ok send recv (s\<lparr>sSeq := sSeq s + 1, scratch := Some b\<rparr>)"
    using Nil.prems(1) e(3) by (simp add: sess_ok_def)
  then show ?case
    using e st by (simp add: recv_loop_turn recv_loop_done read_state_def)
next
  case (Cons ms mss)
  obtain r1 bs where p1: "protect P (sKey s) (sIv s) (sSeq s) WN_REC_HANDSHAKE (enc_phs ms) = Some r1"
    and p2: "peer_posts P exp (fold (peer_rekey exp) ms (sAppSecret s, sKey s, sIv s, sSeq s + 1)) mss = Some (bs, sec, key, iv, seq)"
    and pre: "pre = r1 @ bs"
    using Cons.prems(5) by (auto simp: read_state_def bind_eq_Some_conv)
  have ms: "\<forall>m\<in>set ms. ph_wf m" "fits_record (enc_phs ms)" "length (enc_phs ms) + 22 \<le> unat (scratchLen s)"
    using Cons.prems(2,4) by (simp_all add: posts_ok_def)
  have q: "pending io = r1 @ bs @ r @ rest" using Cons.prems(7) pre by simp
  let ?s = "s\<lparr>sSeq := sSeq s + 1\<rparr>"
  obtain b io1 io' where e: "recv_step P s io out outCap ol =
        Some (0, False, fst (fold (ph_effect P exp send) ms (?s, io1))\<lparr>scratch := Some b\<rparr>, io', out, ol)"
      "pending io' = bs @ r @ rest" "length b = length (buf (scratch s))"
    using recv_step_posts [OF assms(1,2) Cons.prems(1) assms(3,4) ms(1) p1 ms(2) q ms(3), of out outCap ol] by blast
  let ?t = "fst (fold (ph_effect P exp send) ms (?s, io1))\<lparr>scratch := Some b\<rparr>"
  note keep = effects_keep [of P exp send ms ?s io1]
  have "sess_ok send recv ?s" using Cons.prems(1) by (simp add: sess_ok_def)
  from effects_ok [OF assms(1) this, of ms io1] have ok: "sess_ok send recv ?t"
    using e(3) keep by (simp add: sess_ok_def)
  have "read_state ?t = fold (peer_rekey exp) ms (read_state ?s)"
    using read_state_effects [of P exp send ms ?s io1] by (simp add: read_state_def)
  then have rs: "peer_posts P exp (read_state ?t) mss = Some (bs, sec, key, iv, seq)"
    using p2 by (simp add: read_state_def)
  have step: "recv_loop P 0 False s io out outCap ol = recv_loop P 0 False ?t io' out outCap ol"
    using e(1) by (simp add: recv_loop_turn [of P s])
  from Cons.IH [OF ok _ Cons.prems(3) _ rs Cons.prems(6) e(2)] show ?case
    unfolding step using keep Cons.prems(2,4) by simp
qed

section \<open>Sending\<close>

lemma Send_eq:
  assumes "crypto_ok P exp" and ok: "sess_ok send recv s" and "flags s = WN_SESS_ESTABLISHED"
    and "fits_record m" and "length m + 22 \<le> unat (scratchLen s)"
  shows "\<exists>r. protect P (cKey s) (cIv s) (cSeq s) WN_REC_APPDATA m = Some r \<and> length r = length m + 22 \<and>
    wn_Send P (Some s) io (Some m) (word_of_nat (length m)) =
      Some (if fst (send io r) = int (length r) then 0 else WOLFNANO_E_CRYPTO,
            Some (s\<lparr>scratch := Some (r @ drop (length r) (buf (scratch s))), cSeq := cSeq s + 1\<rparr>), snd (send io r))"
proof -
  have ch: "channel_ready P (cKey s) (cIv s)" and sd: "ioSend s = Some send"
    using assms(1) ok by (simp_all add: channel_ready_def crypto_ok_def sess_ok_def)
  obtain b where b: "scratch s = Some b" "unat (scratchLen s) \<le> length b" using ok by (rule sess_ok_scratch)
  have lm: "length m \<le> 16384" using assms(4) by (simp add: fits_record_def)
  then have n: "unat (word_of_nat (length m) :: word32) = length m" "(word_of_nat (length m) :: word32) \<le> 16384"
    by (simp_all add: word_le_nat_alt)
  have lb: "length m + 22 \<le> length b" using b(2) assms(5) by simp
  obtain r where r: "protect P (cKey s) (cIv s) (cSeq s) WN_REC_APPDATA m = Some r" "length r = length m + 22"
      "wn_Record_Protect P (Some b) (Some 0) (Some (cKey s)) 16 (Some (cIv s)) (cSeq s) WN_REC_APPDATA (Some m)
        (word_of_nat (length m)) = Some (0, r @ drop (length m + 22) b, Some (word_of_nat (length m) + 22))"
    using Protect_record [OF ch assms(4) lb n(1), of m "cSeq s" WN_REC_APPDATA 0] by auto
  have guard: "\<not> (word_of_nat (length m) > (16384 :: word32) \<or> scratchLen s < 22 \<or> word_of_nat (length m) > scratchLen s - 22)"
    using n assms(5) by (auto simp: not_less word_le_nat_alt unat_sub_no_wrap)
  have len: "unat (word_of_nat (length m) + 22 :: word32) = length r"
    "sint (word_of_nat (length m) + 22 :: word32) = int (length r)"
    using record_len [OF n(2)] n(1) r(2) by simp_all
  obtain x io' where "send io r = (x, io')" by fastforce
  then show ?thesis
    using r b sd guard len assms(3) by (auto simp: wn_Send_def Let_def mem_read_in)
qed

fun send_all :: "'o wc \<Rightarrow> 'io wn_Session \<Rightarrow> 'io \<Rightarrow> bytes list \<Rightarrow> ('io wn_Session \<times> 'io) option" where
  "send_all P s io [] = Some (s, io)"
| "send_all P s io (m # ms) =
     (case wn_Send P (Some s) io (Some m) (word_of_nat (length m)) of
        Some (ret, Some s, io) \<Rightarrow> if ret = WOLFNANO_SUCCESS then send_all P s io ms else None
      | _ \<Rightarrow> None)"

fun recv_all :: "'o wc \<Rightarrow> 'io wn_Session \<Rightarrow> 'io \<Rightarrow> word32 \<Rightarrow> nat \<Rightarrow> (bytes list \<times> 'io wn_Session \<times> 'io) option" where
  "recv_all P s io cap 0 = Some ([], s, io)"
| "recv_all P s io cap (Suc k) =
     (case wn_Recv P (Some s) io (Some (replicate (unat cap) 0)) cap (Some 0) of
        Some (ret, Some s, io, out, Some n) \<Rightarrow>
          if ret = WOLFNANO_SUCCESS
          then recv_all P s io cap k \<bind> (\<lambda>(ms, s, io). Some (take (unat n) out # ms, s, io)) else None
      | _ \<Rightarrow> None)"

lemma send_all_eq:
  assumes "crypto_ok P exp" and "send_ok send"
  shows "sess_ok send recv s \<Longrightarrow> flags s = WN_SESS_ESTABLISHED \<Longrightarrow>
    \<forall>m\<in>set ms. fits_record m \<and> length m + 22 \<le> unat (scratchLen s) \<Longrightarrow>
    \<exists>rs s'. wrap_all (protect P (cKey s) (cIv s)) (cSeq s) (map (Pair WN_REC_APPDATA) ms) = Some rs \<and>
      send_all P s io ms = Some (s', fold (\<lambda>r io. snd (send io r)) rs io) \<and> length rs = length ms \<and>
      cSeq s' = cSeq s + word_of_nat (length ms)"
proof (induction ms arbitrary: s io)
  case (Cons m ms)
  have m: "fits_record m" "length m + 22 \<le> unat (scratchLen s)" using Cons.prems(3) by simp_all
  obtain r where r: "protect P (cKey s) (cIv s) (cSeq s) WN_REC_APPDATA m = Some r" "length r = length m + 22"
      "wn_Send P (Some s) io (Some m) (word_of_nat (length m)) =
      Some (if fst (send io r) = int (length r) then 0 else WOLFNANO_E_CRYPTO,
            Some (s\<lparr>scratch := Some (r @ drop (length r) (buf (scratch s))), cSeq := cSeq s + 1\<rparr>), snd (send io r))"
    using Send_eq [OF assms(1) Cons.prems(1,2) m] by blast
  let ?s = "s\<lparr>scratch := Some (r @ drop (length r) (buf (scratch s))), cSeq := cSeq s + 1\<rparr>"
  have ok: "sess_ok send recv ?s" using Cons.prems(1) m(2) r(2) by (simp add: sess_ok_def)
  obtain rs s' where "wrap_all (protect P (cKey s) (cIv s)) (cSeq s + 1) (map (Pair WN_REC_APPDATA) ms) = Some rs"
      "send_all P ?s (snd (send io r)) ms = Some (s', fold (\<lambda>r io. snd (send io r)) rs (snd (send io r)))"
      "length rs = length ms" "cSeq s' = cSeq s + 1 + word_of_nat (length ms)"
    using Cons.IH [OF ok, of "snd (send io r)"] Cons.prems(2,3) by auto
  moreover have "fst (send io r) = int (length r)" using assms(2) by (simp add: send_ok_def)
  ultimately show ?case using r by (simp add: add.assoc)
qed simp

lemma Recv_delivers:
  assumes "crypto_ok P exp" and "send_ok send" and "stream_ok recv pending"
    and "\<And>io d. pending (snd (send io d)) = pending io"
    and "sess_ok send recv s" and "flags s = WN_SESS_ESTABLISHED"
    and "\<forall>ms\<in>set mss. posts_ok (scratchLen s) ms"
    and "fits_record m" and "length m + 22 \<le> unat (scratchLen s)" and "length m \<le> unat outCap" and "unat outCap \<le> length out"
    and "peer_posts P exp (read_state s) mss = Some (pre, sec, key, iv, seq)"
    and "protect P key iv seq WN_REC_APPDATA m = Some r" and "pending io = pre @ r @ rest"
  shows "\<exists>s' io'. wn_Recv P (Some s) io (Some out) outCap (Some ol) =
      Some (0, Some s', io', m @ drop (length m) out, Some (word_of_nat (length m))) \<and>
    pending io' = rest \<and> read_state s' = (sec, key, iv, seq + 1) \<and> sess_ok send recv s' \<and> flags s' = WN_SESS_ESTABLISHED \<and>
    scratchLen s' = scratchLen s \<and> take (length m) (drop 5 (buf (scratch s'))) = replicate (length m) 0"
  using recv_loop_delivers [OF assms(1-4,8,10,11,5) refl assms(9,7,12-14), of 0] assms(6)
  by (auto simp: wn_Recv_def)

lemma recv_all_eq:
  assumes "crypto_ok P exp" and "send_ok send" and "stream_ok recv pending"
    and "\<And>io d. pending (snd (send io d)) = pending io"
  shows "sess_ok send recv s \<Longrightarrow> flags s = WN_SESS_ESTABLISHED \<Longrightarrow>
    \<forall>m\<in>set ms. fits_record m \<and> length m + 22 \<le> unat (scratchLen s) \<and> length m \<le> unat cap \<Longrightarrow>
    wrap_all (protect P (sKey s) (sIv s)) (sSeq s) (map (Pair WN_REC_APPDATA) ms) = Some rs \<Longrightarrow>
    pending io = concat rs @ rest \<Longrightarrow>
    \<exists>s' io'. recv_all P s io cap (length ms) = Some (ms, s', io') \<and> pending io' = rest \<and> sSeq s' = sSeq s + word_of_nat (length ms)"
proof (induction ms arbitrary: s io rs)
  case (Cons m ms)
  have m: "fits_record m" "length m + 22 \<le> unat (scratchLen s)" "length m \<le> unat cap" using Cons.prems(3) by simp_all
  obtain r rs' where r: "protect P (sKey s) (sIv s) (sSeq s) WN_REC_APPDATA m = Some r" "rs = r # rs'"
    and w: "wrap_all (protect P (sKey s) (sIv s)) (sSeq s + 1) (map (Pair WN_REC_APPDATA) ms) = Some rs'"
    using Cons.prems(4) by (auto simp: bind_eq_Some_conv)
  have st: "peer_posts P exp (read_state s) [] = Some ([], sAppSecret s, sKey s, sIv s, sSeq s)" by (simp add: read_state_def)
  have o: "unat cap \<le> length (replicate (unat cap) (0 :: byte))" by simp
  have q: "pending io = [] @ r @ (concat rs' @ rest)" using Cons.prems(5) r(2) by simp
  obtain s1 io1 where e: "wn_Recv P (Some s) io (Some (replicate (unat cap) 0)) cap (Some 0) =
        Some (0, Some s1, io1, m @ drop (length m) (replicate (unat cap) 0), Some (word_of_nat (length m)))"
      "pending io1 = concat rs' @ rest" "read_state s1 = (sAppSecret s, sKey s, sIv s, sSeq s + 1)"
      "sess_ok send recv s1" "flags s1 = WN_SESS_ESTABLISHED" "scratchLen s1 = scratchLen s"
    using Recv_delivers [OF assms Cons.prems(1,2) _ m o st r(1) q, of 0] by auto
  have k: "sKey s1 = sKey s" "sIv s1 = sIv s" "sSeq s1 = sSeq s + 1" using e(3) by (simp_all add: read_state_def)
  have n: "unat (word_of_nat (length m) :: word32) = length m" using m(1) by (simp add: fits_record_def)
  obtain s' io' where "recv_all P s1 io1 cap (length ms) = Some (ms, s', io')" "pending io' = rest"
      "sSeq s' = sSeq s1 + word_of_nat (length ms)"
    using Cons.IH [OF e(4,5) _ _ e(2)] w k e(6) Cons.prems(3) by auto
  then show ?case using e(1) n k(3) by (simp add: add.assoc)
qed simp

section \<open>Properties\<close>

text \<open>
  C2. End to end: when one session sends any sequence of messages with \<open>wn_Send\<close> and the
  transport delivers the records it was given (in chunks of any size), a session with the
  matching read keys and sequence number receives exactly these messages, in order, with
  \<open>wn_Recv\<close>, and both sequence numbers have advanced by the number of messages.
\<close>

theorem session_channel:
  assumes "crypto_ok P exp" and "send_ok send" and "send_ok send'" and "stream_ok recv' pending"
    and "\<And>io d. pending (snd (send' io d)) = pending io"
    and "sess_ok send recv s" and "flags s = WN_SESS_ESTABLISHED"
    and "sess_ok send' recv' t" and "flags t = WN_SESS_ESTABLISHED"
    and "sKey t = cKey s" and "sIv t = cIv s" and "sSeq t = cSeq s"
    and "\<forall>m\<in>set ms. length m \<le> 16384 \<and> length m + 22 \<le> unat (scratchLen s) \<and>
           length m + 22 \<le> unat (scratchLen t) \<and> length m \<le> unat cap"
  shows "\<exists>rs s'. send_all P s io ms = Some (s', fold (\<lambda>r io. snd (send io r)) rs io) \<and>
    (\<forall>io'. pending io' = concat rs @ rest \<longrightarrow>
      (\<exists>t' io''. recv_all P t io' cap (length ms) = Some (ms, t', io'') \<and> pending io'' = rest \<and> sSeq t' = cSeq s'))"
proof -
  have "\<forall>m\<in>set ms. fits_record m \<and> length m + 22 \<le> unat (scratchLen s)"
    and r: "\<forall>m\<in>set ms. fits_record m \<and> length m + 22 \<le> unat (scratchLen t) \<and> length m \<le> unat cap"
    using assms(13) by (auto simp: fits_record_def)
  then obtain rs s' where w: "wrap_all (protect P (cKey s) (cIv s)) (cSeq s) (map (Pair WN_REC_APPDATA) ms) = Some rs"
      "send_all P s io ms = Some (s', fold (\<lambda>r io. snd (send io r)) rs io)"
      "cSeq s' = cSeq s + word_of_nat (length ms)"
    using send_all_eq [OF assms(1,2,6,7)] by blast
  moreover have "\<exists>t' io''. recv_all P t io' cap (length ms) = Some (ms, t', io'') \<and> pending io'' = rest \<and> sSeq t' = cSeq s'"
    if "pending io' = concat rs @ rest" for io'
    using recv_all_eq [OF assms(1,3,4,5,8,9) r _ that] w assms(10-12) by simp
  ultimately show ?thesis by blast
qed

definition demo_send :: "bytes wn_IoSend" where
  "demo_send io d = (int (length d), io)"

definition demo_session :: "bytes wn_Session" where
  "demo_session = \<lparr>ioSend = Some demo_send, ioRecv = Some demo_recv, ioCtx = 1, scratch = Some (replicate 64 0), scratchLen = 64,
     cAppSecret = replicate 32 1, sAppSecret = replicate 32 1, cKey = replicate 16 2, cIv = replicate 12 3,
     sKey = replicate 16 2, sIv = replicate 12 3, cSeq = 5, sSeq = 5, sess_digest = WC_SHA256, flags = WN_SESS_ESTABLISHED\<rparr>"

lemma demo_crypto: "crypto_ok demo_wc (\<lambda>d k l n. pad n (k @ l))"
proof -
  have "kdf_usable demo_wc (\<lambda>d s i. pad (digest_size d) (s @ i)) (\<lambda>d k l n. pad n (k @ l)) WC_SHA256"
    by (simp add: kdf_usable_def demo_hkdf)
  then show ?thesis using demo_gcm by (auto simp: crypto_ok_def)
qed

lemma demo_session_ok: "sess_ok demo_send demo_recv demo_session" "flags demo_session = WN_SESS_ESTABLISHED"
  by (simp_all add: sess_ok_def demo_session_def)

lemma demo_send_ok: "send_ok demo_send" "snd (demo_send io d) = io"
  by (simp_all add: send_ok_def demo_send_def)

lemma demo_io_ok: "io_ok demo_send demo_recv length"
  using stream_recv_ok [OF demo_stream] by (auto simp: io_ok_def demo_send_def demo_recv_def split: list.splits)

theorem session_channel_witness:
  "\<exists>rs s'. send_all demo_wc demo_session [] [[1, 2], [3]] = Some (s', fold (\<lambda>r io. snd (demo_send io r)) rs []) \<and>
    (\<forall>io'. id io' = concat rs @ [9] \<longrightarrow>
      (\<exists>t' io''. recv_all demo_wc demo_session io' 8 2 = Some ([[1, 2], [3]], t', io'') \<and> id io'' = [9] \<and> sSeq t' = cSeq s'))"
proof -
  have "\<forall>m\<in>set [[1, 2], [3 :: byte]]. length m \<le> 16384 \<and> length m + 22 \<le> unat (scratchLen demo_session) \<and>
      length m + 22 \<le> unat (scratchLen demo_session) \<and> length m \<le> unat (8 :: word32)"
    by (simp add: demo_session_def)
  moreover have "sKey demo_session = cKey demo_session" "sIv demo_session = cIv demo_session" "sSeq demo_session = cSeq demo_session"
    by (simp_all add: demo_session_def)
  ultimately have "\<exists>rs s'. send_all demo_wc demo_session [] [[1, 2], [3]] = Some (s', fold (\<lambda>r io. snd (demo_send io r)) rs []) \<and>
    (\<forall>io'. id io' = concat rs @ [9] \<longrightarrow>
      (\<exists>t' io''. recv_all demo_wc demo_session io' 8 (length [[1, 2], [3 :: byte]]) = Some ([[1, 2], [3]], t', io'') \<and> id io'' = [9] \<and> sSeq t' = cSeq s'))"
    by (intro session_channel [OF demo_crypto demo_send_ok(1) demo_send_ok(1) demo_stream _
        demo_session_ok demo_session_ok]) (simp_all add: demo_send_ok(2))
  moreover have "length [[1, 2], [3 :: byte]] = 2" by simp
  ultimately show ?thesis by (simp only:)
qed

text \<open>
  C3. Receiving skips NewSessionTicket messages and follows KeyUpdates: behind any number
  of post-handshake records of the peer, each with any sequence of well-formed messages,
  \<open>wn_Recv\<close> delivers the next application data record; its read keys and sequence number
  have followed the peer's (RFC 8446, section 7.2), nothing behind that record is
  consumed, and the plaintext is gone from the scratch buffer.
\<close>

theorem recv_follows_peer:
  assumes "crypto_ok P exp" and "send_ok send" and "stream_ok recv pending"
    and "\<And>io d. pending (snd (send io d)) = pending io"
    and "sess_ok send recv s" and "flags s = WN_SESS_ESTABLISHED"
    and "\<forall>ms\<in>set mss. posts_ok (scratchLen s) ms"
    and "fits_record m" and "length m + 22 \<le> unat (scratchLen s)" and "length m \<le> unat outCap" and "unat outCap \<le> length out"
    and "peer_posts P exp (read_state s) mss = Some (pre, sec, key, iv, seq)"
    and "protect P key iv seq WN_REC_APPDATA m = Some r" and "pending io = pre @ r @ rest"
  shows "\<exists>s' io'. wn_Recv P (Some s) io (Some out) outCap (Some ol) =
      Some (0, Some s', io', m @ drop (length m) out, Some (word_of_nat (length m))) \<and>
    pending io' = rest \<and> read_state s' = (sec, key, iv, seq + 1) \<and> sess_ok send recv s' \<and> flags s' = WN_SESS_ESTABLISHED \<and>
    take (length m) (drop 5 (buf (scratch s'))) = replicate (length m) 0"
  using Recv_delivers [OF assms, of ol] by blast

definition demo_posts :: "post_hs list list" where
  "demo_posts = [[NewSessionTicket [7]], [KeyUpdate True, NewSessionTicket []]]"

lemma peer_posts_total:
  assumes "crypto_ok P exp"
  shows "length key = 16 \<Longrightarrow> length iv = 12 \<Longrightarrow> \<forall>ms\<in>set mss. fits_record (enc_phs ms) \<Longrightarrow>
    \<exists>pre sec' key' iv' seq'. peer_posts P exp (sec, key, iv, seq) mss = Some (pre, sec', key', iv', seq') \<and>
      length key' = 16 \<and> length iv' = 12"
proof (induction mss arbitrary: sec key iv seq)
  case (Cons ms mss)
  have "channel_ready P key iv" using assms Cons.prems by (simp add: channel_ready_def crypto_ok_def)
  then obtain r where r: "protect P key iv seq WN_REC_HANDSHAKE (enc_phs ms) = Some r"
    using Cons.prems(3) chan.wrap_total by fastforce
  obtain sec1 key1 iv1 seq1 where f: "fold (peer_rekey exp) ms (sec, key, iv, seq + 1) = (sec1, key1, iv1, seq1)"
    by (metis prod.exhaust)
  have "length (fst (snd (fold (peer_rekey exp) ms ws))) = 16 \<and> length (fst (snd (snd (fold (peer_rekey exp) ms ws)))) = 12"
    if "length (fst (snd ws)) = 16" "length (fst (snd (snd ws))) = 12" for ws
    using that
  proof (induction ms arbitrary: ws)
    case (Cons m ms)
    have "length (fst (snd (peer_rekey exp m ws))) = 16 \<and> length (fst (snd (snd (peer_rekey exp m ws)))) = 12"
      using Cons.prems derived_lengths [OF assms] by (cases m; cases ws) (simp_all add: Let_def)
    then show ?case using Cons.IH by simp
  qed simp
  from this [of "(sec, key, iv, seq + 1)"] have "length key1 = 16" "length iv1 = 12" using Cons.prems(1,2) f by simp_all
  from Cons.IH [OF this, of sec1 seq1] Cons.prems(3) show ?case using r f by auto
qed simp

theorem recv_follows_peer_witness:
  "\<exists>io s' io' rest. wn_Recv demo_wc (Some demo_session) io (Some [0, 0, 0]) 3 (Some 0) =
    Some (0, Some s', io', [8, 9, 0], Some 2) \<and> id io' = rest"
proof -
  have posts: "\<forall>ms\<in>set demo_posts. posts_ok (scratchLen demo_session) ms"
    by (simp add: demo_posts_def posts_ok_def demo_session_def enc_phs_def fits_record_def)
  then have "\<forall>ms\<in>set demo_posts. fits_record (enc_phs ms)" by (simp add: posts_ok_def)
  then obtain pre sec key iv seq where pp: "peer_posts demo_wc (\<lambda>d k l n. pad n (k @ l)) (read_state demo_session) demo_posts =
      Some (pre, sec, key, iv, seq)" and kl: "length key = 16" "length iv = 12"
    using peer_posts_total [OF demo_crypto, of "sKey demo_session" "sIv demo_session" demo_posts "sAppSecret demo_session" "sSeq demo_session"]
    by (auto simp: demo_session_def read_state_def)
  obtain r where r: "protect demo_wc key iv seq WN_REC_APPDATA [8, 9] = Some r"
    using chan.wrap_total [of demo_wc key iv "[8, 9]" seq WN_REC_APPDATA] kl demo_gcm
    by (auto simp: channel_ready_def fits_record_def)
  have "\<exists>s' io'. wn_Recv demo_wc (Some demo_session) (pre @ r @ [1]) (Some [0, 0, 0]) 3 (Some 0) =
      Some (0, Some s', io', [8, 9] @ drop (length [8, 9 :: byte]) [0, 0, 0], Some (word_of_nat (length [8, 9 :: byte]))) \<and>
    id io' = [1] \<and> read_state s' = (sec, key, iv, seq + 1) \<and> sess_ok demo_send demo_recv s' \<and> flags s' = WN_SESS_ESTABLISHED \<and>
    take (length [8, 9 :: byte]) (drop 5 (buf (scratch s'))) = replicate (length [8, 9 :: byte]) 0"
    by (rule recv_follows_peer [OF demo_crypto demo_send_ok(1) demo_stream _ demo_session_ok posts _ _ _ _ pp r])
      (simp_all add: demo_send_ok(2) fits_record_def demo_session_def)
  then show ?thesis by auto
qed

text \<open>
  C4. \<open>wn_Recv\<close> returns on every input: whatever the peer and the network deliver, on a
  transport that delivers finitely many bytes the loops over records and over
  post-handshake messages end, no access leaves a buffer, nothing behind \<open>outCap\<close> is
  written, the session stays well formed, and \<open>outLen\<close> is at most \<open>outCap\<close> on success and 0
  on any error of an open session.
\<close>

theorem recv_returns:
  assumes "wc_sizes P" and "gcm_sizes P" and "sess_ok send recv s" and "io_ok send recv avail"
    and "flags s = WN_SESS_ESTABLISHED" and "unat outCap \<le> length out"
  shows "runs (wn_Recv P (Some s) io (Some out) outCap (Some ol)) (\<lambda>(ret, s', io', out', ol').
    (\<exists>t. s' = Some t \<and> sess_ok send recv t) \<and> avail io' \<le> avail io \<and> length out' = length out \<and>
    drop (unat outCap) out' = drop (unat outCap) out \<and>
    (\<exists>l. ol' = Some l \<and> (if ret = 0 then l \<le> outCap else l = 0)))"
proof -
  from recv_loop_runs [OF assms(1,2,4,3,6), of io 0] obtain ret s' io' out' ol' where
    "recv_loop P 0 False s io out outCap 0 = Some (ret, s', io', out', ol')"
    "sess_ok send recv s'" "flags_after ret s s'" "avail io' \<le> avail io" "length out' = length out"
    "drop (unat outCap) out' = drop (unat outCap) out" "if ret = 0 then ol' \<le> outCap else ol' = 0"
    by (rule runs5E) blast
  then show ?thesis using assms(5) by (simp add: wn_Recv_def)
qed

theorem recv_returns_witness:
  "runs (wn_Recv demo_wc (Some demo_session) [1, 2, 3] (Some [0, 0, 0]) 3 (Some 7)) (\<lambda>(ret, s', io', out', ol').
    length out' = 3 \<and> (\<exists>l. ol' = Some l \<and> (if ret = 0 then l \<le> 3 else l = 0)))"
proof -
  have "wc_sizes demo_wc" "gcm_sizes demo_wc" using crypto_sizes [OF demo_crypto] by auto
  from recv_returns [OF this demo_session_ok(1) demo_io_ok demo_session_ok(2), of 3 "[0, 0, 0]" "[1, 2, 3]" 7]
  show ?thesis by (auto elim!: runs_mono)
qed

text \<open>
  C5. Post-handshake processing refines the message-level specification: on a record with
  any sequence of well-formed messages \<open>wn_session_posths\<close> succeeds and its effect on the
  session and the transport is the fold of \<open>ph_effect\<close>: tickets change nothing, a KeyUpdate
  moves the read keys to the next generation and resets the read sequence number, and a
  requested one is answered with a KeyUpdate record under the old write keys before these
  move on as well.
\<close>

theorem posths_refines:
  assumes "crypto_ok P exp" and "send_ok send" and "sess_ok send recv s" and "\<forall>m\<in>set ms. ph_wf m"
    and "unat n = length (enc_phs ms)" and "take (unat n) msg = enc_phs ms" and "unat n < 2 ^ 31"
  shows "wn_session_posths P s io msg n =
    (case fold (ph_effect P exp send) ms (s, io) of (s', io') \<Rightarrow> Some (0, s', io'))"
  using assms by (rule posths_eq)

theorem posths_refines_witness:
  "wn_session_posths demo_wc demo_session [] [24, 0, 0, 1, 0, 4, 0, 0, 1, 9, 5] 10 =
    Some (0, rekey_read (\<lambda>d k l n. pad n (k @ l)) demo_session, [])"
  using posths_refines [OF demo_crypto demo_send_ok(1) demo_session_ok(1), of "[KeyUpdate False, NewSessionTicket [9]]" 10
      "[24, 0, 0, 1, 0, 4, 0, 0, 1, 9, 5]" "[]"]
  by (simp add: enc_phs_def be_bytes_3_1)

section \<open>Closing\<close>

lemma length_pair: "length [a, b] = 2"
  by simp

lemma replicate_pair: "replicate 2 x = [x, x]"
  by (simp add: numeral_2_eq_2)

lemma recv_close_notify:
  assumes "crypto_ok P exp" and ok: "sess_ok send recv s" and "stream_ok recv pending" and "flags s = WN_SESS_ESTABLISHED"
    and "protect P (sKey s) (sIv s) (sSeq s) WN_REC_ALERT [lvl, 0] = Some r" and "pending io = r @ rest"
    and "24 \<le> unat (scratchLen s)"
  shows "\<exists>s' io'. wn_Recv P (Some s) io (Some out) outCap (Some ol) = Some (WOLFNANO_E_CLOSED, Some s', io', out, Some 0) \<and>
    pending io' = rest \<and> flags s' = 3"
proof -
  have f: "fits_record [lvl, 0]" "length [lvl, 0] + 22 \<le> unat (scratchLen s)" using assms(7) by (simp_all add: fits_record_def)
  obtain b c io' where e: "wn_RecvRecord recv io (buf (scratch s)) (scratchLen s) 0 0 = Some (0, b, 23, 24, io')"
      "pending io' = rest" "length b = length (buf (scratch s))"
    and u: "wn_Record_Unprotect P (Some (drop 5 b)) (Some 0) (Some 0) (Some (sKey s)) 16 (Some (sIv s)) (sSeq s) (Some b) 24 =
      Some (0, c, Some 2, Some 21)"
      "take 2 c = [lvl, 0]" "length c = length b - 5"
    using recv_peer_record [OF assms(1,2,3,5) _ f(1) assms(6) f(2), unfolded length_pair] by auto
  obtain b0 where b0: "scratch s = Some b0" "unat (scratchLen s) \<le> length b0" using ok by (rule sess_ok_scratch)
  have recv: "ioRecv s = Some recv" using ok by (simp add: sess_ok_def)
  have lc: "2 \<le> length c" using e(3) u(3) b0 assms(7) by simp
  have "take 2 c ! 1 = 0" using u(2) by simp
  then have c1: "mem_get c (Suc 0) = Some 0" using lc by (simp add: mem_get_def)
  have l5: "length (take 5 b) = 5" using e(3) b0 assms(7) by simp
  have z: "force_zero (take 5 b @ c) 5 2 = Some (take 5 b @ [0, 0] @ drop 2 c)"
    using l5 lc by (simp add: force_zero_def mem_write_in replicate_pair)
  have fl: "flags s OR 2 = 3" using assms(4) by simp
  let ?s = "s\<lparr>scratch := Some (take 5 b @ [0, 0] @ drop 2 c), sSeq := sSeq s + 1, flags := 3\<rparr>"
  have "recv_step P s io out outCap 0 = Some (WOLFNANO_E_CLOSED, False, ?s, io', out, 0)"
    using e(1) u(1) b0(1) recv c1 z fl by (simp add: recv_step_def recv_content_def Let_def mem_get_def)
  then show ?thesis
    using assms(4) e(2) by (simp add: wn_Recv_def recv_loop_turn recv_loop_done)
qed

text \<open>
  C6. A \<open>close_notify\<close> of the peer closes the session for good: \<open>wn_Recv\<close> returns
  \<open>E_CLOSED\<close> with length 0 and an untouched output buffer, and from then on \<open>wn_Send\<close> and
  \<open>wn_Recv\<close> return \<open>E_CLOSED\<close> without touching the session, the transport or the buffer.
  The later calls do not set \<open>outLen\<close>: it keeps what the caller had there.
\<close>

theorem close_notify_sticks:
  assumes "crypto_ok P exp" and "sess_ok send recv s" and "stream_ok recv pending" and "flags s = WN_SESS_ESTABLISHED"
    and "protect P (sKey s) (sIv s) (sSeq s) WN_REC_ALERT [lvl, 0] = Some r" and "pending io = r @ rest"
    and "24 \<le> unat (scratchLen s)"
  shows "\<exists>s' io'. wn_Recv P (Some s) io (Some out) outCap (Some ol) = Some (WOLFNANO_E_CLOSED, Some s', io', out, Some 0) \<and>
    pending io' = rest \<and>
    (\<forall>io'' d n. wn_Send P (Some s') io'' (Some d) n = Some (WOLFNANO_E_CLOSED, Some s', io'')) \<and>
    (\<forall>io'' o' n l. wn_Recv P (Some s') io'' (Some o') n (Some l) = Some (WOLFNANO_E_CLOSED, Some s', io'', o', Some l))"
proof -
  have and3: "(3 :: int) AND 2 \<noteq> 0" by simp
  obtain s' io' where "wn_Recv P (Some s) io (Some out) outCap (Some ol) = Some (WOLFNANO_E_CLOSED, Some s', io', out, Some 0)"
    "pending io' = rest" "flags s' = 3"
    using recv_close_notify [OF assms] by blast
  then show ?thesis
    by (intro exI [of _ s'] exI [of _ io']) (simp add: wn_Send_def wn_Recv_def and3)
qed

theorem close_notify_sticks_witness:
  "\<exists>io s' io'. wn_Recv demo_wc (Some demo_session) io (Some [5]) 1 (Some 7) = Some (WOLFNANO_E_CLOSED, Some s', io', [5], Some 0) \<and>
    wn_Recv demo_wc (Some s') io' (Some [5]) 1 (Some 7) = Some (WOLFNANO_E_CLOSED, Some s', io', [5], Some 7)"
proof -
  have "channel_ready demo_wc (sKey demo_session) (sIv demo_session)"
    using demo_gcm by (simp add: channel_ready_def demo_session_def)
  then obtain r where r: "protect demo_wc (sKey demo_session) (sIv demo_session) (sSeq demo_session) WN_REC_ALERT [1, 0] = Some r"
    using chan.wrap_total [of demo_wc _ _ "[1, 0]"] by (fastforce simp: fits_record_def)
  have "id (r @ []) = r @ []" "24 \<le> unat (scratchLen demo_session)" by (simp_all add: demo_session_def)
  from close_notify_sticks [OF demo_crypto demo_session_ok(1) demo_stream demo_session_ok(2) r this, of "[5]" 1 7]
  show ?thesis by blast
qed

lemma Protect_close_notify:
  assumes "gcm_ok P" and "length key = 16" and "length iv = 12"
  shows "\<exists>r. protect P key iv seq WN_REC_ALERT [1, 0] = Some r \<and> length r = 24 \<and>
    wn_Record_Protect P (Some (replicate 24 0)) (Some 0) (Some key) 16 (Some iv) seq WN_REC_ALERT (Some [1, 0]) 2 =
      Some (0, r, Some 24)"
proof -
  have "channel_ready P key iv" "fits_record [1, 0]"
    using assms by (simp_all add: channel_ready_def fits_record_def)
  then show ?thesis
    using Protect_record [of P key iv "[1, 0]" "replicate 24 0" 2 "[1, 0]" seq WN_REC_ALERT 0, unfolded length_pair]
    by auto
qed

text \<open>
  C7. \<open>wn_Close\<close> leaves nothing behind: on every session, also when the alert cannot be sealed,
  the struct is zero afterwards (secrets, keys, IVs, counters, callbacks and flags), so that
  \<open>wn_Send\<close> and \<open>wn_Recv\<close> on it return \<open>E_BAD_STATE\<close>. When sealing works, an established session
  that is not closed sends one \<open>close_notify\<close> record under its current write key and sequence
  number first; any other session sends nothing.
\<close>

theorem close_wipes:
  assumes "gcm_sizes P" and "length (cKey s) = 16" and "length (cIv s) = 12"
  shows "\<exists>ret io'. wn_Close P (Some s) io = Some (ret, Some zero_session, io') \<and> ret \<in> {0, WOLFNANO_E_CRYPTO} \<and>
    (gcm_ok P \<longrightarrow> ret = 0 \<and> (\<exists>r. protect P (cKey s) (cIv s) (cSeq s) WN_REC_ALERT [1, 0] = Some r \<and>
      io' = (case ioSend s of
        Some send \<Rightarrow> if flags s AND 2 = 0 \<and> flags s AND 1 \<noteq> 0 then snd (send io r) else io
      | None \<Rightarrow> io))) \<and>
    wn_Send P (Some (zero_session :: 'io wn_Session)) io (Some d) n = Some (WOLFNANO_E_BAD_STATE, Some zero_session, io) \<and>
    wn_Recv P (Some (zero_session :: 'io wn_Session)) io (Some o') n (Some l) = Some (WOLFNANO_E_BAD_STATE, Some zero_session, io, o', Some l)"
proof -
  have closed: "wn_Send P (Some (zero_session :: 'io wn_Session)) io (Some d) n = Some (WOLFNANO_E_BAD_STATE, Some zero_session, io)"
    "wn_Recv P (Some (zero_session :: 'io wn_Session)) io (Some o') n (Some l) = Some (WOLFNANO_E_BAD_STATE, Some zero_session, io, o', Some l)"
    by (simp_all add: wn_Send_def wn_Recv_def zero_session_def)
  obtain ret rec rl where p: "wn_Record_Protect P (Some (replicate 24 0)) (Some 0) (Some (cKey s)) 16 (Some (cIv s)) (cSeq s)
      WN_REC_ALERT (Some [1, 0]) 2 = Some (ret, rec, rl)"
    and r: "length rec = 24" "ret \<in> {0, WOLFNANO_E_CRYPTO}" "ret = 0 \<longrightarrow> rl = Some 24"
    using Protect_runs [OF assms, of 2 "[1, 0]" "replicate 24 0" 0 "cSeq s" WN_REC_ALERT] by (auto elim!: runs3E)
  show ?thesis
  proof (cases "gcm_ok P")
    case True
    from Protect_close_notify [OF this assms(2,3), of "cSeq s"] obtain x
      where "protect P (cKey s) (cIv s) (cSeq s) WN_REC_ALERT [1, 0] = Some x" and "rec = x" "ret = 0"
      unfolding p by auto
    then show ?thesis
      using p r closed by (auto simp: wn_Close_def mem_read_in split: option.splits)
  next
    case False
    then show ?thesis
      using p r closed by (auto simp: wn_Close_def mem_read_in split: option.splits)
  qed
qed

theorem close_wipes_witness:
  "\<exists>r. wn_Close demo_wc (Some demo_session) [] = Some (0, Some zero_session, snd (demo_send [] r))"
proof -
  have "length (cKey demo_session) = 16" "length (cIv demo_session) = 12" "ioSend demo_session = Some demo_send"
    "flags demo_session = 1" by (simp_all add: demo_session_def)
  then show ?thesis using close_wipes [OF demo_gcm_sizes, of demo_session "[]" "[]" 0 "[]" 0] demo_gcm by auto
qed

end
