(* ===== verification/Wn_Handshake.thy ===== *)
theory Wn_Handshake
  imports Wn_ServerHello Wn_ClientHello Wn_Transcript Wn_SessionSpec
begin

text \<open>
  The parts of \<open>src/src/wn_connect.c\<close> that the PSK and the certificate driver share: the check of
  EncryptedExtensions, plaintext records and alerts, the handshake and application key
  schedules, and the phases of the handshake up to the shared secret and from the client's
  Finished on. The drivers' local variables are the fields of a record; a phase takes and
  returns it with the return code, and \<open>ok\<close> runs a phase when no error has occurred, which is
  the \<open>if (ret == WOLFNANO_SUCCESS)\<close> of the source. Locals hold zero bytes until they are
  written.
\<close>

section \<open>Sequencing\<close>

definition ok :: "('s \<Rightarrow> (int \<times> 's) option) \<Rightarrow> int \<times> 's \<Rightarrow> (int \<times> 's) option" where
  "ok f = (\<lambda>(ret, s). if ret = WOLFNANO_SUCCESS then f s else Some (ret, s))"

definition fail_if :: "bool \<Rightarrow> int \<Rightarrow> 's \<Rightarrow> (int \<times> 's) option" where
  "fail_if c err s = Some (if c then err else WOLFNANO_SUCCESS, s)"

section \<open>EncryptedExtensions\<close>

definition enc_ext_step :: "bool \<Rightarrow> wn_Reader \<Rightarrow> (int \<times> wn_Reader) option" where
  "enc_ext_step sniOffered r =
     wn_Read_U16 r \<bind> (\<lambda>(et, r).
     wn_Read_U16 r \<bind> (\<lambda>(el, r).
     case wn_Read_Bytes r (ucast el) of (_, r) \<Rightarrow>
     if r_err r \<noteq> 0 then Some (WOLFNANO_E_DECODE, r)
     else if et \<noteq> WN_EXT_SUPPORTED_GRP \<and> \<not> (et = WN_EXT_SERVER_NAME \<and> sniOffered \<and> el = 0)
     then Some (WOLFNANO_E_UNEXPECTED_MSG, r)
     else Some (WOLFNANO_SUCCESS, r)))"

partial_function (option) enc_ext_loop :: "bool \<Rightarrow> word32 \<Rightarrow> int \<Rightarrow> wn_Reader \<Rightarrow> int option" where
  "enc_ext_loop sniOffered extEnd ret r =
     (if ret = WOLFNANO_SUCCESS \<and> r_pos r < extEnd \<and> r_err r = 0
      then enc_ext_step sniOffered r \<bind> (\<lambda>(ret, r). enc_ext_loop sniOffered extEnd ret r)
      else Some ret)"

definition wn_CheckEncExt :: "bytes \<Rightarrow> word32 \<Rightarrow> bool \<Rightarrow> int option" where
  "wn_CheckEncExt body bodyLen sniOffered =
     wn_Read_U16 (wn_Reader_Init body bodyLen) \<bind> (\<lambda>(extLen, r).
     let extEnd = r_pos r + ucast extLen in
     enc_ext_loop sniOffered extEnd
       (if r_err r \<noteq> 0 \<or> extEnd \<noteq> bodyLen then WOLFNANO_E_DECODE else WOLFNANO_SUCCESS) r)"

section \<open>Plaintext records and alerts\<close>

definition send_plain_record ::
    "'io wn_IoSend \<Rightarrow> 'io \<Rightarrow> byte \<Rightarrow> bytes \<Rightarrow> word32 \<Rightarrow> (int \<times> 'io) option" where
  "send_plain_record send io type body bodyLen =
     (let hdr = [type, 0x03, 0x03, ucast (drop_bit 8 bodyLen), ucast (bodyLen AND 0xff)] in
      case send io hdr of (r, io) \<Rightarrow>
      if r \<noteq> 5 then Some (WOLFNANO_E_CRYPTO, io)
      else
        mem_read body 0 (unat bodyLen) \<bind> (\<lambda>b.
        case send io b of (r, io) \<Rightarrow>
        Some (if word_of_int r \<noteq> bodyLen then WOLFNANO_E_CRYPTO else WOLFNANO_SUCCESS, io)))"

definition send_ccs :: "'io wn_IoSend \<Rightarrow> 'io \<Rightarrow> (int \<times> 'io) option" where
  "send_ccs send io = send_plain_record send io WN_REC_CHANGE_CIPHER [0x01] 1"

text \<open>Best effort: the result is only the transport.\<close>

definition wn_SendAlert ::
    "'o wc \<Rightarrow> 'io wn_IoSend \<Rightarrow> 'io \<Rightarrow> bytes \<Rightarrow> bytes \<Rightarrow> word64 \<Rightarrow> int \<Rightarrow> 'io option" where
  "wn_SendAlert P send io key iv seq ret =
     wn_Record_Protect P (Some (replicate 24 0)) (Some 0) (Some key) 16 (Some iv) seq WN_REC_ALERT
       (Some [2, wn_ErrToAlert ret]) 2 \<bind> (\<lambda>(r, rec, rl).
     if r = WOLFNANO_SUCCESS then
       rl \<bind> (\<lambda>recLen. mem_read rec 0 (unat recLen) \<bind> (\<lambda>d. Some (snd (send io d))))
     else Some io)"

section \<open>Key schedules\<close>

text \<open>
  Both functions run all steps and collect the error codes with a bitwise or. The results are
  the output buffers in the order of the parameters.
\<close>

definition wn_DeriveHsKeys ::
    "'o wc \<Rightarrow> bytes \<Rightarrow> bytes \<Rightarrow> bytes \<Rightarrow> bytes \<Rightarrow> bytes \<Rightarrow> bytes \<Rightarrow> bytes \<Rightarrow> bytes \<Rightarrow> bytes \<Rightarrow> word32 \<Rightarrow> bytes \<Rightarrow> bytes \<Rightarrow>
     (int \<times> bytes \<times> bytes \<times> bytes \<times> bytes \<times> bytes \<times> bytes \<times> bytes) option" where
  "wn_DeriveHsKeys P hs cHs sHs ck ci sk si early ecdhe ecdheLen emptyHash th = do {
     (r1, derived) \<leftarrow> wn_Tls13_DeriveSecret P (Some (replicate 32 0)) (Some early) (Some ''derived'') (Some emptyHash) 32 WC_SHA256;
     (r2, hs) \<leftarrow> wn_Tls13_Extract P (Some hs) (Some derived) 32 (Some ecdhe) ecdheLen WC_SHA256;
     (r3, cHs) \<leftarrow> wn_Tls13_DeriveSecret P (Some cHs) (Some hs) (Some ''c hs traffic'') (Some th) 32 WC_SHA256;
     (r4, sHs) \<leftarrow> wn_Tls13_DeriveSecret P (Some sHs) (Some hs) (Some ''s hs traffic'') (Some th) 32 WC_SHA256;
     (r5, ck) \<leftarrow> wn_Tls13_ExpandLabel P (Some ck) 16 (Some cHs) (Some ''key'') None 0 WC_SHA256;
     (r6, ci) \<leftarrow> wn_Tls13_ExpandLabel P (Some ci) 12 (Some cHs) (Some ''iv'') None 0 WC_SHA256;
     (r7, sk) \<leftarrow> wn_Tls13_ExpandLabel P (Some sk) 16 (Some sHs) (Some ''key'') None 0 WC_SHA256;
     (r8, si) \<leftarrow> wn_Tls13_ExpandLabel P (Some si) 12 (Some sHs) (Some ''iv'') None 0 WC_SHA256;
     Some (r1 OR r2 OR r3 OR r4 OR r5 OR r6 OR r7 OR r8, hs, cHs, sHs, ck, ci, sk, si)
   }"

definition wn_SessionEstablish ::
    "'o wc \<Rightarrow> 'io wn_Session \<Rightarrow> bytes \<Rightarrow> bytes \<Rightarrow> bytes \<Rightarrow> bytes \<Rightarrow> 'io wn_IoSend \<Rightarrow> 'io wn_IoRecv \<Rightarrow> nat \<Rightarrow> bytes \<Rightarrow> word32 \<Rightarrow>
     (int \<times> 'io wn_Session) option" where
  "wn_SessionEstablish P sess hs emptyHash zeros th send recv ctx scratch' scratchLen' = do {
     (r1, derived) \<leftarrow> wn_Tls13_DeriveSecret P (Some (replicate 32 0)) (Some hs) (Some ''derived'') (Some emptyHash) 32 WC_SHA256;
     (r2, master) \<leftarrow> wn_Tls13_Extract P (Some (replicate 32 0)) (Some derived) 32 (Some zeros) 32 WC_SHA256;
     (r3, ca) \<leftarrow> wn_Tls13_DeriveSecret P (Some (cAppSecret sess)) (Some master) (Some ''c ap traffic'') (Some th) 32 WC_SHA256;
     (r4, sa) \<leftarrow> wn_Tls13_DeriveSecret P (Some (sAppSecret sess)) (Some master) (Some ''s ap traffic'') (Some th) 32 WC_SHA256;
     (r5, ck) \<leftarrow> wn_Tls13_ExpandLabel P (Some (cKey sess)) 16 (Some ca) (Some ''key'') None 0 WC_SHA256;
     (r6, ci) \<leftarrow> wn_Tls13_ExpandLabel P (Some (cIv sess)) 12 (Some ca) (Some ''iv'') None 0 WC_SHA256;
     (r7, sk) \<leftarrow> wn_Tls13_ExpandLabel P (Some (sKey sess)) 16 (Some sa) (Some ''key'') None 0 WC_SHA256;
     (r8, si) \<leftarrow> wn_Tls13_ExpandLabel P (Some (sIv sess)) 12 (Some sa) (Some ''iv'') None 0 WC_SHA256;
     let ret = r1 OR r2 OR r3 OR r4 OR r5 OR r6 OR r7 OR r8 in
     let sess = sess\<lparr>cAppSecret := ca, sAppSecret := sa, cKey := ck, cIv := ci, sKey := sk, sIv := si\<rparr> in
     Some (ret, if ret = WOLFNANO_SUCCESS
       then sess\<lparr>ioSend := Some send, ioRecv := Some recv, ioCtx := ctx, scratch := Some scratch',
              scratchLen := scratchLen', cSeq := 0, sSeq := 0, sess_digest := WC_SHA256,
              flags := WN_SESS_ESTABLISHED\<rparr>
       else sess)
   }"

section \<open>The local variables of a driver\<close>

record ('o, 'io) hs_locals =
  l_sess :: "'io wn_Session"
  l_rng :: 'o
  l_io :: 'io
  l_scratch :: bytes
  l_tc :: "'o wn_Transcript"
  l_ks :: "'o wn_KeyShare"
  l_sh :: wn_ServerHello
  l_random32 :: bytes
  l_sid :: bytes
  l_cliPub :: bytes
  l_ecdhe :: bytes
  l_emptyHash :: bytes
  l_th :: bytes
  l_early :: bytes
  l_hs :: bytes
  l_cHs :: bytes
  l_sHs :: bytes
  l_cKey :: bytes
  l_cIv :: bytes
  l_sKey :: bytes
  l_sIv :: bytes
  l_mac :: bytes
  l_fin :: bytes
  l_chLen :: word32
  l_recLen :: word32
  l_pubLen :: word32
  l_ssLen :: word32
  l_plainLen :: word32
  l_accLen :: word32
  l_sSeq :: word64
  l_rtype :: byte
  l_ctype :: byte
  l_done :: bool
  l_gotEE :: bool

text \<open>\<open>WN_KEYSHARE_MAX_PUB\<close> is \<open>WN_DEFAULT_PUB_SZ\<close> in every build.\<close>

definition init_locals ::
    "'o wc \<Rightarrow> 'io wn_Session \<Rightarrow> 'o \<Rightarrow> 'io \<Rightarrow> bytes \<Rightarrow> ('o, 'io) hs_locals" where
  "init_locals P sess rng io scr = \<lparr>l_sess = sess, l_rng = rng, l_io = io, l_scratch = scr,
     l_tc = \<lparr>t_h = zero_ctx P, t_digest = WC_OTHER_HASH 0\<rparr>,
     l_ks = \<lparr>ks_hybrid = \<lparr>h_kem = zero_ctx P, h_x = zero_ctx P, kemInit = 0, xInit = 0\<rparr>, ks_ecc = zero_ctx P,
             ks_x25519 = zero_ctx P, ks_group = 0\<rparr>,
     l_sh = sh_clear, l_random32 = replicate 32 0, l_sid = replicate 32 0,
     l_cliPub = replicate (unat (WN_DEFAULT_PUB_SZ P)) 0, l_ecdhe = replicate (unat (WN_DEFAULT_SECRET_SZ P)) 0,
     l_emptyHash = replicate 32 0, l_th = replicate 32 0, l_early = replicate 32 0, l_hs = replicate 32 0,
     l_cHs = replicate 32 0, l_sHs = replicate 32 0, l_cKey = replicate 16 0, l_cIv = replicate 12 0,
     l_sKey = replicate 16 0, l_sIv = replicate 12 0, l_mac = replicate 32 0, l_fin = replicate 36 0,
     l_chLen = 0, l_recLen = 0, l_pubLen = 0, l_ssLen = 0, l_plainLen = 0, l_accLen = 0, l_sSeq = 0,
     l_rtype = 0, l_ctype = 0, l_done = False, l_gotEE = False\<rparr>"

section \<open>Phases\<close>

text \<open>One call of the transcript and its results in the locals.\<close>

definition hs_update ::
    "'o wc \<Rightarrow> bytes \<Rightarrow> word32 \<Rightarrow> ('o, 'io, 'z) hs_locals_scheme \<Rightarrow> (int \<times> ('o, 'io, 'z) hs_locals_scheme) option" where
  "hs_update P msg n s =
     wn_Transcript_Update P (Some (l_tc s)) (Some msg) n \<bind> (\<lambda>(ret, tc).
     tc \<bind> (\<lambda>tc. Some (ret, s\<lparr>l_tc := tc\<rparr>)))"

definition hs_get_hash ::
    "'o wc \<Rightarrow> ('o, 'io, 'z) hs_locals_scheme \<Rightarrow> (int \<times> ('o, 'io, 'z) hs_locals_scheme) option" where
  "hs_get_hash P s =
     wn_Transcript_GetHash P (Some (l_tc s)) (Some (l_th s)) (Some 0) \<bind> (\<lambda>(ret, tc, th, _).
     tc \<bind> (\<lambda>tc. Some (ret, s\<lparr>l_tc := tc, l_th := th\<rparr>)))"

definition hs_finished_mac ::
    "'o wc \<Rightarrow> bytes \<Rightarrow> ('o, 'io, 'z) hs_locals_scheme \<Rightarrow> (int \<times> ('o, 'io, 'z) hs_locals_scheme) option" where
  "hs_finished_mac P baseKey s =
     wn_Tls13_FinishedMac P (Some (l_mac s)) (Some baseKey) (Some (l_th s)) 32 WC_SHA256 \<bind> (\<lambda>(ret, mac).
     Some (ret, s\<lparr>l_mac := mac\<rparr>))"

definition hs_key_share ::
    "'o wc \<Rightarrow> ('o, 'io, 'z) hs_locals_scheme \<Rightarrow> (int \<times> ('o, 'io, 'z) hs_locals_scheme) option" where
  "hs_key_share P s =
     (case wn_KeyShare_Init P (Some (l_ks s)) (WN_DEFAULT_GROUP P) of (ret, ks) \<Rightarrow>
      ks \<bind> (\<lambda>ks. Some (ret, s\<lparr>l_ks := ks\<rparr>))) \<bind>
     ok (\<lambda>s.
       wn_KeyShare_Generate P (Some (l_ks s)) (Some (l_rng s)) (Some (l_cliPub s)) (Some (l_pubLen s)) \<bind>
         (\<lambda>(ret, ks, rng, pub, pl).
       ks \<bind> (\<lambda>ks. rng \<bind> (\<lambda>rng. pl \<bind> (\<lambda>pl.
       Some (ret, s\<lparr>l_ks := ks, l_rng := rng, l_cliPub := pub, l_pubLen := pl\<rparr>)))))) \<bind>
     ok (\<lambda>s.
       case wn_Transcript_Init P (Some (l_tc s)) WC_SHA256 of (ret, tc) \<Rightarrow>
       tc \<bind> (\<lambda>tc. Some (ret, s\<lparr>l_tc := tc\<rparr>)))"

definition hs_send_hello ::
    "'o wc \<Rightarrow> 'io wn_IoSend \<Rightarrow> ('o, 'io, 'z) hs_locals_scheme \<Rightarrow> (int \<times> ('o, 'io, 'z) hs_locals_scheme) option" where
  "hs_send_hello P send s =
     hs_update P (l_scratch s) (l_chLen s) s \<bind>
     ok (\<lambda>s.
       send_plain_record send (l_io s) WN_REC_HANDSHAKE (l_scratch s) (l_chLen s) \<bind> (\<lambda>(ret, io).
       Some (ret, s\<lparr>l_io := io\<rparr>))) \<bind>
     ok (\<lambda>s. send_ccs send (l_io s) \<bind> (\<lambda>(ret, io). Some (ret, s\<lparr>l_io := io\<rparr>)))"

text \<open>The loop that skips ChangeCipherSpec records before the ServerHello.\<close>

partial_function (option) hello_record ::
    "'io wn_IoRecv \<Rightarrow> word32 \<Rightarrow> 'io \<Rightarrow> bytes \<Rightarrow> byte \<Rightarrow> word32 \<Rightarrow> (int \<times> bytes \<times> byte \<times> word32 \<times> 'io) option" where
  "hello_record recv cap io scr rtype recLen =
     wn_RecvRecord recv io scr cap rtype recLen \<bind> (\<lambda>(ret, scr, rtype, recLen, io).
     if ret = WOLFNANO_SUCCESS \<and> rtype = WN_REC_CHANGE_CIPHER
     then hello_record recv cap io scr rtype recLen
     else Some (ret, scr, rtype, recLen, io))"

text \<open>
  The parameters of the ServerHello that both drivers demand; \<open>psk\<close> is the value of
  \<open>pskSelected\<close> that the driver accepts. The session id is read only behind the tests on its
  length and pointer.
\<close>

definition hello_params :: "'o wc \<Rightarrow> int \<Rightarrow> bytes \<Rightarrow> bytes \<Rightarrow> wn_ServerHello \<Rightarrow> bool option" where
  "hello_params P psk msg sid sh =
     (if sh_keyShare sh = None \<or> sh_keyShareLen sh \<noteq> WN_DEFAULT_SRV_SHARE_SZ P \<or>
         sh_cipher sh \<noteq> WN_CIPHER_AES_128_GCM_SHA256 \<or> sh_version sh \<noteq> 0x0304 \<or>
         uint (sh_group sh) \<noteq> WN_DEFAULT_GROUP P \<or> sh_pskSelected sh \<noteq> psk \<or> sh_sessionIdLen sh \<noteq> 32
      then Some False
      else case sh_sessionId sh of
        None \<Rightarrow> Some False
      | Some p \<Rightarrow>
          mem_read msg (unat p) 32 \<bind> (\<lambda>a. mem_read sid 0 32 \<bind> (\<lambda>b. Some (ConstantCompare P a b = 0))))"

definition hs_server_hello ::
    "'o wc \<Rightarrow> 'io wn_IoRecv \<Rightarrow> word32 \<Rightarrow> int \<Rightarrow> ('o, 'io, 'z) hs_locals_scheme \<Rightarrow>
     (int \<times> ('o, 'io, 'z) hs_locals_scheme) option" where
  "hs_server_hello P recv cap psk s =
     hello_record recv cap (l_io s) (l_scratch s) (l_rtype s) (l_recLen s) \<bind> (\<lambda>(ret, scr, rtype, recLen, io).
       Some (ret, s\<lparr>l_scratch := scr, l_rtype := rtype, l_recLen := recLen, l_io := io\<rparr>)) \<bind>
     ok (\<lambda>s. fail_if (l_rtype s \<noteq> WN_REC_HANDSHAKE) WOLFNANO_E_UNEXPECTED_MSG s) \<bind>
     ok (\<lambda>s.
       wn_ServerHello_Parse (Some (drop 5 (l_scratch s))) (l_recLen s - 5) (Some (l_sh s)) \<bind> (\<lambda>(ret, sh).
       sh \<bind> (\<lambda>sh. Some (ret, s\<lparr>l_sh := sh\<rparr>)))) \<bind>
     ok (\<lambda>s. fail_if (sh_isHelloRetry (l_sh s) \<noteq> 0) WOLFNANO_E_UNSUPPORTED s) \<bind>
     ok (\<lambda>s. hs_update P (drop 5 (l_scratch s)) (l_recLen s - 5) s) \<bind>
     ok (\<lambda>s.
       hello_params P psk (drop 5 (l_scratch s)) (l_sid s) (l_sh s) \<bind> (\<lambda>good.
       fail_if (\<not> good) WOLFNANO_E_ILLEGAL_PARAM s)) \<bind>
     ok (\<lambda>s.
       wn_KeyShare_Shared P (Some (l_ks s))
         (map_option (\<lambda>p. drop (5 + unat p) (l_scratch s)) (sh_keyShare (l_sh s)))
         (sh_keyShareLen (l_sh s)) (Some (l_ecdhe s)) (Some (l_ssLen s)) \<bind> (\<lambda>(ret, ss, sl).
       sl \<bind> (\<lambda>sl. Some (ret, s\<lparr>l_ecdhe := ss, l_ssLen := sl\<rparr>))))"

text \<open>The client's Finished, sent under the handshake keys with sequence number 0.\<close>

definition hs_send_finished ::
    "'o wc \<Rightarrow> 'io wn_IoSend \<Rightarrow> ('o, 'io, 'z) hs_locals_scheme \<Rightarrow> (int \<times> ('o, 'io, 'z) hs_locals_scheme) option" where
  "hs_send_finished P send s =
     (mem_write (l_fin s) 0 [20, 0, 0, 32] \<bind> (\<lambda>fin.
      mem_read (l_mac s) 0 32 \<bind> (\<lambda>mac.
      mem_write fin 4 mac \<bind> (\<lambda>fin.
      wn_Record_Protect P (Some (l_scratch s)) (Some (l_recLen s)) (Some (l_cKey s)) 16 (Some (l_cIv s)) 0
        WN_REC_HANDSHAKE (Some fin) 36 \<bind> (\<lambda>(ret, scr, rl).
      rl \<bind> (\<lambda>rl. Some (ret, s\<lparr>l_fin := fin, l_scratch := scr, l_recLen := rl\<rparr>))))))) \<bind>
     ok (\<lambda>s.
       mem_read (l_scratch s) 0 (unat (l_recLen s)) \<bind> (\<lambda>d.
       case send (l_io s) d of (r, io) \<Rightarrow>
       fail_if (r \<noteq> sint (l_recLen s)) WOLFNANO_E_CRYPTO (s\<lparr>l_io := io\<rparr>)))"

definition hs_client_finished ::
    "'o wc \<Rightarrow> 'io wn_IoSend \<Rightarrow> ('o, 'io, 'z) hs_locals_scheme \<Rightarrow> (int \<times> ('o, 'io, 'z) hs_locals_scheme) option" where
  "hs_client_finished P send s =
     hs_get_hash P s \<bind>
     ok (\<lambda>s. hs_finished_mac P (l_cHs s) s) \<bind>
     ok (hs_send_finished P send)"

definition hs_establish ::
    "'o wc \<Rightarrow> 'io wn_IoSend \<Rightarrow> 'io wn_IoRecv \<Rightarrow> nat \<Rightarrow> word32 \<Rightarrow> ('o, 'io, 'z) hs_locals_scheme \<Rightarrow>
     (int \<times> ('o, 'io, 'z) hs_locals_scheme) option" where
  "hs_establish P send recv ctx scratchLen' s =
     wn_SessionEstablish P (l_sess s) (l_hs s) (l_emptyHash s) (replicate 32 0) (l_th s) send recv ctx
       (l_scratch s) scratchLen' \<bind> (\<lambda>(ret, sess). Some (ret, s\<lparr>l_sess := sess\<rparr>))"

text \<open>The key schedule of the handshake: \<open>early\<close> has been set before.\<close>

definition hs_derive ::
    "'o wc \<Rightarrow> ('o, 'io, 'z) hs_locals_scheme \<Rightarrow> (int \<times> ('o, 'io, 'z) hs_locals_scheme) option" where
  "hs_derive P s =
     wn_DeriveHsKeys P (l_hs s) (l_cHs s) (l_sHs s) (l_cKey s) (l_cIv s) (l_sKey s) (l_sIv s) (l_early s) (l_ecdhe s)
       (l_ssLen s) (l_emptyHash s) (l_th s) \<bind> (\<lambda>(ret, hs, cHs, sHs, ck, ci, sk, si).
     Some (ret, s\<lparr>l_hs := hs, l_cHs := cHs, l_sHs := sHs, l_cKey := ck, l_cIv := ci, l_sKey := sk, l_sIv := si\<rparr>))"

text \<open>
  The wipes both drivers end with, and the release of the key share. The return values are not
  used.
\<close>

definition hs_wipe :: "'o wc \<Rightarrow> ('o, 'io, 'z) hs_locals_scheme \<Rightarrow> ('o, 'io, 'z) hs_locals_scheme option" where
  "hs_wipe P s = do {
     ks \<leftarrow> snd (wn_KeyShare_Free P (Some (l_ks s)));
     early \<leftarrow> force_zero (l_early s) 0 32;
     hs \<leftarrow> force_zero (l_hs s) 0 32;
     cHs \<leftarrow> force_zero (l_cHs s) 0 32;
     sHs \<leftarrow> force_zero (l_sHs s) 0 32;
     ck \<leftarrow> force_zero (l_cKey s) 0 16;
     sk \<leftarrow> force_zero (l_sKey s) 0 16;
     ci \<leftarrow> force_zero (l_cIv s) 0 12;
     si \<leftarrow> force_zero (l_sIv s) 0 12;
     ecdhe \<leftarrow> force_zero (l_ecdhe s) 0 (unat (WN_DEFAULT_SECRET_SZ P));
     mac \<leftarrow> force_zero (l_mac s) 0 32;
     fin \<leftarrow> force_zero (l_fin s) 0 36;
     Some (s\<lparr>l_ks := ks, l_early := early, l_hs := hs, l_cHs := cHs, l_sHs := sHs, l_cKey := ck, l_sKey := sk,
             l_cIv := ci, l_sIv := si, l_ecdhe := ecdhe, l_mac := mac, l_fin := fin\<rparr>)
   }"

section \<open>The schedule of RFC 8446, section 7.1\<close>

type_synonym hkdf_extract = "hash_id \<Rightarrow> bytes \<Rightarrow> bytes \<Rightarrow> bytes"

text \<open>
  \<open>next_stage\<close> is one column of the schedule: the \<open>derived\<close> secret of the stage before is
  the salt under which the new input key material is extracted.
\<close>

definition next_stage :: "hkdf_extract \<Rightarrow> hkdf_expand \<Rightarrow> bytes \<Rightarrow> bytes \<Rightarrow> bytes \<Rightarrow> bytes" where
  "next_stage ext exp emptyHash secret ikm =
     ext WC_SHA256 (Derive_Secret exp WC_SHA256 secret ''derived'' emptyHash) ikm"

definition traffic_secret :: "hkdf_expand \<Rightarrow> bytes \<Rightarrow> string \<Rightarrow> bytes \<Rightarrow> bytes" where
  "traffic_secret exp secret label th = Derive_Secret exp WC_SHA256 secret label th"

lemma usable_secret_lengths:
  assumes "kdf_usable P ext exp WC_SHA256"
  shows "length (traffic_secret exp s l th) = 32" and "length (Derive_Secret exp WC_SHA256 s l th) = 32"
    and "length (secret_key exp s) = 16" and "length (secret_iv exp s) = 12"
  using assms
  by (simp_all add: traffic_secret_def Derive_Secret_def HKDF_Expand_Label_def kdf_usable_def digest_size_def
      secret_key_def secret_iv_def)

lemma next_stage_length:
  assumes "kdf_usable P ext exp WC_SHA256" and "i \<noteq> []" and "length i < 2 ^ 32"
  shows "length (next_stage ext exp eh s i) = 32"
proof -
  have "Derive_Secret exp WC_SHA256 s ''derived'' eh \<noteq> []"
    using usable_secret_lengths(2) [OF assms(1)] by (metis length_0_conv zero_neq_numeral)
  then show ?thesis
    using usable_extract_length [OF assms(1) _ assms(2,3)] by (simp add: next_stage_def digest_size_def)
qed

lemma next_stage_steps:
  assumes u: "kdf_usable P ext exp WC_SHA256" and "length derived = 32" and "length secret = 32" and "length eh = 32"
    and "length out = 32" and "unat n \<le> length ikm" and "n \<noteq> 0"
  shows "wn_Tls13_DeriveSecret P (Some derived) (Some secret) (Some ''derived'') (Some eh) 32 WC_SHA256 =
      Some (0, Derive_Secret exp WC_SHA256 secret ''derived'' eh)"
    and "wn_Tls13_Extract P (Some out) (Some (Derive_Secret exp WC_SHA256 secret ''derived'' eh)) 32 (Some ikm) n WC_SHA256 =
      Some (0, next_stage ext exp eh secret (take (unat n) ikm))"
proof -
  let ?D = "Derive_Secret exp WC_SHA256 secret ''derived'' eh"
  have l: "length ?D = 32"
    by (rule usable_secret_lengths(2) [OF u])
  then have "?D \<noteq> []"
    by auto
  then show "wn_Tls13_Extract P (Some out) (Some ?D) 32 (Some ikm) n WC_SHA256 =
      Some (0, next_stage ext exp eh secret (take (unat n) ikm))"
    using Extract_spec [OF u, of out 32 "Some ?D" n ikm] l assms
    by (simp add: digest_size_def zeros_if_null_def next_stage_def)
  show "wn_Tls13_DeriveSecret P (Some derived) (Some secret) (Some ''derived'') (Some eh) 32 WC_SHA256 = Some (0, ?D)"
    using DeriveSecret_spec [OF u, of 32 derived secret eh "''derived''"] assms
    by (simp add: digest_size_def wn_DigestSize_def)
qed

lemma traffic_steps:
  assumes u: "kdf_usable P ext exp WC_SHA256" and "length secret = 32"
  shows "length out = 32 \<Longrightarrow> length th = 32 \<Longrightarrow> length l \<le> 249 \<Longrightarrow>
      wn_Tls13_DeriveSecret P (Some out) (Some secret) (Some l) (Some th) 32 WC_SHA256 =
      Some (0, traffic_secret exp secret l th)"
    and "length k = 16 \<Longrightarrow> wn_Tls13_ExpandLabel P (Some k) 16 (Some secret) (Some ''key'') None 0 WC_SHA256 =
      Some (0, secret_key exp secret)"
    and "length i = 12 \<Longrightarrow> wn_Tls13_ExpandLabel P (Some i) 12 (Some secret) (Some ''iv'') None 0 WC_SHA256 =
      Some (0, secret_iv exp secret)"
  using DeriveSecret_spec [OF u, of 32 out secret th l] kdf.expand_exact [OF u, of 16 k secret None 0 "''key''"]
    kdf.expand_exact [OF u, of 12 i secret None 0 "''iv''"] assms
  by (simp_all add: digest_size_def wn_DigestSize_def traffic_secret_def secret_key_def secret_iv_def)

lemma DeriveHsKeys_spec:
  assumes u: "kdf_usable P ext exp WC_SHA256"
    and "length hs = 32" "length cHs = 32" "length sHs = 32" "length ck = 16" "length ci = 12" "length sk = 16" "length si = 12"
    and "length early = 32" "length eh = 32" "length th = 32" and "unat n \<le> length ecdhe" "n \<noteq> 0"
    and H: "H = next_stage ext exp eh early (take (unat n) ecdhe)"
    and "C = traffic_secret exp H ''c hs traffic'' th" and "S = traffic_secret exp H ''s hs traffic'' th"
  shows "wn_DeriveHsKeys P hs cHs sHs ck ci sk si early ecdhe n eh th =
    Some (0, H, C, S, secret_key exp C, secret_iv exp C, secret_key exp S, secret_iv exp S)"
proof -
  have "unat n < 2 ^ 32" and "unat n \<noteq> 0"
    using assms(13) word32_lt [of n] by (simp_all add: unat_eq_zero)
  then have "length H = 32"
    unfolding H using assms(12) by (intro next_stage_length [OF u]) auto
  then show ?thesis
    using assms next_stage_steps [OF u, of "replicate 32 0" early eh hs n ecdhe]
    by (simp add: wn_DeriveHsKeys_def traffic_steps [OF u] usable_secret_lengths [OF u])
qed

lemma SessionEstablish_spec:
  assumes u: "kdf_usable P ext exp WC_SHA256"
    and "length (cAppSecret sess) = 32" "length (sAppSecret sess) = 32" "length (cKey sess) = 16" "length (cIv sess) = 12"
      "length (sKey sess) = 16" "length (sIv sess) = 12"
    and "length hs = 32" "length eh = 32" "length zeros = 32" "length th = 32"
    and M: "M = next_stage ext exp eh hs zeros"
    and "C = traffic_secret exp M ''c ap traffic'' th" and "S = traffic_secret exp M ''s ap traffic'' th"
  shows "wn_SessionEstablish P sess hs eh zeros th send recv ctx scr n =
    Some (0, \<lparr>ioSend = Some send, ioRecv = Some recv, ioCtx = ctx, scratch = Some scr, scratchLen = n,
      cAppSecret = C, sAppSecret = S, cKey = secret_key exp C, cIv = secret_iv exp C, sKey = secret_key exp S,
      sIv = secret_iv exp S, cSeq = 0, sSeq = 0, sess_digest = WC_SHA256, flags = WN_SESS_ESTABLISHED\<rparr>)"
proof -
  have "length M = 32"
    unfolding M using assms(10) by (intro next_stage_length [OF u]) auto
  then show ?thesis
    using assms next_stage_steps [OF u, of "replicate 32 0" hs eh "replicate 32 0" 32 zeros]
    by (cases sess) (simp add: wn_SessionEstablish_def traffic_steps [OF u] usable_secret_lengths [OF u] Let_def)
qed

section \<open>Parsing of EncryptedExtensions\<close>

text \<open>
  An extension is a type and a body. The client accepts the reply to what it offered: any
  \<open>supported_groups\<close>, and an empty \<open>server_name\<close> when it sent one.
\<close>

definition ee_ext :: "word16 \<times> bytes \<Rightarrow> bytes" where
  "ee_ext e = be_bytes 2 (unat (fst e)) @ be_bytes 2 (length (snd e)) @ snd e"

definition ee_allowed :: "bool \<Rightarrow> word16 \<times> bytes \<Rightarrow> bool" where
  "ee_allowed sni e \<longleftrightarrow> length (snd e) < 65536 \<and>
     (fst e = WN_EXT_SUPPORTED_GRP \<or> fst e = WN_EXT_SERVER_NAME \<and> sni \<and> snd e = [])"

text \<open>The verdict on the bytes of an extension list, as a recursion on them.\<close>

fun ee_verdict :: "bool \<Rightarrow> bytes \<Rightarrow> int" where
  "ee_verdict sni xs =
     (let et = be_val (take 2 xs); el = be_val (take 2 (drop 2 xs)) in
      if xs = [] then WOLFNANO_SUCCESS
      else if length xs < 4 + el then WOLFNANO_E_DECODE
      else if et \<noteq> 10 \<and> \<not> (et = 0 \<and> sni \<and> el = 0) then WOLFNANO_E_UNEXPECTED_MSG
      else ee_verdict sni (drop (4 + el) xs))"

declare ee_verdict.simps [simp del]

lemma take_be2: "take 2 (be_bytes 2 n @ xs) = be_bytes 2 n" "drop 2 (be_bytes 2 n @ xs) = xs"
  by simp_all

lemma enc_ext_step_spec:
  assumes "rdr.got r S d" and "\<not> r_failed r" and "length S + 65536 < 2 ^ 32"
    and xs: "xs = drop (length d) S" and el: "el = be_val (take 2 (drop 2 xs))" and et: "et = be_val (take 2 xs)"
  shows "runs (enc_ext_step sni r) (\<lambda>(ret, r').
    if length xs < 4 + el then ret = WOLFNANO_E_DECODE
    else if et \<noteq> 10 \<and> \<not> (et = 0 \<and> sni \<and> el = 0) then ret = WOLFNANO_E_UNEXPECTED_MSG
    else ret = 0 \<and> rdr.got r' S (d @ take (4 + el) xs) \<and> \<not> r_failed r')"
  unfolding enc_ext_step_def
proof (rule rdr.u16_got [OF assms(1)], clarsimp, rule rdr.u16_got, assumption, clarsimp,
    rule rdr.raw_got, assumption, goal_cases)
  case (1 et' r1 el' r2)
  have "unat (ucast el' :: word32) < 65536"
    by simp
  then show ?case
    using assms(3) by linarith
next
  case (2 et' r1 el' r2 p r3)
  have ds: "length d \<le> length S" and S: "S = d @ xs"
    using rdr.got_prefix [OF assms(1,2)] xs by auto
  have bad: "r_err r3 \<noteq> 0 \<longleftrightarrow> r_failed r3"
    by (simp add: r_failed_def)
  show ?case
  proof (cases "r_failed r2")
    case True
    then have "length xs < 4" and "r_failed r3"
      using 2 assms(2) S by auto
    then show ?thesis
      by (simp add: bad)
  next
    case False
    then have f1: "\<not> r_failed r1" and l: "4 \<le> length xs"
      using 2 assms(2) S by auto
    have "S = (d @ be_bytes 2 (unat et') @ be_bytes 2 (unat el')) @ drop (length d + 4) S"
      using rdr.got_prefix [OF 2(4) False] by (simp add: add.commute)
    from arg_cong [OF this, of "drop (length d)"]
    have x: "xs = be_bytes 2 (unat et') @ be_bytes 2 (unat el') @ drop 4 xs"
      unfolding xs drop_drop by (simp only: drop_append append_assoc) (simp add: add.commute)
    have el': "el = unat el'" and et': "et = unat et'"
      using arg_cong [OF x, of "take 2"] arg_cong [OF x, of "\<lambda>y. take 2 (drop 2 y)"]
      unfolding el et by (simp_all add: be_val_be_bytes)
    have "r_failed r3 \<longleftrightarrow> length xs < 4 + el"
      using 2 False S el' by auto
    moreover have "rdr.got r3 S (d @ take (4 + el) xs)" if "\<not> r_failed r3"
    proof -
      have "take (4 + el) xs = be_bytes 2 (unat et') @ be_bytes 2 (unat el') @ take el (drop 4 xs)"
        by (subst x) simp
      then show ?thesis
        using 2(7) by (simp add: el' xs add.commute)
    qed
    moreover have "et' = 10 \<longleftrightarrow> et = 10" and "et' = 0 \<longleftrightarrow> et = 0" and "el' = 0 \<longleftrightarrow> el = 0"
      by (simp_all add: et' el' word_unat_eq_iff)
    ultimately show ?thesis
      by (auto simp: bad)
  qed
qed

lemma enc_ext_loop_stop: "ret \<noteq> 0 \<or> \<not> r_pos r < e \<Longrightarrow> enc_ext_loop sni e ret r = Some ret"
  by (subst enc_ext_loop.simps) auto

lemma enc_ext_loop_spec:
  assumes "rdr.got r S d" and "\<not> r_failed r" and "length S + 65536 < 2 ^ 32" and "unat extEnd = length S"
  shows "enc_ext_loop sni extEnd 0 r = Some (ee_verdict sni (drop (length d) S))"
  using assms(1,2)
proof (induction "length S - length d" arbitrary: r d rule: less_induct)
  case less
  define xs where "xs = drop (length d) S"
  have p: "unat (r_pos r) = length d" and e: "r_err r = 0"
    using got_pos [OF less.prems] less.prems(2) by (simp_all add: r_at_def r_failed_def)
  have ds: "length d \<le> length S"
    using rdr.got_prefix [OF less.prems] by simp
  show ?case
  proof (cases "xs = []")
    case True
    then have "\<not> r_pos r < extEnd"
      using p assms(4) ds by (simp add: xs_def word_less_nat_alt)
    then show ?thesis
      using True by (simp add: enc_ext_loop_stop ee_verdict.simps xs_def [symmetric])
  next
    case False
    define et el where "et = be_val (take 2 xs)" and "el = be_val (take 2 (drop 2 xs))"
    have lt: "r_pos r < extEnd"
      using False p assms(4) by (simp add: xs_def word_less_nat_alt)
    obtain ret r' where st: "enc_ext_step sni r = Some (ret, r')"
      and c: "if length xs < 4 + el then ret = WOLFNANO_E_DECODE
        else if et \<noteq> 10 \<and> \<not> (et = 0 \<and> sni \<and> el = 0) then ret = WOLFNANO_E_UNEXPECTED_MSG
        else ret = 0 \<and> rdr.got r' S (d @ take (4 + el) xs) \<and> \<not> r_failed r'"
      using enc_ext_step_spec [OF less.prems assms(3) xs_def el_def et_def, of sni] by (auto elim!: runs2E)
    have turn: "enc_ext_loop sni extEnd 0 r = enc_ext_loop sni extEnd ret r'"
      using lt e st by (subst enc_ext_loop.simps) simp
    have v: "ee_verdict sni xs = (if length xs < 4 + el then WOLFNANO_E_DECODE
        else if et \<noteq> 10 \<and> \<not> (et = 0 \<and> sni \<and> el = 0) then WOLFNANO_E_UNEXPECTED_MSG
        else ee_verdict sni (drop (4 + el) xs))"
      using False by (subst ee_verdict.simps) (simp add: et_def el_def Let_def)
    show ?thesis
    proof (cases "ret = 0")
      case True
      with c have l: "4 + el \<le> length xs" and g: "rdr.got r' S (d @ take (4 + el) xs)" and f: "\<not> r_failed r'"
        by (auto split: if_splits)
      have "length S - length (d @ take (4 + el) xs) < length S - length d"
        using l ds by (simp add: xs_def)
      from less.hyps [OF this g f] have "enc_ext_loop sni extEnd 0 r' = Some (ee_verdict sni (drop (4 + el) xs))"
        using l by (simp add: xs_def add.commute min_def)
      then show ?thesis
        using c turn v True by (auto simp: xs_def [symmetric] split: if_splits)
    next
      case False
      then show ?thesis
        using c turn v by (auto simp: xs_def [symmetric] enc_ext_loop_stop split: if_splits)
    qed
  qed
qed

lemma ee_verdict_accepts:
  "ee_verdict sni xs = 0 \<longleftrightarrow> (\<exists>es. xs = concat (map ee_ext es) \<and> (\<forall>e \<in> set es. ee_allowed sni e))"
proof (induction sni xs rule: ee_verdict.induct)
  case (1 sni xs)
  define et el where "et = be_val (take 2 xs)" and "el = be_val (take 2 (drop 2 xs))"
  show ?case
  proof (cases "xs = []")
    case True
    then show ?thesis
      by (auto simp: ee_verdict.simps intro: exI [of _ "[]"])
  next
    case False
    then have v: "ee_verdict sni xs = 0 \<longleftrightarrow> 4 + el \<le> length xs \<and> (et = 10 \<or> et = 0 \<and> sni \<and> el = 0) \<and>
        ee_verdict sni (drop (4 + el) xs) = 0"
      by (subst ee_verdict.simps) (auto simp: et_def el_def Let_def)
    show ?thesis
    proof
      assume "ee_verdict sni xs = 0"
      with v have l: "4 + el \<le> length xs" and c: "et = 10 \<or> et = 0 \<and> sni \<and> el = 0"
        and r: "ee_verdict sni (drop (4 + el) xs) = 0" by auto
      from 1 [OF et_def el_def False] l c r obtain es
        where es: "drop (4 + el) xs = concat (map ee_ext es)" "\<forall>e \<in> set es. ee_allowed sni e" by auto
      let ?e = "(word_of_nat et :: word16, take el (drop 4 xs))"
      have "be_bytes 2 et = take 2 xs" and "be_bytes 2 el = take 2 (drop 2 xs)"
        using l by (simp_all add: et_def el_def)
      moreover have "et < 65536" and "el < 65536"
        using be_val_lt [of "take 2 xs"] be_val_lt [of "take 2 (drop 2 xs)"] l by (simp_all add: et_def el_def)
      moreover have "take 2 xs @ take 2 (drop 2 xs) @ take el (drop 4 xs) @ drop (4 + el) xs = xs"
        using append_take_drop_id [of 2 xs] append_take_drop_id [of 2 "drop 2 xs"] append_take_drop_id [of el "drop 4 xs"]
        by (simp add: add.commute)
      ultimately have "xs = concat (map ee_ext (?e # es))" and "ee_allowed sni ?e"
        using l c es(1) by (auto simp: ee_ext_def ee_allowed_def unat_of_nat take_bit_nat_eq_self)
      then show "\<exists>es. xs = concat (map ee_ext es) \<and> (\<forall>e \<in> set es. ee_allowed sni e)"
        using es(2) by (metis set_ConsD)
    next
      assume "\<exists>es. xs = concat (map ee_ext es) \<and> (\<forall>e \<in> set es. ee_allowed sni e)"
      then obtain fs where fs: "xs = concat (map ee_ext fs)" "\<forall>e \<in> set fs. ee_allowed sni e"
        by auto
      with False obtain e es where "fs = e # es"
        by (cases fs) auto
      with fs have xs: "xs = ee_ext e @ concat (map ee_ext es)"
        and a: "ee_allowed sni e" "\<forall>e \<in> set es. ee_allowed sni e"
        by simp_all
      have b: "unat (fst e) < 65536" "length (snd e) < 65536"
        using a(1) by (simp_all add: ee_allowed_def)
      have "et = unat (fst e)" and "el = length (snd e)"
        using b by (simp_all add: et_def el_def xs ee_ext_def be_val_be_bytes)
      moreover have "drop (4 + length (snd e)) xs = concat (map ee_ext es)"
        by (simp add: xs ee_ext_def)
      moreover have "4 + length (snd e) \<le> length xs"
        by (simp add: xs ee_ext_def)
      moreover have "unat (fst e) = 10 \<or> unat (fst e) = 0 \<and> sni \<and> snd e = []"
        using a(1) by (auto simp: ee_allowed_def)
      ultimately show "ee_verdict sni xs = 0"
        using v 1 [OF et_def el_def False] a(2) by auto
    qed
  qed
qed

lemma CheckEncExt_spec:
  assumes "unat n \<le> length body" and "unat n + 65536 < 2 ^ 32"
  shows "wn_CheckEncExt body n sni = Some
    (if unat n < 2 \<or> be_val (take 2 body) + 2 \<noteq> unat n then WOLFNANO_E_DECODE
     else ee_verdict sni (drop 2 (take (unat n) body)))"
proof -
  define S where "S = take (unat n) body"
  have lS: "length S = unat n"
    using assms(1) by (simp add: S_def)
  have g0: "rdr.got (wn_Reader_Init body n) S []"
    unfolding S_def using assms by (intro wf_Reader_Init) simp_all
  have f0: "\<not> r_failed (wn_Reader_Init body n)"
    by (simp add: wn_Reader_Init_def r_failed_def)
  have "runs (wn_CheckEncExt body n sni) (\<lambda>ret. ret =
    (if unat n < 2 \<or> be_val (take 2 body) + 2 \<noteq> unat n then WOLFNANO_E_DECODE else ee_verdict sni (drop 2 S)))"
    unfolding wn_CheckEncExt_def
  proof (rule rdr.u16_got [OF g0], goal_cases)
    case (1 extLen r)
    have f: "r_failed r \<longleftrightarrow> unat n < 2"
      using 1 f0 lS by (simp add: numeral_2_eq_2)
    have e: "r_err r \<noteq> 0 \<longleftrightarrow> r_failed r"
      by (simp add: r_failed_def)
    show ?case
    proof (cases "r_failed r")
      case True
      then show ?thesis
        using f e by (simp add: Let_def enc_ext_loop_stop)
    next
      case False
      have p: "r_at r = 2"
        using got_pos [OF 1(1) False] by simp
      have "take 2 S = be_bytes 2 (unat extLen)"
        using 1(1) False p by (simp add: rdr.got_def)
      then have v: "be_val (take 2 body) = unat extLen"
        using False f by (simp add: S_def be_val_be_bytes min_def split: if_splits)
      have "2 + unat extLen < 4294967296"
        using word16_lt [of extLen] by linarith
      then have u: "unat (r_pos r + ucast extLen) = 2 + unat extLen"
        using p by (simp add: r_at_def unat_add_no_wrap)
      have n: "r_pos r + ucast extLen = n \<longleftrightarrow> unat extLen + 2 = unat n"
        by (metis add.commute u word_unat_eq_iff)
      have nf: "\<not> unat n < 2" "r_err r = 0"
        using False f e by simp_all
      have "length (be_bytes 2 (unat extLen)) = 2" and sm: "length S + 65536 < 2 ^ 32"
        using assms(2) lS by simp_all
      then have l: "enc_ext_loop sni n 0 r = Some (ee_verdict sni (drop 2 S))"
        using enc_ext_loop_spec [OF 1(1) False sm lS [symmetric], of sni] by simp
      show ?thesis
      proof (cases "unat extLen + 2 = unat n")
        case True
        from True n have e: "r_pos r + ucast extLen = n" by blast
        from True nf have "(unat n < 2 \<or> unat extLen + 2 \<noteq> unat n) = False" by blast
        then show ?thesis
          unfolding v by (simp only: prod.case Let_def e nf l runs_Some if_False simp_thms)
      next
        case neq: False
        then have e: "r_pos r + ucast extLen \<noteq> n" using n by blast
        from neq have "(unat n < 2 \<or> unat extLen + 2 \<noteq> unat n) = True" by blast
        then show ?thesis
          unfolding v by (simp only: prod.case Let_def e simp_thms if_True not_False_eq_True)
            (simp add: enc_ext_loop_stop)
      qed
    qed
  qed
  then show ?thesis
    unfolding S_def by (auto simp: runs_def)
qed

lemma vector2_framed:
  "2 \<le> length S \<and> be_val (take 2 S) + 2 = length S \<longleftrightarrow> (\<exists>b. S = be_bytes 2 (length b) @ b \<and> length b < 65536)"
proof
  assume l: "2 \<le> length S \<and> be_val (take 2 S) + 2 = length S"
  then have n: "length (drop 2 S) = be_val (take 2 S)" and t: "length (take 2 S) = 2"
    unfolding length_drop by (linarith, simp add: l)
  have "S = be_bytes 2 (length (drop 2 S)) @ drop 2 S"
    using be_bytes_of_be_val [OF t] by (metis n append_take_drop_id)
  moreover have "length (drop 2 S) < 65536"
    using be_val_lt [of "take 2 S"] unfolding n t by simp
  ultimately show "\<exists>b. S = be_bytes 2 (length b) @ b \<and> length b < 65536" by blast
next
  assume "\<exists>b. S = be_bytes 2 (length b) @ b \<and> length b < 65536"
  then obtain b where S: "S = be_bytes 2 (length b) @ b" and "length b < 65536" by blast
  then show "2 \<le> length S \<and> be_val (take 2 S) + 2 = length S"
    unfolding S by (simp add: be_val_be_bytes)
qed

lemma ee_verdict_codes: "ee_verdict sni xs \<in> {0, WOLFNANO_E_DECODE, WOLFNANO_E_UNEXPECTED_MSG}"
  by (induction sni xs rule: ee_verdict.induct) (subst ee_verdict.simps, simp add: Let_def)

lemma CheckEncExt_result:
  assumes "unat n \<le> length body" and "unat n + 65536 < 2 ^ 32"
  shows "\<exists>ret. wn_CheckEncExt body n sni = Some ret \<and>
    ret \<in> {WOLFNANO_SUCCESS, WOLFNANO_E_DECODE, WOLFNANO_E_UNEXPECTED_MSG} \<and>
    (ret = WOLFNANO_SUCCESS \<longleftrightarrow>
      (\<exists>es. take (unat n) body = be_bytes 2 (length (concat (map ee_ext es))) @ concat (map ee_ext es) \<and>
            length (concat (map ee_ext es)) < 65536 \<and> (\<forall>e \<in> set es. ee_allowed sni e)))"
proof -
  let ?S = "take (unat n) body"
  have l: "length ?S = unat n"
    using assms(1) by simp
  have "wn_CheckEncExt body n sni = Some (if 2 \<le> length ?S \<and> be_val (take 2 ?S) + 2 = length ?S
      then ee_verdict sni (drop 2 ?S) else WOLFNANO_E_DECODE)"
    using l by (subst CheckEncExt_spec [OF assms]) (auto simp: min_def)
  then have e: "wn_CheckEncExt body n sni = Some (if \<exists>b. ?S = be_bytes 2 (length b) @ b \<and> length b < 65536
      then ee_verdict sni (drop 2 ?S) else WOLFNANO_E_DECODE)"
    unfolding vector2_framed .
  show ?thesis
  proof (cases "\<exists>b. ?S = be_bytes 2 (length b) @ b \<and> length b < 65536")
    case True
    then obtain b where b: "?S = be_bytes 2 (length b) @ b" "length b < 65536" by blast
    with e have v: "wn_CheckEncExt body n sni = Some (ee_verdict sni b)" by auto
    have "?S = be_bytes 2 (length c) @ c \<longleftrightarrow> c = b" for c
      using b(1) by (auto simp: append_eq_append_conv)
    then show ?thesis
      using v b(2) ee_verdict_codes [of sni b] by (auto simp: ee_verdict_accepts)
  next
    case False
    then show ?thesis
      using e by auto
  qed
qed

section \<open>Properties\<close>

lemma demo_usable: "kdf_usable demo_wc (\<lambda>d s i. pad (digest_size d) (s @ i)) (\<lambda>d k l n. pad n (k @ l)) WC_SHA256"
  by (simp add: kdf_usable_def demo_hkdf)

text \<open>
  C25. EncryptedExtensions: the check stays inside the message and accepts it exactly when it is
  one vector of extensions, each of which answers an offer of the client (any
  \<open>supported_groups\<close>; an empty \<open>server_name\<close>, when one was sent). Everything else ends in
  \<open>E_DECODE\<close> or \<open>E_UNEXPECTED_MSG\<close>; the loop always ends.
\<close>

theorem check_enc_ext_exact:
  assumes "unat n \<le> length body" and "unat n + 65536 < 2 ^ 32"
  shows "\<exists>ret. wn_CheckEncExt body n sni = Some ret \<and>
    ret \<in> {WOLFNANO_SUCCESS, WOLFNANO_E_DECODE, WOLFNANO_E_UNEXPECTED_MSG} \<and>
    (ret = WOLFNANO_SUCCESS \<longleftrightarrow>
      (\<exists>es. take (unat n) body = be_bytes 2 (length (concat (map ee_ext es))) @ concat (map ee_ext es) \<and>
            length (concat (map ee_ext es)) < 65536 \<and> (\<forall>e \<in> set es. ee_allowed sni e)))"
  using assms by (rule CheckEncExt_result)

theorem check_enc_ext_exact_witness:
  "\<exists>ret. wn_CheckEncExt [0, 8, 0, 10, 0, 0, 0, 0, 0, 0, 99] 10 True = Some ret \<and> ret = WOLFNANO_SUCCESS"
proof -
  let ?es = "[(10, []), (0, [])] :: (word16 \<times> bytes) list"
  have b: "take 10 ([0, 8, 0, 10, 0, 0, 0, 0, 0, 0, 99] :: bytes) =
      be_bytes 2 (length (concat (map ee_ext ?es))) @ concat (map ee_ext ?es)"
    by (simp add: ee_ext_def be_bytes_2)
  have a: "length (concat (map ee_ext ?es)) < 65536" "\<forall>e \<in> set ?es. ee_allowed True e"
    by (simp_all add: ee_ext_def ee_allowed_def)
  have n: "take (unat (10 :: word32)) x = take 10 (x :: bytes)" for x
    by simp
  have "\<exists>ret. wn_CheckEncExt [0, 8, 0, 10, 0, 0, 0, 0, 0, 0, 99] 10 True = Some ret \<and>
      (ret = WOLFNANO_SUCCESS \<longleftrightarrow> (\<exists>es. take 10 [0, 8, 0, 10, 0, 0, 0, 0, 0, 0, 99] =
          be_bytes 2 (length (concat (map ee_ext es))) @ concat (map ee_ext es) \<and>
        length (concat (map ee_ext es)) < 65536 \<and> (\<forall>e \<in> set es. ee_allowed True e)))"
    using check_enc_ext_exact [of 10 "[0, 8, 0, 10, 0, 0, 0, 0, 0, 0, 99]" True] unfolding n by fastforce
  then show ?thesis
    using b a by blast
qed

text \<open>
  C23. The handshake keys follow RFC 8446, section 7.1: the handshake secret is extracted from
  the shared secret under the \<open>derived\<close> early secret, the two traffic secrets are derived from
  it and the transcript hash, and each key and IV from its own traffic secret. All of it holds
  whatever the output buffers contained.
\<close>

theorem derive_hs_keys_rfc:
  assumes "kdf_usable P ext exp WC_SHA256"
    and "length hs = 32" "length cHs = 32" "length sHs = 32" "length ck = 16" "length ci = 12" "length sk = 16" "length si = 12"
    and "length early = 32" "length eh = 32" "length th = 32" and "unat n \<le> length ecdhe" "n \<noteq> 0"
    and "H = next_stage ext exp eh early (take (unat n) ecdhe)"
    and "C = traffic_secret exp H ''c hs traffic'' th" and "S = traffic_secret exp H ''s hs traffic'' th"
  shows "wn_DeriveHsKeys P hs cHs sHs ck ci sk si early ecdhe n eh th =
    Some (0, H, C, S, secret_key exp C, secret_iv exp C, secret_key exp S, secret_iv exp S)"
  using assms by (rule DeriveHsKeys_spec)

theorem derive_hs_keys_rfc_witness:
  "wn_DeriveHsKeys demo_wc (replicate 32 0) (replicate 32 0) (replicate 32 0) (replicate 16 0) (replicate 12 0)
     (replicate 16 0) (replicate 12 0) (replicate 32 3) (replicate 64 4) 32 (replicate 32 5) (replicate 32 6) =
   Some (0, replicate 32 3, replicate 32 3, replicate 32 3, replicate 16 3, replicate 12 3, replicate 16 3, replicate 12 3)"
proof -
  let ?exp = "\<lambda>(d :: hash_id) k l n. pad n (k @ l) :: bytes"
  have k: "pad n (replicate 32 3 @ x) = replicate n 3" if "n \<le> 32" for n x
    using that by (simp add: pad_def)
  have H: "next_stage (\<lambda>d s i. pad (digest_size d) (s @ i)) ?exp (replicate 32 5) (replicate 32 3)
      (take (unat (32 :: word32)) (replicate 64 4)) = replicate 32 3"
    by (simp add: next_stage_def Derive_Secret_def HKDF_Expand_Label_def digest_size_def k)
  have T: "traffic_secret ?exp (replicate 32 3) l th = replicate 32 3" for l th
    by (simp add: traffic_secret_def Derive_Secret_def HKDF_Expand_Label_def digest_size_def k)
  have K: "secret_key ?exp (replicate 32 3) = replicate 16 3" "secret_iv ?exp (replicate 32 3) = replicate 12 3"
    by (simp_all add: secret_key_def secret_iv_def HKDF_Expand_Label_def k)
  show ?thesis
    using derive_hs_keys_rfc [OF demo_usable, of "replicate 32 0" "replicate 32 0" "replicate 32 0" "replicate 16 0"
        "replicate 12 0" "replicate 16 0" "replicate 12 0" "replicate 32 3" "replicate 32 5" "replicate 32 6" 32
        "replicate 64 4", OF _ _ _ _ _ _ _ _ _ _ _ _ H [symmetric] T [symmetric] T [symmetric]]
    by (simp add: K)
qed

text \<open>
  C24. Establishing a session: the master secret is the next stage of the schedule over zeros,
  the application traffic secrets, keys and IVs come from it and the transcript hash, both
  sequence numbers start at 0, and the session carries the caller's callbacks and buffer. What
  the struct held before does not matter.
\<close>

theorem session_establish_rfc:
  assumes "kdf_usable P ext exp WC_SHA256"
    and "length (cAppSecret sess) = 32" "length (sAppSecret sess) = 32" "length (cKey sess) = 16" "length (cIv sess) = 12"
      "length (sKey sess) = 16" "length (sIv sess) = 12"
    and "length hs = 32" "length eh = 32" "length zeros = 32" "length th = 32"
    and "M = next_stage ext exp eh hs zeros"
    and "C = traffic_secret exp M ''c ap traffic'' th" and "S = traffic_secret exp M ''s ap traffic'' th"
  shows "wn_SessionEstablish P sess hs eh zeros th send recv ctx scr n =
    Some (0, \<lparr>ioSend = Some send, ioRecv = Some recv, ioCtx = ctx, scratch = Some scr, scratchLen = n,
      cAppSecret = C, sAppSecret = S, cKey = secret_key exp C, cIv = secret_iv exp C, sKey = secret_key exp S,
      sIv = secret_iv exp S, cSeq = 0, sSeq = 0, sess_digest = WC_SHA256, flags = WN_SESS_ESTABLISHED\<rparr>)"
  using assms by (rule SessionEstablish_spec)

theorem session_establish_rfc_witness:
  "\<exists>s. wn_SessionEstablish demo_wc zero_session (replicate 32 3) (replicate 32 5) (replicate 32 0) (replicate 32 6)
     demo_send demo_recv 0 (replicate 2048 0) 2048 = Some (0, s) \<and> flags s = WN_SESS_ESTABLISHED \<and> cSeq s = 0"
  using session_establish_rfc [OF demo_usable, of zero_session "replicate 32 3" "replicate 32 5" "replicate 32 0"
      "replicate 32 6", OF _ _ _ _ _ _ _ _ _ _ refl refl refl, of demo_send demo_recv 0 "replicate 2048 0" 2048]
  by (simp add: zero_session_def)

end
