(* ===== verification/Wn_ConnectPsk.thy ===== *)
theory Wn_ConnectPsk
  imports Wn_Handshake
begin

text \<open>
  The PSK driver of \<open>src/src/wn_connect.c\<close>: the ClientHello with its binder, the server's
  EncryptedExtensions and Finished reassembled in a 512-byte buffer, and the whole handshake
  \<open>wn_Connect_Psk_ex\<close>.
\<close>

section \<open>The ClientHello\<close>

text \<open>The results are the writer, the length of the part the binder covers, and the offset of the binder.\<close>

definition pch_sig_algs :: "'o wc \<Rightarrow> wn_Writer \<Rightarrow> wn_Writer option" where
  "pch_sig_algs P w = do {
     w \<leftarrow> wn_Write_U16 w 13;
     w \<leftarrow> (if WOLFSSL_HAVE_MLDSA P then do {
            w \<leftarrow> wn_Write_U16 w 8;
            w \<leftarrow> wn_Write_U16 w 6;
            wn_Write_U16 w (WN_MLDSA_SCHEME P)
          } else do {
            w \<leftarrow> wn_Write_U16 w 6;
            wn_Write_U16 w 4
          });
     w \<leftarrow> wn_Write_U16 w 0x0807;
     wn_Write_U16 w 0x0403
   }"

definition pch_key_share :: "word16 \<Rightarrow> bytes \<Rightarrow> word32 \<Rightarrow> wn_Writer \<Rightarrow> wn_Writer option" where
  "pch_key_share grp cliPub pubLen w = do {
     w \<leftarrow> wn_Write_U16 w 51;
     w \<leftarrow> wn_Write_U16 w (ucast (6 + pubLen));
     w \<leftarrow> wn_Write_U16 w (ucast (4 + pubLen));
     w \<leftarrow> wn_Write_U16 w grp;
     w \<leftarrow> wn_Write_U16 w (ucast pubLen);
     wn_Write_Bytes w (Some cliPub) pubLen
   }"

definition pch_psk :: "bytes \<Rightarrow> word32 \<Rightarrow> wn_Writer \<Rightarrow> (wn_Writer \<times> word32 \<times> word32) option" where
  "pch_psk identity idLen w = do {
     w \<leftarrow> wn_Write_U16 w 41;
     (pskLen, w) \<leftarrow> wn_Write_LenStart w 2;
     (idsLen, w) \<leftarrow> wn_Write_LenStart w 2;
     w \<leftarrow> wn_Write_U16 w (ucast idLen);
     w \<leftarrow> wn_Write_Bytes w (Some identity) idLen;
     w \<leftarrow> wn_Write_U16 w 0;
     w \<leftarrow> wn_Write_U16 w 0;
     w \<leftarrow> wn_Write_LenEnd w idsLen 2;
     let truncOff = w_len w;
     w \<leftarrow> wn_Write_U16 w 33;
     w \<leftarrow> wn_Write_U8 w 32;
     let binderOff = w_len w;
     w \<leftarrow> write_zeros 32 w;
     w \<leftarrow> wn_Write_LenEnd w pskLen 2;
     Some (w, truncOff, binderOff)
   }"

definition build_client_hello ::
    "'o wc \<Rightarrow> wn_Writer \<Rightarrow> bytes \<Rightarrow> bytes \<Rightarrow> bytes \<Rightarrow> word16 \<Rightarrow> word32 \<Rightarrow> bytes \<Rightarrow> word32 \<Rightarrow>
     (wn_Writer \<times> word32 \<times> word32) option" where
  "build_client_hello P w random32 sid cliPub grp pubLen identity idLen = do {
     w \<leftarrow> wn_Write_U8 w 1;
     (hsLen, w) \<leftarrow> wn_Write_LenStart w 3;
     w \<leftarrow> wn_Write_U16 w 0x0303;
     w \<leftarrow> wn_Write_Bytes w (Some random32) 32;
     w \<leftarrow> wn_Write_U8 w 32;
     w \<leftarrow> wn_Write_Bytes w (Some sid) 32;
     w \<leftarrow> wn_Write_U16 w 2;
     w \<leftarrow> wn_Write_U16 w 0x1301;
     w \<leftarrow> wn_Write_U8 w 1;
     w \<leftarrow> wn_Write_U8 w 0;
     (extLen, w) \<leftarrow> wn_Write_LenStart w 2;
     w \<leftarrow> wn_Write_U16 w 43;
     w \<leftarrow> wn_Write_U16 w 3;
     w \<leftarrow> wn_Write_U8 w 2;
     w \<leftarrow> wn_Write_U16 w 0x0304;
     w \<leftarrow> wn_Write_U16 w 10;
     w \<leftarrow> wn_Write_U16 w 4;
     w \<leftarrow> wn_Write_U16 w 2;
     w \<leftarrow> wn_Write_U16 w grp;
     w \<leftarrow> pch_sig_algs P w;
     w \<leftarrow> pch_key_share grp cliPub pubLen w;
     w \<leftarrow> wn_Write_U16 w 45;
     w \<leftarrow> wn_Write_U16 w 2;
     w \<leftarrow> wn_Write_U8 w 1;
     w \<leftarrow> wn_Write_U8 w 1;
     (w, truncOff, binderOff) \<leftarrow> pch_psk identity idLen w;
     w \<leftarrow> wn_Write_LenEnd w extLen 2;
     w \<leftarrow> wn_Write_LenEnd w hsLen 3;
     Some (w, truncOff, binderOff)
   }"

section \<open>The driver's phases\<close>

record ('o, 'io) psk_locals = "('o, 'io) hs_locals" +
  p_binderKey :: bytes
  p_binder :: bytes
  p_recvMac :: bytes
  p_plain :: bytes
  p_truncOff :: word32
  p_binderOff :: word32
  p_accOff :: word32

abbreviation (input) WN_HS_FINISHED :: byte where "WN_HS_FINISHED \<equiv> 20"
abbreviation (input) WN_HS_ENCRYPTED_EXT :: byte where "WN_HS_ENCRYPTED_EXT \<equiv> 8"

type_synonym ('o, 'io) psk_phase = "('o, 'io) psk_locals \<Rightarrow> (int \<times> ('o, 'io) psk_locals) option"

definition psk_start :: "'o wc \<Rightarrow> ('o, 'io) psk_phase" where
  "psk_start P s =
     (case wc_Sha256Hash P [] of (r, h) \<Rightarrow>
      mem_write (l_emptyHash s) 0 h \<bind> (\<lambda>e.
      Some (if r \<noteq> 0 then WOLFNANO_E_CRYPTO else WOLFNANO_SUCCESS, s\<lparr>l_emptyHash := e\<rparr>))) \<bind>
     ok (\<lambda>s.
       case wc_RNG_GenerateBlock P (l_rng s) 32 of (r1, b1, rng) \<Rightarrow>
       mem_write (l_random32 s) 0 b1 \<bind> (\<lambda>rnd.
       case wc_RNG_GenerateBlock P rng 32 of (r2, b2, rng) \<Rightarrow>
       mem_write (l_sid s) 0 b2 \<bind> (\<lambda>sid.
       Some (if r1 OR r2 \<noteq> 0 then WOLFNANO_E_CRYPTO else WOLFNANO_SUCCESS,
             s\<lparr>l_rng := rng, l_random32 := rnd, l_sid := sid\<rparr>))))"

definition psk_hello :: "'o wc \<Rightarrow> bytes \<Rightarrow> word32 \<Rightarrow> bytes \<Rightarrow> word32 \<Rightarrow> ('o, 'io) psk_phase" where
  "psk_hello P psk pskLen identity scratchLen' s =
     build_client_hello P (wn_Writer_Init (l_scratch s) scratchLen') (l_random32 s) (l_sid s) (l_cliPub s)
       (word_of_int (WN_DEFAULT_GROUP P)) (l_pubLen s) identity (word_of_nat (length identity)) \<bind>
       (\<lambda>(w, truncOff, binderOff).
     Some (if w_err w \<noteq> 0 then WOLFNANO_E_CRYPTO else WOLFNANO_SUCCESS,
           s\<lparr>l_scratch := w_buf w, l_chLen := w_len w, p_truncOff := truncOff, p_binderOff := binderOff\<rparr>)) \<bind>
     ok (\<lambda>s.
       wn_Tls13_Extract P (Some (l_early s)) None 0 (Some psk) pskLen WC_SHA256 \<bind> (\<lambda>(r1, early).
       wn_Tls13_DeriveSecret P (Some (p_binderKey s)) (Some early) (Some ''ext binder'') (Some (l_emptyHash s)) 32
         WC_SHA256 \<bind> (\<lambda>(r2, bk).
       Some (r1 OR r2, s\<lparr>l_early := early, p_binderKey := bk\<rparr>)))) \<bind>
     ok (\<lambda>s.
       mem_read (l_scratch s) 0 (unat (p_truncOff s)) \<bind> (\<lambda>m.
       case wc_Sha256Hash P m of (r, h) \<Rightarrow>
       mem_write (l_th s) 0 h \<bind> (\<lambda>th.
       Some (if r \<noteq> 0 then WOLFNANO_E_CRYPTO else WOLFNANO_SUCCESS, s\<lparr>l_th := th\<rparr>)))) \<bind>
     ok (\<lambda>s.
       wn_Tls13_FinishedMac P (Some (p_binder s)) (Some (p_binderKey s)) (Some (l_th s)) 32 WC_SHA256 \<bind> (\<lambda>(ret, b).
       Some (ret, s\<lparr>p_binder := b\<rparr>))) \<bind>
     ok (\<lambda>s.
       mem_read (p_binder s) 0 32 \<bind> (\<lambda>b.
       mem_write (l_scratch s) (unat (p_binderOff s)) b \<bind> (\<lambda>scr.
       Some (WOLFNANO_SUCCESS, s\<lparr>l_scratch := scr\<rparr>))))"

text \<open>Both calls run; their error codes are combined with a bitwise or.\<close>

definition psk_keys :: "'o wc \<Rightarrow> ('o, 'io) psk_phase" where
  "psk_keys P s =
     hs_get_hash P s \<bind> (\<lambda>(r1, s). hs_derive P s \<bind> (\<lambda>(r2, s). Some (r1 OR r2, s)))"

text \<open>The two messages of the flight; \<open>mStart\<close> is where the message lies in \<open>plain\<close>.\<close>

definition psk_enc_ext :: "'o wc \<Rightarrow> word32 \<Rightarrow> word32 \<Rightarrow> ('o, 'io) psk_phase" where
  "psk_enc_ext P mStart mLen s =
     (if l_gotEE s then Some (WOLFNANO_E_UNEXPECTED_MSG, s)
      else
        wn_CheckEncExt (drop (unat mStart + 4) (p_plain s)) mLen False \<bind> (\<lambda>ret.
        ok (hs_update P (drop (unat mStart) (p_plain s)) (mLen + 4)) (ret, s) \<bind> (\<lambda>(ret, s).
        Some (ret, s\<lparr>l_gotEE := True\<rparr>))))"

definition psk_finished :: "'o wc \<Rightarrow> word32 \<Rightarrow> word32 \<Rightarrow> ('o, 'io) psk_phase" where
  "psk_finished P mStart mLen s =
     fail_if (\<not> l_gotEE s \<or> mLen \<noteq> 32) WOLFNANO_E_BAD_MAC s \<bind>
     ok (hs_get_hash P) \<bind>
     ok (\<lambda>s. hs_finished_mac P (l_sHs s) s) \<bind>
     ok (\<lambda>s.
       mem_read (p_plain s) (unat mStart + 4) 32 \<bind> (\<lambda>m.
       mem_write (p_recvMac s) 0 m \<bind> (\<lambda>rm.
       mem_read (l_mac s) 0 32 \<bind> (\<lambda>a.
       mem_read rm 0 32 \<bind> (\<lambda>b.
       fail_if (ConstantCompare P a b \<noteq> 0) WOLFNANO_E_BAD_MAC (s\<lparr>p_recvMac := rm\<rparr>)))))) \<bind>
     ok (\<lambda>s.
       hs_update P (drop (unat mStart) (p_plain s)) (mLen + 4) s \<bind> (\<lambda>(ret, s).
       Some (ret, s\<lparr>l_done := True\<rparr>)))"

text \<open>One turn of the loop over complete messages; the flag is the \<open>break\<close>.\<close>

definition psk_msg :: "'o wc \<Rightarrow> ('o, 'io) psk_locals \<Rightarrow> (int \<times> bool \<times> ('o, 'io) psk_locals) option" where
  "psk_msg P s =
     mem_get (p_plain s) (unat (p_accOff s)) \<bind> (\<lambda>mType.
     mem_get (p_plain s) (unat (p_accOff s + 1)) \<bind> (\<lambda>b1.
     mem_get (p_plain s) (unat (p_accOff s + 2)) \<bind> (\<lambda>b2.
     mem_get (p_plain s) (unat (p_accOff s + 3)) \<bind> (\<lambda>b3.
     let mStart = p_accOff s;
         mLen = push_bit 16 (ucast b1) OR push_bit 8 (ucast b2) OR ucast b3 :: word32 in
     if p_accOff s + 4 + mLen > 512 then Some (WOLFNANO_E_DECODE, True, s)
     else if p_accOff s + 4 + mLen > l_accLen s then Some (WOLFNANO_SUCCESS, True, s)
     else
       let s = s\<lparr>p_accOff := p_accOff s + (4 + mLen)\<rparr> in
       (if mType = WN_HS_ENCRYPTED_EXT then psk_enc_ext P mStart mLen s
        else if mType = WN_HS_FINISHED then psk_finished P mStart mLen s
        else Some (WOLFNANO_E_UNEXPECTED_MSG, s)) \<bind> (\<lambda>(ret, s). Some (ret, False, s))))))"

partial_function (option) psk_msgs :: "'o wc \<Rightarrow> ('o, 'io) psk_locals \<Rightarrow> (int \<times> ('o, 'io) psk_locals) option" where
  "psk_msgs P s =
     (if \<not> l_done s \<and> l_accLen s - p_accOff s \<ge> 4
      then psk_msg P s \<bind> (\<lambda>(ret, brk, s).
        if brk \<or> ret \<noteq> WOLFNANO_SUCCESS then Some (ret, s) else psk_msgs P s)
      else Some (WOLFNANO_SUCCESS, s))"

text \<open>One turn of the loop over records; a ChangeCipherSpec is skipped.\<close>

definition psk_record :: "'o wc \<Rightarrow> 'io wn_IoRecv \<Rightarrow> word32 \<Rightarrow> ('o, 'io) psk_phase" where
  "psk_record P recv scratchLen' s =
     wn_RecvRecord recv (l_io s) (l_scratch s) scratchLen' (l_rtype s) (l_recLen s) \<bind>
       (\<lambda>(ret, scr, rtype, recLen, io).
     let s = s\<lparr>l_scratch := scr, l_rtype := rtype, l_recLen := recLen, l_io := io\<rparr> in
     if ret = WOLFNANO_SUCCESS \<and> rtype = WN_REC_CHANGE_CIPHER then Some (WOLFNANO_SUCCESS, s)
     else
       ok (\<lambda>s. fail_if (rtype \<noteq> WN_REC_APPDATA) WOLFNANO_E_UNEXPECTED_MSG s) (ret, s) \<bind>
       ok (\<lambda>s. fail_if (recLen < 5 + 16 \<or> recLen - 5 - 16 > 512 - l_accLen s) WOLFNANO_E_DECODE s) \<bind>
       ok (\<lambda>s.
         wn_Record_Unprotect P (Some (drop (unat (l_accLen s)) (p_plain s))) (Some (l_plainLen s)) (Some (l_ctype s))
           (Some (l_sKey s)) 16 (Some (l_sIv s)) (l_sSeq s) (Some (l_scratch s)) recLen \<bind> (\<lambda>(ret, pl, n, ct).
         n \<bind> (\<lambda>n. ct \<bind> (\<lambda>ct.
         Some (ret, s\<lparr>p_plain := take (unat (l_accLen s)) (p_plain s) @ pl, l_plainLen := n, l_ctype := ct,
                      l_sSeq := l_sSeq s + 1\<rparr>))))) \<bind>
       ok (\<lambda>s. fail_if (l_ctype s \<noteq> WN_REC_HANDSHAKE) WOLFNANO_E_UNEXPECTED_MSG s) \<bind>
       ok (\<lambda>s. psk_msgs P (s\<lparr>l_accLen := l_accLen s + l_plainLen s\<rparr>)))"

partial_function (option) psk_flight ::
    "'o wc \<Rightarrow> 'io wn_IoRecv \<Rightarrow> word32 \<Rightarrow> ('o, 'io) psk_locals \<Rightarrow> (int \<times> ('o, 'io) psk_locals) option" where
  "psk_flight P recv scratchLen' s =
     (if l_done s then Some (WOLFNANO_SUCCESS, s)
      else psk_record P recv scratchLen' s \<bind> (\<lambda>(ret, s).
        if ret \<noteq> WOLFNANO_SUCCESS then Some (ret, s) else psk_flight P recv scratchLen' s))"

definition psk_run ::
    "'o wc \<Rightarrow> 'io wn_IoSend \<Rightarrow> 'io wn_IoRecv \<Rightarrow> nat \<Rightarrow> bytes \<Rightarrow> word32 \<Rightarrow> bytes \<Rightarrow> word32 \<Rightarrow> ('o, 'io) psk_phase" where
  "psk_run P send recv ctx psk pskLen identity scratchLen' s =
     psk_start P s \<bind>
     ok (hs_key_share P) \<bind>
     ok (psk_hello P psk pskLen identity scratchLen') \<bind>
     ok (hs_send_hello P send) \<bind>
     ok (hs_server_hello P recv scratchLen' 0) \<bind>
     ok (psk_keys P) \<bind>
     ok (psk_flight P recv scratchLen') \<bind>
     ok (hs_client_finished P send) \<bind>
     ok (hs_establish P send recv ctx scratchLen')"

definition psk_wipe :: "'o wc \<Rightarrow> ('o, 'io) psk_locals \<Rightarrow> ('o, 'io) psk_locals option" where
  "psk_wipe P s = do {
     s \<leftarrow> hs_wipe P s;
     bk \<leftarrow> force_zero (p_binderKey s) 0 32;
     b \<leftarrow> force_zero (p_binder s) 0 32;
     rm \<leftarrow> force_zero (p_recvMac s) 0 32;
     pl \<leftarrow> force_zero (p_plain s) 0 512;
     Some (s\<lparr>p_binderKey := bk, p_binder := b, p_recvMac := rm, p_plain := pl\<rparr>)
   }"

text \<open>The call with valid arguments, returning the locals as it leaves them on the stack.\<close>

definition psk_driver ::
    "'o wc \<Rightarrow> 'o \<Rightarrow> 'io wn_IoSend \<Rightarrow> 'io wn_IoRecv \<Rightarrow> nat \<Rightarrow> 'io \<Rightarrow> bytes \<Rightarrow> word32 \<Rightarrow> bytes \<Rightarrow> bytes \<Rightarrow> word32 \<Rightarrow>
     (int \<times> ('o, 'io) psk_locals) option" where
  "psk_driver P rng send recv ctx io psk pskLen identity scr scratchLen' =
     psk_run P send recv ctx psk pskLen identity scratchLen'
       (hs_locals.extend (init_locals P zero_session rng io scr)
         \<lparr>p_binderKey = replicate 32 0, p_binder = replicate 32 0, p_recvMac = replicate 32 0, p_plain = replicate 512 0,
          p_truncOff = 0, p_binderOff = 0, p_accOff = 0\<rparr>) \<bind> (\<lambda>(ret, s).
     psk_wipe P s \<bind> (\<lambda>s. Some (ret, s)))"

definition wn_Connect_Psk_ex ::
    "'o wc \<Rightarrow> 'io wn_Session option \<Rightarrow> 'o option \<Rightarrow> 'io wn_IoSend option \<Rightarrow> 'io wn_IoRecv option \<Rightarrow> nat \<Rightarrow> 'io \<Rightarrow>
     bytes option \<Rightarrow> word32 \<Rightarrow> bytes option \<Rightarrow> bytes option \<Rightarrow> word32 \<Rightarrow>
     (int \<times> 'io wn_Session option \<times> 'o option \<times> 'io \<times> bytes) option" where
  "wn_Connect_Psk_ex P sess rng send recv ctx io psk pskLen identity scr scratchLen' =
     (case (sess, rng, send, recv, psk, identity, scr) of
        (Some _, Some g, Some snd', Some rcv, Some k, Some i, Some b) \<Rightarrow>
          if pskLen = 0 \<or> scratchLen' < 2048 \<or> length i > 0xFFFF
          then Some (WOLFNANO_E_INVALID_ARG, sess, rng, io, b)
          else
            psk_driver P g snd' rcv ctx io k pskLen i b scratchLen' \<bind> (\<lambda>(ret, s).
            Some (ret, Some (l_sess s), Some (l_rng s), l_io s, l_scratch s))
      | _ \<Rightarrow> Some (WOLFNANO_E_INVALID_ARG, sess, rng, io, buf scr))"

text \<open>The handshake-only form wipes its local session.\<close>

definition wn_Connect_Psk ::
    "'o wc \<Rightarrow> 'o option \<Rightarrow> 'io wn_IoSend option \<Rightarrow> 'io wn_IoRecv option \<Rightarrow> nat \<Rightarrow> 'io \<Rightarrow> bytes option \<Rightarrow> word32 \<Rightarrow>
     bytes option \<Rightarrow> bytes option \<Rightarrow> word32 \<Rightarrow> (int \<times> 'o option \<times> 'io \<times> bytes) option" where
  "wn_Connect_Psk P rng send recv ctx io psk pskLen identity scr scratchLen' =
     wn_Connect_Psk_ex P (Some zero_session) rng send recv ctx io psk pskLen identity scr scratchLen' \<bind>
       (\<lambda>(ret, sess, rng, io, b). Some (ret, rng, io, b))"

end
