(* ===== verification/Wn_PskHello.thy ===== *)
theory Wn_PskHello
  imports Wn_ConnectPsk
begin

text \<open>
  The ClientHello of the PSK driver as a tree of length-prefixed vectors, and the part of it that
  the binder covers.
\<close>

section \<open>Specification\<close>

text \<open>
  The encoding of the presentation language as RFC 8446, section 3.4, defines it: a vector whose
  content is longer than its length field can say has none. (\<open>encodes\<close> of \<open>Wn_Msg\<close> is what the
  writer stores: it reduces the length to the width of the field, as the code does.)
\<close>

fun rfc_encode :: "wire \<Rightarrow> bytes option" and rfc_encodes :: "wire list \<Rightarrow> bytes option" where
  "rfc_encode (WU8 v) = Some [v]"
| "rfc_encode (WU16 v) = Some (be_bytes 2 (unat v))"
| "rfc_encode (WU24 v) = (if unat v < 2 ^ 24 then Some (be_bytes 3 (unat v)) else None)"
| "rfc_encode (WBytes bs) = Some bs"
| "rfc_encode (WVec n ms) =
     rfc_encodes ms \<bind> (\<lambda>b. if length b < 256 ^ n then Some (be_bytes n (length b) @ b) else None)"
| "rfc_encodes [] = Some []"
| "rfc_encodes (m # ms) = rfc_encode m \<bind> (\<lambda>a. rfc_encodes ms \<bind> (\<lambda>b. Some (a @ b)))"

definition psk_schemes :: "'o wc \<Rightarrow> word16 list" where
  "psk_schemes P = (if WOLFSSL_HAVE_MLDSA P then [WN_MLDSA_SCHEME P] else []) @ [0x0807, 0x0403]"

definition psk_offer :: "bytes \<Rightarrow> bytes \<Rightarrow> wire list" where
  "psk_offer identity binder =
     ext_wire 41 [WVec 2 [WVec 2 [WBytes identity], WU16 0, WU16 0], WVec 2 [WVec 1 [WBytes binder]]]"

definition psk_hello_wire :: "'o wc \<Rightarrow> bytes \<Rightarrow> bytes \<Rightarrow> bytes \<Rightarrow> word16 \<Rightarrow> bytes \<Rightarrow> bytes \<Rightarrow> wire list" where
  "psk_hello_wire P random sid pub grp identity binder =
     [WU8 1, WVec 3
       ([WU16 0x0303, WBytes random, WVec 1 [WBytes sid], WVec 2 [WU16 0x1301], WVec 1 [WU8 0], WVec 2
         (ext_wire 43 [WVec 1 [WU16 0x0304]] @
          ext_wire 10 [WVec 2 [WU16 grp]] @
          ext_wire 13 [WVec 2 (map WU16 (psk_schemes P))] @
          ext_wire 51 [WVec 2 [WU16 grp, WVec 2 [WBytes pub]]] @
          ext_wire 45 [WVec 1 [WU8 1]] @
          psk_offer identity binder)])]"

text \<open>Where the strict encoding exists, and that the writer's encoding then agrees with it.\<close>

fun wire_fits :: "wire \<Rightarrow> bool" and wires_fit :: "wire list \<Rightarrow> bool" where
  "wire_fits (WU24 v) = (unat v < 2 ^ 24)"
| "wire_fits (WVec n ms) = (wires_fit ms \<and> length (encodes ms) < 256 ^ n)"
| "wire_fits _ = True"
| "wires_fit [] = True"
| "wires_fit (m # ms) = (wire_fits m \<and> wires_fit ms)"

lemma rfc_encode_eq:
  "rfc_encode m = (if wire_fits m then Some (encode m) else None)"
  "rfc_encodes ms = (if wires_fit ms then Some (encodes ms) else None)"
  by (induction m and ms rule: rfc_encode_rfc_encodes.induct) auto

lemma wires_fit_append [simp]: "wires_fit (xs @ ys) \<longleftrightarrow> wires_fit xs \<and> wires_fit ys"
  by (induction xs) simp_all

lemma wires_fit_U16 [simp]: "wires_fit (map WU16 xs)"
  by (induction xs) simp_all

lemma length_encodes_U16: "length (encodes (map WU16 xs)) = 2 * length xs"
  by (induction xs) simp_all

lemma psk_schemes_few: "length (psk_schemes P) \<le> 3"
  by (simp add: psk_schemes_def)

text \<open>The size of the extensions block, and the whole message: the block's length field is at offset 77.\<close>

definition psk_ext_size :: "'o wc \<Rightarrow> bytes \<Rightarrow> bytes \<Rightarrow> nat" where
  "psk_ext_size P pub identity = 84 + 2 * length (psk_schemes P) + length pub + length identity"

lemma psk_wire_layout:
  fixes P :: "'o wc" and random sid bnd pub identity :: bytes and grp :: word16
  assumes "length random = 32" and "length sid = 32" and "length bnd = 32" and "length pub \<le> 1216"
  defines "m \<equiv> psk_hello_wire P random sid pub grp identity bnd"
  shows "length (encodes m) = 79 + psk_ext_size P pub identity"
    and "take 2 (drop 77 (encodes m)) = be_bytes 2 (psk_ext_size P pub identity)"
    and "length identity \<le> 65535 \<Longrightarrow>
      rfc_encodes m = (if psk_ext_size P pub identity < 65536 then Some (encodes m) else None)"
proof -
  let ?E = "ext_wire 43 [WVec 1 [WU16 0x0304]] @ ext_wire 10 [WVec 2 [WU16 grp]] @
      ext_wire 13 [WVec 2 (map WU16 (psk_schemes P))] @
      ext_wire 51 [WVec 2 [WU16 grp, WVec 2 [WBytes pub]]] @ ext_wire 45 [WVec 1 [WU8 1]] @ psk_offer identity bnd"
  have E: "length (encodes ?E) = psk_ext_size P pub identity"
    using assms(3) by (simp add: psk_ext_size_def psk_offer_def ext_wire_def length_encodes_U16)
  let ?H = "[1] @ be_bytes 3 (77 - 4 + 2 + psk_ext_size P pub identity) @ be_bytes 2 0x0303 @ random @ [32] @ sid @
      be_bytes 2 2 @ be_bytes 2 0x1301 @ [1, 0]"
  have m: "encodes m = ?H @ be_bytes 2 (psk_ext_size P pub identity) @ encodes ?E"
    using assms(1,2) E unfolding m_def psk_hello_wire_def by (simp add: be_bytes_1)
  have at: "take 2 (drop 77 (h @ v @ z)) = v" if "length h = 77" "length v = 2" for h v z :: bytes
    using that by simp
  have H: "length ?H = 77"
    using assms(1,2) by simp
  show "length (encodes m) = 79 + psk_ext_size P pub identity"
    unfolding m using H E by simp
  show "take 2 (drop 77 (encodes m)) = be_bytes 2 (psk_ext_size P pub identity)"
    unfolding m by (rule at [OF H]) simp
  show "rfc_encodes m = (if psk_ext_size P pub identity < 65536 then Some (encodes m) else None)"
    if "length identity \<le> 65535"
  proof -
    have "wires_fit m \<longleftrightarrow> psk_ext_size P pub identity < 65536"
    proof
      show "psk_ext_size P pub identity < 65536" if "wires_fit m"
        using that E unfolding m_def psk_hello_wire_def by simp
      assume l: "psk_ext_size P pub identity < 65536"
      then have "length identity < 65452" by (simp add: psk_ext_size_def)
      then have "wires_fit ?E"
        using assms(3,4) psk_schemes_few [of P] by (simp add: psk_offer_def ext_wire_def length_encodes_U16)
      then show "wires_fit m"
        using l E assms(1,2) unfolding m_def psk_hello_wire_def by simp
    qed
    then show ?thesis
      by (simp add: rfc_encode_eq)
  qed
qed

section \<open>The calls write the message\<close>

lemma zeros_step:
  assumes "wtr.holds w cap fs b" and "\<And>w'. wtr.holds w' cap fs (b @ replicate n 0) \<Longrightarrow> runs (k w') Q"
  shows "runs (write_zeros n w \<bind> k) Q"
  using write_zeros_law [OF wtr.holds_wf [OF assms(1)], of n] unfolding runs_bind
  by (rule runs_mono) (blast intro: assms wtr.holds_appended)

lemma holds_len:
  "wtr.holds w cap fs b \<Longrightarrow> length (frames_prefix fs @ b) \<le> cap \<longrightarrow> unat (w_len w) = length (frames_prefix fs @ b)"
  by (auto simp: wtr.holds_def writer_obs word_le_nat_alt not_less dest: arg_cong [of _ _ length])

lemma pch_sig_algs_holds:
  assumes "wtr.holds w cap fs b"
  shows "runs (pch_sig_algs P w)
    (\<lambda>w'. wtr.holds w' cap fs (b @ encodes (ext_wire 13 [WVec 2 (map WU16 (psk_schemes P))])))"
proof (cases "WOLFSSL_HAVE_MLDSA P")
  case True
  show ?thesis
    unfolding pch_sig_algs_def if_P [OF True] Option.bind_assoc
    apply (rule wtr.u16_step [OF assms])
    apply (erule wtr.u16_step)+
    apply (erule wtr.u16_step [where k = Some, simplified])
    using True apply (simp add: ext_wire_def psk_schemes_def be_bytes_2)
    done
next
  case False
  show ?thesis
    unfolding pch_sig_algs_def if_not_P [OF False] Option.bind_assoc
    apply (rule wtr.u16_step [OF assms])
    apply (erule wtr.u16_step)+
    apply (erule wtr.u16_step [where k = Some, simplified])
    using False apply (simp add: ext_wire_def psk_schemes_def be_bytes_2)
    done
qed

lemma pch_key_share_holds:
  assumes "wtr.holds w cap fs b" and "cap + 1216 < 2 ^ 32" and "unat n \<le> 1216" and "unat n \<le> length pub"
  shows "runs (pch_key_share grp pub n w)
    (\<lambda>w'. wtr.holds w' cap fs (b @ encodes (ext_wire 51 [WVec 2 [WU16 grp, WVec 2 [WBytes (take (unat n) pub)]]])))"
proof -
  have v: "unat (ucast (c + n) :: word16) = unat c + unat n" if "unat c \<le> 6" for c
    using length_field [of c n] that assms(3) by simp
  show ?thesis
    unfolding pch_key_share_def
    apply (rule wtr.u16_step [OF assms(1)])
    apply (erule u16_value, rule v, simp)+
    apply (erule wtr.u16_step)
    apply (erule u16_value, rule v [of 0, simplified])
    apply (erule bytes_last)
    using assms
    apply (simp_all add: ext_wire_def plus_Suc_numeral min_absorb2)
    done
qed

lemma pch_psk_holds:
  assumes "wtr.holds w cap fs b" and "cap + 65536 < 2 ^ 32" and "length identity \<le> 65535"
  shows "runs (pch_psk identity (word_of_nat (length identity)) w) (\<lambda>(w', t, o').
    wtr.holds w' cap fs (b @ encodes (psk_offer identity (replicate 32 0))) \<and>
    (length (frames_prefix fs @ b @ encodes (psk_offer identity (replicate 32 0))) \<le> cap \<longrightarrow>
      unat t + 35 = length (frames_prefix fs @ b @ encodes (psk_offer identity (replicate 32 0))) \<and> unat o' = unat t + 3))"
proof -
  let ?n = "word_of_nat (length identity) :: word32"
  have n: "unat ?n = length identity" and n16: "unat (ucast ?n :: word16) = length identity"
    using assms(3) length_field [of 0 ?n] by simp_all
  show ?thesis
    unfolding pch_psk_def Let_def
    apply (rule wtr.u16_step [OF assms(1)])
    apply (erule len2_start, simp only: prod.case)+
    apply (erule u16_value, rule n16)
    apply (erule bytes_value, simp add: n, use assms in \<open>simp add: n\<close>, simp add: n)
    apply (erule wtr.u16_step)+
    apply (erule len2_end)
    apply (frule holds_len)
    apply (erule wtr.u16_step)
    apply (erule wtr.u8_step)
    apply (frule holds_len)
    apply (erule zeros_step)
    apply (erule len2_end)
    apply (simp add: psk_offer_def ext_wire_def be_bytes_1 be_bytes_2)
    done
qed

lemma psk_hello_holds:
  fixes P :: "'o wc" and rnd sid pub identity :: bytes and pubLen :: word32 and grp :: word16
  defines "e \<equiv> encodes (psk_hello_wire P (take 32 rnd) (take 32 sid) (take (unat pubLen) pub) grp identity (replicate 32 0))"
  assumes w: "wtr.holds w cap [] []" and cap: "cap + 65536 < 2 ^ 32"
    and "32 \<le> length rnd" and "32 \<le> length sid"
    and pub: "unat pubLen \<le> 1216" "unat pubLen \<le> length pub" and id: "length identity \<le> 65535"
  shows "runs (build_client_hello P w rnd sid pub grp pubLen identity (word_of_nat (length identity)))
    (\<lambda>(w', t, o'). wtr.holds w' cap [] e \<and> (length e \<le> cap \<longrightarrow> unat t + 35 = length e \<and> unat o' + 32 = length e))"
proof -
  have cap': "cap + 1216 < 2 ^ 32"
    using cap by simp
  note ks = pch_key_share_holds [OF _ cap' pub, THEN block_step]
  note pk = pch_psk_holds [OF _ cap id, THEN block_step]
  show ?thesis
    unfolding build_client_hello_def
    apply (rule wtr.u8_step [OF w])
    apply (erule len3_start, simp only: prod.case)
    apply (erule wtr.u16_step)
    apply (erule bytes_value, use assms in simp, use cap' in simp, rule refl)
    apply (erule wtr.u8_step)
    apply (erule bytes_value, use assms in simp, use cap' in simp, rule refl)
    apply (erule wtr.u16_step)+
    apply (erule wtr.u8_step)+
    apply (erule len2_start, simp only: prod.case)
    apply (erule wtr.u16_step)+
    apply (erule wtr.u8_step)+
    apply (erule wtr.u16_step)+
    apply (erule pch_sig_algs_holds [THEN block_step])
    apply (erule ks)
    apply (erule wtr.u16_step)+
    apply (erule wtr.u8_step)+
    apply (erule pk)
    apply (simp only: split_paired_all prod.case)
    apply (elim conjE)
    apply (erule len2_end)
    apply simp
    apply (erule len3_end)
    apply simp
    using assms(4,5)
    apply (simp add: e_def psk_hello_wire_def fixed_exts ext_wire_def be_bytes_1 be_bytes_2 be_bytes_3 min_absorb2)
    done
qed

section \<open>Properties\<close>

lemma be_bytes_2_mod: "be_bytes 2 (n mod 65536) = be_bytes 2 n"
  using be_bytes_of_be_val [of "be_bytes 2 n" 2] by (simp add: be_val_be_bytes)

lemma psk_wire_split:
  assumes "32 \<le> length rnd" and "32 \<le> length sid" and "unat n \<le> 1216"
  shows "\<exists>X Y. psk_hello_wire P (take 32 rnd) (take 32 sid) (take (unat n) pub) grp identity b =
      [WU8 1, WVec 3 (X @ [WVec 2 (Y @ psk_offer identity b)])] \<and> length (encodes X) + length (encodes Y) \<le> 1380"
  apply (rule exI [of _ "[WU16 0x0303, WBytes (take 32 rnd), WVec 1 [WBytes (take 32 sid)], WVec 2 [WU16 0x1301], WVec 1 [WU8 0]]"])
  apply (rule exI [of _ "ext_wire 43 [WVec 1 [WU16 0x0304]] @ ext_wire 10 [WVec 2 [WU16 grp]] @
          ext_wire 13 [WVec 2 (map WU16 (psk_schemes P))] @
          ext_wire 51 [WVec 2 [WU16 grp, WVec 2 [WBytes (take (unat n) pub)]]] @ ext_wire 45 [WVec 1 [WU8 1]]"])
  using assms apply (simp add: psk_hello_wire_def ext_wire_def psk_schemes_def min_def)
  done

lemma psk_build_result:
  fixes P :: "'o wc" and rnd sid pub identity out :: bytes and pubLen cap :: word32 and grp :: word16
  defines "e \<equiv> encodes (psk_hello_wire P (take 32 rnd) (take 32 sid) (take (unat pubLen) pub) grp identity (replicate 32 0))"
  assumes "unat cap \<le> length out" and "unat cap + 65536 < 2 ^ 32"
    and "32 \<le> length rnd" and "32 \<le> length sid"
    and "unat pubLen \<le> 1216" and "unat pubLen \<le> length pub" and "length identity \<le> 65535"
  shows "\<exists>w t b. build_client_hello P (wn_Writer_Init out cap) rnd sid pub grp pubLen identity
      (word_of_nat (length identity)) = Some (w, t, b) \<and> unat cap \<le> length (w_buf w) \<and>
    (w_err w = 0 \<longleftrightarrow> length e \<le> unat cap) \<and>
    (w_err w = 0 \<longrightarrow> unat (w_len w) = length e \<and> take (length e) (w_buf w) = e \<and>
      unat t + 35 = length e \<and> unat b + 32 = length e)"
proof -
  have "wtr.holds (wn_Writer_Init out cap) (unat cap) [] []"
    using assms(2,3) by (intro holds_Writer_Init) simp_all
  from psk_hello_holds [OF this assms(3-8), of P grp]
  obtain w t b where st: "build_client_hello P (wn_Writer_Init out cap) rnd sid pub grp pubLen identity
      (word_of_nat (length identity)) = Some (w, t, b)"
    and h: "wtr.holds w (unat cap) [] e" and o: "length e \<le> unat cap \<longrightarrow> unat t + 35 = length e \<and> unat b + 32 = length e"
    unfolding e_def [symmetric] by (elim runs3E) blast
  from wtr.holds_done [OF h] have ok: "wf_writer w" and cap: "unat (w_cap w) = unat cap"
    and err: "w_err w \<noteq> 0 \<longleftrightarrow> unat cap < length e" and c: "w_err w = 0 \<Longrightarrow> take (unat (w_len w)) (w_buf w) = e"
    by (simp_all add: w_failed_def w_room_def w_content_def)
  have l: "unat (w_len w) \<le> length (w_buf w)" and "unat cap \<le> length (w_buf w)"
    using ok cap by (simp_all add: wf_writer_def word_le_nat_alt)
  moreover have "unat (w_len w) = length e \<and> take (length e) (w_buf w) = e" if "w_err w = 0"
    using arg_cong [OF c [OF that], of length] c [OF that] l by (metis length_take min.absorb2)
  ultimately show ?thesis
    using st err o by (auto simp: not_less)
qed

text \<open>
  C26. The ClientHello of the PSK driver. The encoder never leaves the buffer, and it reports success
  exactly when the message fits it. The two offsets it then reports are those the binder needs:
  \<open>truncOff\<close> is the end of the identities, 35 bytes before the end (RFC 8446, section 4.2.11.2), and
  \<open>binderOff\<close> is where the 32 bytes of the binder go. As long as the extensions are shorter than 65536
  bytes, the message has an encoding under RFC 8446, with one PSK identity and a zero binder at its
  end, and the buffer holds exactly that encoding. For a longer identity the message has no encoding;
  the encoder does not notice and stores the length of the extensions reduced by 65536.
\<close>

theorem psk_hello_exact:
  fixes P :: "'o wc" and rnd sid pub identity out :: bytes and pubLen cap :: word32 and grp :: word16
  defines "m \<equiv> rfc_encodes (psk_hello_wire P (take 32 rnd) (take 32 sid) (take (unat pubLen) pub) grp identity (replicate 32 0))"
    and "exts \<equiv> 84 + 2 * length (psk_schemes P) + unat pubLen + length identity"
  assumes "unat cap \<le> length out" and "unat cap + 65536 < 2 ^ 32"
    and "32 \<le> length rnd" and "32 \<le> length sid"
    and "unat pubLen \<le> 1216" and "unat pubLen \<le> length pub" and "length identity \<le> 65535"
  shows "\<exists>w t b. build_client_hello P (wn_Writer_Init out cap) rnd sid pub grp pubLen identity
      (word_of_nat (length identity)) = Some (w, t, b) \<and>
    (w_err w = 0 \<longleftrightarrow> 79 + exts \<le> unat cap) \<and>
    (w_err w = 0 \<longrightarrow> unat (w_len w) = 79 + exts \<and> unat t + 35 = unat (w_len w) \<and> unat b + 32 = unat (w_len w) \<and>
      (case m of
         Some e \<Rightarrow> exts < 65536 \<and> length e = 79 + exts \<and> take (79 + exts) (w_buf w) = e
       | None \<Rightarrow> 65536 \<le> exts \<and> be_val (take 2 (drop 77 (w_buf w))) = exts - 65536))"
proof -
  let ?m = "psk_hello_wire P (take 32 rnd) (take 32 sid) (take (unat pubLen) pub) grp identity (replicate 32 0)"
  have x: "psk_ext_size P (take (unat pubLen) pub) identity = exts"
    using assms(8) by (simp add: psk_ext_size_def exts_def min_absorb2)
  have l: "length (take 32 rnd) = 32" "length (take 32 sid) = 32" "length (replicate 32 (0 :: byte)) = 32"
      "length (take (unat pubLen) pub) \<le> 1216"
    using assms(5-8) by simp_all
  note L = psk_wire_layout [OF l, where P = P and grp = grp and identity = identity, unfolded x]
  obtain w t b where w: "build_client_hello P (wn_Writer_Init out cap) rnd sid pub grp pubLen identity
      (word_of_nat (length identity)) = Some (w, t, b)" "w_err w = 0 \<longleftrightarrow> 79 + exts \<le> unat cap"
    and r: "w_err w = 0 \<longrightarrow> unat (w_len w) = 79 + exts \<and> take (79 + exts) (w_buf w) = encodes ?m \<and>
      unat t + 35 = 79 + exts \<and> unat b + 32 = 79 + exts"
    using psk_build_result [OF assms(3-9), of P grp, unfolded L(1)] by blast
  have "exts < 131072"
    using assms(7,9) psk_schemes_few [of P] by (simp add: exts_def)
  then have big: "be_val (be_bytes 2 exts) = exts - 65536" if "\<not> exts < 65536"
    using that by (simp add: be_val_be_bytes mod_if)
  have "be_val (take 2 (drop 77 (w_buf w))) = exts - 65536" if "w_err w = 0" "\<not> exts < 65536"
  proof -
    have "take 2 (drop 77 (w_buf w)) = take 2 (drop 77 (take (79 + exts) (w_buf w)))"
      by (simp add: drop_take numeral_2_eq_2)
    also have "\<dots> = be_bytes 2 exts"
      using r that(1) L(2) by simp
    finally show ?thesis
      using big that(2) by simp
  qed
  moreover have "m = (if exts < 65536 then Some (encodes ?m) else None)"
    using L(3) [OF assms(9)] by (simp add: m_def)
  ultimately have "w_err w = 0 \<longrightarrow> unat (w_len w) = 79 + exts \<and> unat t + 35 = unat (w_len w) \<and> unat b + 32 = unat (w_len w) \<and>
      (case m of
         Some e \<Rightarrow> exts < 65536 \<and> length e = 79 + exts \<and> take (79 + exts) (w_buf w) = e
       | None \<Rightarrow> 65536 \<le> exts \<and> be_val (take 2 (drop 77 (w_buf w))) = exts - 65536)"
    using r L(1) by simp
  with w show ?thesis
    by blast
qed

theorem psk_hello_exact_witness:
  "\<exists>w t b e. build_client_hello demo_wc (wn_Writer_Init (replicate 300 0) 300) (replicate 32 7) (replicate 32 9)
      (replicate 32 5) 29 32 [97, 98] 2 = Some (w, t, b) \<and> w_err w = 0 \<and> unat b = unat t + 3 \<and>
    rfc_encodes (psk_hello_wire demo_wc (replicate 32 7) (replicate 32 9) (replicate 32 5) 29 [97, 98] (replicate 32 0)) = Some e \<and>
    take (length e) (w_buf w) = e"
proof -
  have "length (psk_schemes demo_wc) \<le> 3"
    by (rule psk_schemes_few)
  then show ?thesis
    using psk_hello_exact [of 300 "replicate 300 0" "replicate 32 7" "replicate 32 9" 32 "replicate 32 5" "[97, 98]"
        demo_wc 29]
    by (auto split: option.splits)
qed

text \<open>
  C39. The driver accepts every identity of at most 65535 bytes, but the vector of identities adds
  6 bytes to it. For the six longest identities its 16-bit length field wraps around, and the
  encoder reports no error: it says 0 to 5 bytes where 65536 to 65541 follow.
\<close>

theorem psk_identity_wraps:
  fixes P :: "'o wc" and rnd sid pub identity out :: bytes and pubLen cap :: word32
  assumes "unat cap \<le> length out" and "unat cap + 65536 < 2 ^ 32" and "70000 \<le> unat cap"
    and "32 \<le> length rnd" and "32 \<le> length sid"
    and "unat pubLen \<le> 1216" and "unat pubLen \<le> length pub"
    and "65530 \<le> length identity" and "length identity \<le> 65535"
  shows "\<exists>w t b. build_client_hello P (wn_Writer_Init out cap) rnd sid pub grp pubLen identity
      (word_of_nat (length identity)) = Some (w, t, b) \<and> w_err w = 0 \<and>
    take 2 (drop (unat t - (length identity + 8)) (w_buf w)) = be_bytes 2 (length identity - 65530)"
proof -
  let ?m = "psk_hello_wire P (take 32 rnd) (take 32 sid) (take (unat pubLen) pub) grp identity (replicate 32 0)"
  let ?Z = "be_bytes 2 (6 + length identity) @ be_bytes 2 (length identity) @ identity @
      [0, 0, 0, 0] @ be_bytes 2 33 @ [32] @ replicate 32 0"
  obtain X Y where m: "?m = [WU8 1, WVec 3 (X @ [WVec 2 (Y @ psk_offer identity (replicate 32 0))])]"
    and XY: "length (encodes X) + length (encodes Y) \<le> 1380"
    using psk_wire_split [OF assms(4-6)] by blast
  let ?o = "psk_offer identity (replicate 32 0)"
  have o: "encodes ?o = be_bytes 2 41 @ be_bytes 2 (43 + length identity) @ ?Z"
    by (simp add: psk_offer_def ext_wire_def be_bytes_1 be_bytes_2)
  have e: "encodes ?m = ([1] @ be_bytes 3 (length (encodes (X @ [WVec 2 (Y @ ?o)]))) @ encodes X @
      be_bytes 2 (length (encodes (Y @ ?o))) @ encodes Y @ be_bytes 2 41 @ be_bytes 2 (43 + length identity)) @ ?Z"
    unfolding m by (simp add: o)
  then obtain A where A: "encodes ?m = A @ ?Z" and lA: "length A \<le> 1394"
  proof
    show "length ([1] @ be_bytes 3 (length (encodes (X @ [WVec 2 (Y @ ?o)]))) @ encodes X @
      be_bytes 2 (length (encodes (Y @ ?o))) @ encodes Y @ be_bytes 2 41 @ be_bytes 2 (43 + length identity)) \<le> 1394"
      using XY by simp
  qed
  obtain w t b where w: "build_client_hello P (wn_Writer_Init out cap) rnd sid pub grp pubLen identity
      (word_of_nat (length identity)) = Some (w, t, b)" "w_err w = 0"
    and c: "take (length (encodes ?m)) (w_buf w) = encodes ?m" and t: "unat t + 35 = length (encodes ?m)"
    using psk_build_result [OF assms(1,2,4-7,9), of P grp] lA assms(3,9) by (auto simp: A)
  have tt: "unat t - (length identity + 8) = length A"
    using t by (simp add: A)
  have "take 2 (drop (length A) (w_buf w)) = take 2 (drop (length A) (take (length (encodes ?m)) (w_buf w)))"
    by (simp add: A drop_take)
  also have "\<dots> = be_bytes 2 (6 + length identity)"
    unfolding c by (simp add: A)
  also have "be_bytes 2 (6 + length identity) = be_bytes 2 (length identity - 65530)"
  proof -
    have "(6 + length identity) mod 65536 = length identity - 65530"
      using assms(8,9) by (simp add: mod_if)
    then show ?thesis
      by (metis be_bytes_2_mod)
  qed
  finally show ?thesis
    using w tt by auto
qed

theorem psk_identity_wraps_witness:
  "\<exists>w t b. build_client_hello demo_wc (wn_Writer_Init (replicate 70000 0) 70000) (replicate 32 7) (replicate 32 9)
      (replicate 32 5) 29 32 (replicate 65530 97) 65530 = Some (w, t, b) \<and> w_err w = 0 \<and>
    take 2 (drop (unat t - 65538) (w_buf w)) = [0, 0]"
  using psk_identity_wraps [of 70000 "replicate 70000 0" "replicate 32 7" "replicate 32 9" 32 "replicate 32 5"
      "replicate 65530 97" demo_wc 29]
  by (simp add: be_bytes_2)

end
