(* ===== verification/Wn_HandshakeSpec.thy ===== *)
theory Wn_HandshakeSpec
  imports Wn_Handshake
begin

text \<open>
  What the phases of \<open>Wn_Handshake\<close> do, for the proofs about the two drivers: a calculus of
  phases that may fail, the invariant of the local variables, and the effect of every shared phase
  on the transcript and the keys.
\<close>

section \<open>Phases that may fail\<close>

text \<open>
  \<open>ends I B m\<close>: the phase returns, with 0 or a negative code; \<open>I\<close> holds in any case, \<open>B\<close> on
  success.
\<close>

definition ends :: "('s \<Rightarrow> bool) \<Rightarrow> ('s \<Rightarrow> bool) \<Rightarrow> (int \<times> 's) option \<Rightarrow> bool" where
  "ends I B m \<longleftrightarrow> runs m (\<lambda>(ret, s). ret \<le> 0 \<and> I s \<and> (ret = 0 \<longrightarrow> B s))"

lemma ends_Some: "ends I B (Some (ret, s)) \<longleftrightarrow> ret \<le> 0 \<and> I s \<and> (ret = 0 \<longrightarrow> B s)"
  by (simp add: ends_def)

lemma ends_ok:
  assumes "ends I B m" and "\<And>s. I s \<Longrightarrow> B s \<Longrightarrow> ends I C (f s)"
  shows "ends I C (m \<bind> ok f)"
  using assms unfolding ends_def ok_def by (fastforce elim!: runs2E simp: runs_def)

lemma ends_ok_Some: "ok f (0, s) = f s"
  by (simp add: ok_def)

lemma ends_mono:
  "ends I B m \<Longrightarrow> (\<And>s. I s \<Longrightarrow> J s) \<Longrightarrow> (\<And>s. I s \<Longrightarrow> B s \<Longrightarrow> C s) \<Longrightarrow> ends J C m"
  unfolding ends_def by (erule runs_mono) auto

lemma ends_fail_if: "I s \<Longrightarrow> err < 0 \<Longrightarrow> (\<not> c \<Longrightarrow> B s) \<Longrightarrow> ends I B (fail_if c err s)"
  by (simp add: fail_if_def ends_Some)

lemma ends_eq: "m = Some (0, s) \<Longrightarrow> I s \<Longrightarrow> B s \<Longrightarrow> ends I B m"
  by (simp add: ends_Some)

lemma endsE:
  assumes "ends I B m"
  obtains ret s where "m = Some (ret, s)" and "ret \<le> 0" and "I s" and "ret = 0 \<Longrightarrow> B s"
  using assms unfolding ends_def by (elim runs2E) blast

lemma ok_eq: "m = Some (0, s) \<Longrightarrow> m \<bind> ok f = f s"
  by (simp add: ok_def)

lemma ok_assoc: "m \<bind> ok f \<bind> ok g = m \<bind> ok (\<lambda>s. f s \<bind> ok g)"
  by (cases m) (auto simp: ok_def)

section \<open>The parameters of a handshake\<close>

definition hs_crypto ::
    "'o wc \<Rightarrow> (hash_id \<Rightarrow> bytes \<Rightarrow> bytes) \<Rightarrow> (hash_id \<Rightarrow> 'o \<Rightarrow> bytes \<Rightarrow> bool) \<Rightarrow> hkdf_extract \<Rightarrow> hkdf_expand \<Rightarrow>
     (hash_id \<Rightarrow> bytes \<Rightarrow> bytes \<Rightarrow> bytes) \<Rightarrow> bool" where
  "hs_crypto P H ab ext exp mac \<longleftrightarrow>
     sha_ok P H ab \<and> (\<forall>m. wc_Sha256Hash P m = (0, H WC_SHA256 m)) \<and> kdf_usable P ext exp WC_SHA256 \<and>
     hmac_ok P mac \<and> gcm_sizes P \<and> kex_sizes P \<and> compare_ok P"

lemma hs_cryptoD:
  assumes "hs_crypto P H ab ext exp mac"
  shows "sha_ok P H ab" and "wc_Sha256Hash P m = (0, H WC_SHA256 m)" and "kdf_usable P ext exp WC_SHA256"
    and "hmac_ok P mac" and "gcm_sizes P" and "kex_sizes P" and "compare_ok P" and "length (H WC_SHA256 m) = 32"
  using assms by (simp_all add: hs_crypto_def sha_ok_def)

text \<open>The verify data of a Finished message under a traffic secret (RFC 8446, section 4.4.4).\<close>

definition verify_data ::
    "hkdf_expand \<Rightarrow> (hash_id \<Rightarrow> bytes \<Rightarrow> bytes \<Rightarrow> bytes) \<Rightarrow> bytes \<Rightarrow> bytes \<Rightarrow> bytes" where
  "verify_data exp mac secret th = mac WC_SHA256 (HKDF_Expand_Label exp WC_SHA256 secret ''finished'' [] 32) th"

lemma FinishedMac_32:
  assumes "hs_crypto P H ab ext exp mac" and "length secret = 32" and "length th = 32" and "length out = 32"
  shows "wn_Tls13_FinishedMac P (Some out) (Some secret) (Some th) 32 WC_SHA256 = Some (0, verify_data exp mac secret th)"
  using FinishedMac_spec [OF hs_cryptoD(3,4) [OF assms(1)], of secret th out] assms(2-4)
  by (simp add: digest_size_def wn_DigestSize_def verify_data_def)

lemma verify_data_length:
  assumes "hs_crypto P H ab ext exp mac"
  shows "length (verify_data exp mac secret th) = 32"
proof -
  have h: "hmac_run P WC_SHA256 k m = (0, mac WC_SHA256 k m)" for k m
    using hs_cryptoD(4) [OF assms] by (simp add: hmac_ok_def)
  have "\<forall>d k m. length (snd (hmac_run P d k m)) = digest_size d"
    using hs_cryptoD(4) [OF assms] unfolding hmac_ok_def hmac_sizes_def by blast
  then have "length (snd (hmac_run P WC_SHA256 k m)) = 32" for k m
    unfolding digest_size_def by simp
  then show ?thesis
    unfolding h verify_data_def by simp
qed

section \<open>The invariant of the local variables\<close>

text \<open>
  The private keys of the key share. \<open>unmade\<close>: no key was made in the context: it is all zero, or
  as a failed initialisation left it. \<open>ks_tracked\<close>: where \<open>wn_KeyShare_Free\<close> would free nothing, no
  key was made; it frees by the group and, for the hybrid, by the flags \<open>kemInit\<close> and \<open>xInit\<close>.
  \<open>ks_freed\<close>: every context that may have held a key is the result of the library's free function,
  and the hybrid's flags are clear.
\<close>

definition unmade :: "'o wc \<Rightarrow> int \<times> 'o \<Rightarrow> 'o \<Rightarrow> bool" where
  "unmade P i k \<longleftrightarrow> k = zero_ctx P \<or> fst i \<noteq> 0 \<and> k = snd i"

definition hybrid_tracked :: "'o wc \<Rightarrow> 'o wn_Hybrid \<Rightarrow> bool" where
  "hybrid_tracked P h \<longleftrightarrow> (kemInit h = 0 \<longrightarrow> unmade P (wc_MlKemKey_Init P) (h_kem h)) \<and>
     (xInit h = 0 \<longrightarrow> unmade P (wc_curve25519_init P) (h_x h))"

definition ks_tracked :: "'o wc \<Rightarrow> 'o wn_KeyShare \<Rightarrow> bool" where
  "ks_tracked P ks \<longleftrightarrow>
     (if WOLFNANO_HAVE_MLKEM_HYBRID P then
        hybrid_tracked P (ks_hybrid ks) \<and>
        (ks_group ks = WN_DEFAULT_GROUP P \<or> kemInit (ks_hybrid ks) = 0 \<and> xInit (ks_hybrid ks) = 0)
      else ks_group ks = WN_DEFAULT_GROUP P \<or>
        (if WOLFNANO_HAVE_ECDHE_P256 P then ks_ecc ks else ks_x25519 ks) = zero_ctx P)"

definition ks_freed :: "'o wc \<Rightarrow> 'o wn_KeyShare \<Rightarrow> bool" where
  "ks_freed P ks \<longleftrightarrow>
     (if WOLFNANO_HAVE_MLKEM_HYBRID P then
        kemInit (ks_hybrid ks) = 0 \<and> xInit (ks_hybrid ks) = 0 \<and>
        (unmade P (wc_MlKemKey_Init P) (h_kem (ks_hybrid ks)) \<or> h_kem (ks_hybrid ks) \<in> range (wc_MlKemKey_Free P)) \<and>
        (unmade P (wc_curve25519_init P) (h_x (ks_hybrid ks)) \<or> h_x (ks_hybrid ks) \<in> range (wc_curve25519_free P))
      else if WOLFNANO_HAVE_ECDHE_P256 P then ks_ecc ks = zero_ctx P \<or> ks_ecc ks \<in> range (wc_ecc_free P)
      else ks_x25519 ks = zero_ctx P \<or> ks_x25519 ks \<in> range (wc_curve25519_free P))"

lemma ks_tracked_init:
  "ks_tracked P \<lparr>ks_hybrid = \<lparr>h_kem = zero_ctx P, h_x = zero_ctx P, kemInit = 0, xInit = 0\<rparr>, ks_ecc = zero_ctx P,
     ks_x25519 = zero_ctx P, ks_group = g\<rparr>"
  by (simp add: ks_tracked_def hybrid_tracked_def unmade_def)

lemma KeyShare_Free_frees:
  assumes "ks_tracked P ks"
  shows "\<exists>ks'. snd (wn_KeyShare_Free P (Some ks)) = Some ks' \<and> ks_freed P ks'"
  using assms
  by (auto simp: wn_KeyShare_Free_def wn_Hybrid_Free_def ks_tracked_def ks_freed_def hybrid_tracked_def WN_DEFAULT_GROUP_def
      Let_def)

definition hs_ok :: "'o wc \<Rightarrow> nat \<Rightarrow> ('o, 'io, 'z) hs_locals_scheme \<Rightarrow> bool" where
  "hs_ok P n s \<longleftrightarrow> n \<le> length (l_scratch s) \<and> l_sess s = zero_session \<and> length (l_random32 s) = 32 \<and>
     length (l_sid s) = 32 \<and> length (l_cliPub s) = unat (WN_DEFAULT_PUB_SZ P) \<and>
     length (l_ecdhe s) = unat (WN_DEFAULT_SECRET_SZ P) \<and> length (l_emptyHash s) = 32 \<and> length (l_th s) = 32 \<and>
     length (l_early s) = 32 \<and> length (l_hs s) = 32 \<and> length (l_cHs s) = 32 \<and> length (l_sHs s) = 32 \<and>
     length (l_cKey s) = 16 \<and> length (l_cIv s) = 12 \<and> length (l_sKey s) = 16 \<and> length (l_sIv s) = 12 \<and>
     length (l_mac s) = 32 \<and> length (l_fin s) = 36 \<and> ks_tracked P (l_ks s)"

text \<open>
  A shared phase also leaves the fields alone that a driver adds to the record, the number of
  bytes of the flight collected and the sequence number of the next record.
\<close>

definition hs_keeps :: "'o wc \<Rightarrow> nat \<Rightarrow> ('o, 'io, 'z) hs_locals_scheme \<Rightarrow> ('o, 'io, 'z) hs_locals_scheme \<Rightarrow> bool" where
  "hs_keeps P n s s' \<longleftrightarrow> hs_ok P n s' \<and> hs_locals.more s' = hs_locals.more s \<and> l_accLen s' = l_accLen s \<and>
     l_sSeq s' = l_sSeq s"

text \<open>The messages in the transcript.\<close>

definition said ::
    "'o wc \<Rightarrow> (hash_id \<Rightarrow> bytes \<Rightarrow> bytes) \<Rightarrow> (hash_id \<Rightarrow> 'o \<Rightarrow> bytes \<Rightarrow> bool) \<Rightarrow> ('o, 'io, 'z) hs_locals_scheme \<Rightarrow> bytes \<Rightarrow> bool" where
  "said P H ab s m \<longleftrightarrow> tr_holds P H ab WC_SHA256 (Some (l_tc s)) m"

lemma update_said:
  assumes "said P H ab s m" and "unat n \<le> length x"
  shows "\<exists>tc. hs_update P x n s = Some (0, s\<lparr>l_tc := tc\<rparr>) \<and> said P H ab (s\<lparr>l_tc := tc\<rparr>) (m @ take (unat n) x)"
proof -
  obtain t' where u: "wn_Transcript_Update P (Some (l_tc s)) (Some x) n = Some (0, t')"
    and h: "tr_holds P H ab WC_SHA256 t' (m @ take (unat n) x)"
    using tr.update_holds [of P H ab WC_SHA256 "Some (l_tc s)" m n x] assms by (auto simp: said_def)
  then obtain tc where "t' = Some tc"
    by (auto elim: tr_holdsE)
  with u h show ?thesis
    by (auto simp: hs_update_def said_def)
qed

lemma get_hash_said:
  assumes "said P H ab s m" and "length (l_th s) = 32"
  shows "\<exists>tc. hs_get_hash P s = Some (0, s\<lparr>l_tc := tc, l_th := H WC_SHA256 m\<rparr>) \<and>
    said P H ab (s\<lparr>l_tc := tc, l_th := H WC_SHA256 m\<rparr>) m"
proof -
  obtain t' where u: "wn_Transcript_GetHash P (Some (l_tc s)) (Some (l_th s)) (Some 0) = Some (0, t', H WC_SHA256 m, Some 32)"
    and h: "tr_holds P H ab WC_SHA256 t' m"
    using tr_interim [of P H ab WC_SHA256 "Some (l_tc s)" m "l_th s" 0] assms
    by (auto simp: said_def digest_size_def)
  then obtain tc where "t' = Some tc"
    by (auto elim: tr_holdsE)
  with u h show ?thesis
    by (auto simp: hs_get_hash_def said_def)
qed

lemma finished_mac_eq:
  assumes "hs_crypto P H ab ext exp mac" and "hs_ok P n s" and "length secret = 32"
  shows "hs_finished_mac P secret s = Some (0, s\<lparr>l_mac := verify_data exp mac secret (l_th s)\<rparr>)"
  using FinishedMac_32 [OF assms(1,3)] assms(2) by (simp add: hs_finished_mac_def hs_ok_def)

section \<open>Key shares\<close>

text \<open>
  The secret a client key share has in common with the server share \<open>k\<close>: ML-KEM and X25519 for the
  hybrid, the Diffie-Hellman secret of the one curve otherwise.
\<close>

definition x25519_secret :: "'o wc \<Rightarrow> 'o \<Rightarrow> bytes \<Rightarrow> bytes" where
  "x25519_secret P x k = fst (snd (wc_curve25519_shared_secret_ex P x
     (snd (wc_curve25519_import_public_ex P k (snd (wc_curve25519_init P)))) 32))"

definition share_secret :: "'o wc \<Rightarrow> 'o wn_KeyShare \<Rightarrow> bytes \<Rightarrow> bytes" where
  "share_secret P ks k =
     (if WOLFNANO_HAVE_MLKEM_HYBRID P then
        snd (wc_MlKemKey_Decapsulate P (h_kem (ks_hybrid ks)) (take 1088 k)) @
        x25519_secret P (h_x (ks_hybrid ks)) (drop 1088 k)
      else if WOLFNANO_HAVE_ECDHE_P256 P then
        fst (snd (wc_ecc_shared_secret P (ks_ecc ks) (snd (wc_ecc_import_x963_ex P k (snd (wc_ecc_init P)))) 32))
      else x25519_secret P (ks_x25519 ks) k)"

text \<open>\<open>pub\<close> is the share of a key pair \<open>ks\<close> that was generated for the default group.\<close>

definition own_share :: "'o wc \<Rightarrow> 'o wn_KeyShare \<Rightarrow> bytes \<Rightarrow> bool" where
  "own_share P ks pub \<longleftrightarrow> ks_group ks = WN_DEFAULT_GROUP P \<and> length pub = unat (WN_DEFAULT_PUB_SZ P) \<and>
     (\<exists>ks0 g pub0 n g' n'. wn_KeyShare_Generate P (Some ks0) (Some g) (Some pub0) (Some n) = Some (0, Some ks, g', pub, n'))"

lemma own_shareI:
  assumes "wn_KeyShare_Generate P (Some ks0) (Some g) (Some pub0) (Some n) = Some (0, Some ks, g', pub, n')"
    and "ks_group ks = WN_DEFAULT_GROUP P" and "length pub = unat (WN_DEFAULT_PUB_SZ P)"
  shows "own_share P ks pub"
  unfolding own_share_def using assms by blast

lemma hybrid_client_secret_value:
  assumes "kex_sizes P" and "1120 \<le> length srv" and "length ss = 64"
  shows "runs (hybrid_client_secret P h srv ss) (\<lambda>(ret, ss'). ret = 0 \<longrightarrow>
    ss' = snd (wc_MlKemKey_Decapsulate P (h_kem h) (take 1088 srv)) @ x25519_secret P (h_x h) (take 32 (drop 1088 srv)))"
  unfolding hybrid_client_secret_def x25519_secret_def
  using assms(2,3) kex_sizesD [OF assms(1)]
  by (auto simp: runs_bind runs_mem split: prod.splits)

lemma KeyShare_Shared_spec:
  assumes "kex_sizes P" and "ks_group ks = WN_DEFAULT_GROUP P" and "unat (WN_DEFAULT_SRV_SHARE_SZ P) \<le> length peer"
    and "length out = unat (WN_DEFAULT_SECRET_SZ P)" and k: "k = take (unat (WN_DEFAULT_SRV_SHARE_SZ P)) peer"
  shows "runs (wn_KeyShare_Shared P (Some ks) (Some peer) (WN_DEFAULT_SRV_SHARE_SZ P) (Some out) (Some ol))
    (\<lambda>(ret, ss, sl). ret \<le> 0 \<and> length ss = length out \<and> sl \<noteq> None \<and>
      (ret = 0 \<longrightarrow> ss = share_secret P ks k \<and> sl = Some (WN_DEFAULT_SECRET_SZ P)))"
proof -
  note d = WN_DEFAULT_GROUP_def WN_DEFAULT_SRV_SHARE_SZ_def WN_DEFAULT_SECRET_SZ_def share_secret_def
  consider "WOLFNANO_HAVE_MLKEM_HYBRID P"
    | "\<not> WOLFNANO_HAVE_MLKEM_HYBRID P" "WOLFNANO_HAVE_ECDHE_P256 P"
    | "\<not> WOLFNANO_HAVE_MLKEM_HYBRID P" "\<not> WOLFNANO_HAVE_ECDHE_P256 P" by blast
  then show ?thesis
  proof cases
    case 1
    have l: "1120 \<le> length peer" "length out = 64"
      using assms(3,4) 1 by (simp_all add: d)
    have "runs (hybrid_client_secret P (ks_hybrid ks) peer out) (\<lambda>(ret, ss). length ss = 64 \<and> ret \<in> {0, WOLFNANO_E_CRYPTO} \<and>
        (ret = 0 \<longrightarrow> ss = share_secret P ks k))"
      using runs_conj [OF hybrid_client_secret_runs [OF assms(1) l(1)] hybrid_client_secret_value [OF assms(1) l(1,2)], of "ks_hybrid ks"]
        l 1 by (auto elim!: runs_mono simp: d k drop_take)
    then show ?thesis
      using 1 assms(2) l
      by (auto elim!: runs2E simp: wn_KeyShare_Shared_def wn_Hybrid_ClientShared_def d force_zero_def mem_write_in)
  next
    case 2
    then show ?thesis
      using assms(2-4) kex_sizesD(5) [OF assms(1)]
      by (auto simp: wn_KeyShare_Shared_def shared_p256_def d k runs_bind runs_mem split: prod.splits)
  next
    case 3
    then show ?thesis
      using assms(2-4) kex_sizesD(3) [OF assms(1)]
      by (auto simp: wn_KeyShare_Shared_def shared_x25519_def d k x25519_secret_def runs_bind runs_mem split: prod.splits)
  qed
qed

lemma KeyShare_Init_spec:
  "\<exists>ret ks'. wn_KeyShare_Init P (Some ks) (WN_DEFAULT_GROUP P) = (ret, Some ks') \<and> ret \<le> 0 \<and>
    ks_group ks' = WN_DEFAULT_GROUP P \<and> ks_tracked P ks'"
  by (cases "wc_ecc_init P"; cases "wc_curve25519_init P")
    (simp add: wn_KeyShare_Init_def ks_tracked_def hybrid_tracked_def unmade_def WN_DEFAULT_GROUP_def Let_def)

lemma Hybrid_ClientKeyShare_runs:
  assumes "kex_sizes P" and "length out = 1216" and "hybrid_tracked P h"
  shows "runs (wn_Hybrid_ClientKeyShare P (Some h) (Some g) (Some out) (Some ol)) (\<lambda>(ret, h', g', out', ol').
    ret \<le> 0 \<and> (\<exists>x. h' = Some x \<and> hybrid_tracked P x) \<and> g' \<noteq> None \<and> length out' = 1216 \<and> ol' \<noteq> None \<and> (ret = 0 \<longrightarrow> ol' = Some 1216))"
  unfolding wn_Hybrid_ClientKeyShare_def
  using assms(2,3) kex_sizesD [OF assms(1)]
  by (auto simp: runs_bind runs_mem hybrid_tracked_def unmade_def Let_def split: prod.splits)

lemma KeyShare_Generate_spec:
  assumes "kex_sizes P" and "ks_group ks = WN_DEFAULT_GROUP P" and "length pub = unat (WN_DEFAULT_PUB_SZ P)"
    and "ks_tracked P ks"
  shows "runs (wn_KeyShare_Generate P (Some ks) (Some g) (Some pub) (Some pl)) (\<lambda>(ret, ks', g', pub', pl').
    ret \<le> 0 \<and> (\<exists>k. ks' = Some k \<and> ks_group k = WN_DEFAULT_GROUP P \<and> ks_tracked P k) \<and> g' \<noteq> None \<and> length pub' = length pub \<and>
    pl' \<noteq> None \<and> (ret = 0 \<longrightarrow> pl' = Some (WN_DEFAULT_PUB_SZ P)))"
proof -
  note d = WN_DEFAULT_GROUP_def WN_DEFAULT_PUB_SZ_def
  consider "WOLFNANO_HAVE_MLKEM_HYBRID P"
    | "\<not> WOLFNANO_HAVE_MLKEM_HYBRID P" "WOLFNANO_HAVE_ECDHE_P256 P"
    | "\<not> WOLFNANO_HAVE_MLKEM_HYBRID P" "\<not> WOLFNANO_HAVE_ECDHE_P256 P" by blast
  then show ?thesis
  proof cases
    case 1
    then have l: "length pub = 1216" and t: "hybrid_tracked P (ks_hybrid ks)"
      using assms(3,4) by (simp_all add: d ks_tracked_def)
    obtain ret h g' out ol where "wn_Hybrid_ClientKeyShare P (Some (ks_hybrid ks)) (Some g) (Some pub) (Some pl) =
        Some (ret, h, g', out, ol)" and "ret \<le> 0" "\<exists>x. h = Some x \<and> hybrid_tracked P x" "g' \<noteq> None" "length out = 1216" "ol \<noteq> None"
        "ret = 0 \<longrightarrow> ol = Some 1216"
      by (rule runs5E [OF Hybrid_ClientKeyShare_runs [OF assms(1) l t, of g pl]]) blast
    then show ?thesis
      using 1 assms(2) l by (auto simp: wn_KeyShare_Generate_def ks_tracked_def d Let_def)
  next
    case 2
    then show ?thesis
      using assms(2,3) kex_sizesD(4) [OF assms(1)]
      by (auto simp: wn_KeyShare_Generate_def generate_p256_def ks_tracked_def d runs_bind runs_mem Let_def split: prod.splits)
  next
    case 3
    then show ?thesis
      using assms(2,3) kex_sizesD(2) [OF assms(1)]
      by (auto simp: wn_KeyShare_Generate_def generate_x25519_def ks_tracked_def d runs_bind runs_mem Let_def split: prod.splits)
  qed
qed

text \<open>The phase: afterwards the share is in \<open>l_cliPub\<close> and the transcript is empty.\<close>

lemma key_share_ends:
  assumes c: "hs_crypto P H ab ext exp mac" and "hs_ok P n s"
  shows "ends (hs_keeps P n s) (\<lambda>s'. l_pubLen s' = WN_DEFAULT_PUB_SZ P \<and> own_share P (l_ks s') (l_cliPub s') \<and>
      said P H ab s' [] \<and> l_emptyHash s' = l_emptyHash s \<and> l_sid s' = l_sid s \<and> l_random32 s' = l_random32 s \<and>
      l_gotEE s' = l_gotEE s \<and> l_done s' = l_done s \<and> l_accLen s' = l_accLen s \<and> l_io s' = l_io s)
    (hs_key_share P s)"
proof -
  let ?B = "\<lambda>s'. ks_group (l_ks s') = WN_DEFAULT_GROUP P \<and> l_emptyHash s' = l_emptyHash s \<and> l_sid s' = l_sid s \<and>
    l_random32 s' = l_random32 s \<and> l_gotEE s' = l_gotEE s \<and> l_done s' = l_done s \<and> l_accLen s' = l_accLen s \<and>
    l_io s' = l_io s"
  obtain ret ks where i: "wn_KeyShare_Init P (Some (l_ks s)) (WN_DEFAULT_GROUP P) = (ret, Some ks)" "ret \<le> 0"
      "ks_group ks = WN_DEFAULT_GROUP P" "ks_tracked P ks"
    using KeyShare_Init_spec by blast
  show ?thesis
    unfolding hs_key_share_def
  proof (rule ends_ok [where B = "\<lambda>s'. ?B s' \<and> l_pubLen s' = WN_DEFAULT_PUB_SZ P \<and> own_share P (l_ks s') (l_cliPub s')"], rule ends_ok [where B = ?B], goal_cases)
    case 1
    show ?case using i assms(2) by (simp add: ends_Some hs_keeps_def hs_ok_def)
  next
    case (2 s')
    have k: "ks_group (l_ks s') = WN_DEFAULT_GROUP P" "length (l_cliPub s') = unat (WN_DEFAULT_PUB_SZ P)"
        "ks_tracked P (l_ks s')"
      using 2 by (simp_all add: hs_keeps_def hs_ok_def)
    obtain ret ks g pub pl where "wn_KeyShare_Generate P (Some (l_ks s')) (Some (l_rng s')) (Some (l_cliPub s'))
        (Some (l_pubLen s')) = Some (ret, ks, g, pub, pl)" and "ret \<le> 0" "\<exists>k. ks = Some k \<and> ks_group k = WN_DEFAULT_GROUP P \<and> ks_tracked P k"
        "g \<noteq> None" "length pub = length (l_cliPub s')" "pl \<noteq> None" "ret = 0 \<longrightarrow> pl = Some (WN_DEFAULT_PUB_SZ P)"
      by (rule runs5E [OF KeyShare_Generate_spec [OF hs_cryptoD(6) [OF c] k, of "l_rng s'" "l_pubLen s'"]]) blast
    moreover from this have "own_share P x pub" if "ks = Some x" "ret = 0" for x
      using that k(2) by (auto intro: own_shareI)
    ultimately show ?case
      using 2 by (auto simp: hs_keeps_def hs_ok_def ends_Some)
  next
    case (3 s')
    have "supported P WC_SHA256" by (simp add: supported_def)
    from tr_init [OF hs_cryptoD(1) [OF c] this, of "l_tc s'"] obtain t
      where t: "wn_Transcript_Init P (Some (l_tc s')) WC_SHA256 = (0, t)" "tr_holds P H ab WC_SHA256 t []" by blast
    then obtain tc where "t = Some tc" by (auto elim: tr_holdsE)
    with t 3 show ?case
      by (simp add: ends_Some hs_keeps_def hs_ok_def said_def)
  qed
qed

section \<open>Hello messages\<close>

lemma send_plain_record_runs:
  assumes "unat n \<le> length body"
  shows "\<exists>ret io'. send_plain_record send io ty body n = Some (ret, io') \<and> ret \<le> 0"
  using assms by (simp add: send_plain_record_def Let_def mem_read_in split: prod.splits)

lemma send_hello_ends:
  assumes "said P H ab s m" and "hs_ok P n s" and "unat (l_chLen s) \<le> n"
  shows "ends (hs_keeps P n s) (\<lambda>s'. \<exists>tc io. s' = s\<lparr>l_tc := tc, l_io := io\<rparr> \<and>
      said P H ab s' (m @ take (unat (l_chLen s)) (l_scratch s))) (hs_send_hello P send s)"
proof -
  let ?B = "\<lambda>s'. \<exists>tc io. s' = s\<lparr>l_tc := tc, l_io := io\<rparr> \<and>
      said P H ab s' (m @ take (unat (l_chLen s)) (l_scratch s))"
  have l: "unat (l_chLen s) \<le> length (l_scratch s)"
    using assms(2,3) by (simp add: hs_ok_def)
  obtain tc where u: "hs_update P (l_scratch s) (l_chLen s) s = Some (0, s\<lparr>l_tc := tc\<rparr>)"
      "said P H ab (s\<lparr>l_tc := tc\<rparr>) (m @ take (unat (l_chLen s)) (l_scratch s))"
    using update_said [OF assms(1) l] by blast
  obtain r1 io1 where s1: "send_plain_record send (l_io s) WN_REC_HANDSHAKE (l_scratch s) (l_chLen s) = Some (r1, io1)" "r1 \<le> 0"
    using send_plain_record_runs [OF l, of send "l_io s" WN_REC_HANDSHAKE] by blast
  obtain r2 io2 where s2: "send_ccs send io1 = Some (r2, io2)" "r2 \<le> 0"
    using send_plain_record_runs [of 1 "[1]" send io1 WN_REC_CHANGE_CIPHER] unfolding send_ccs_def by force
  show ?thesis
    using u s1 s2 assms(2) by (simp add: hs_send_hello_def ok_def ends_Some hs_keeps_def hs_ok_def said_def) blast
qed

lemma hello_record_runs:
  assumes "io_ok send recv avail" and "5 \<le> length scr" and "unat cap \<le> length scr"
  shows "runs (hello_record recv cap io scr ty rl) (\<lambda>(ret, scr', ty', rl', io'). ret \<le> 0 \<and> length scr' = length scr \<and>
    (ret = 0 \<longrightarrow> 5 < unat rl' \<and> unat rl' \<le> unat cap \<and> unat rl' \<le> 16645))"
  using assms(2,3)
proof (induction "avail io" arbitrary: io scr ty rl rule: less_induct)
  case less
  have rv: "recv_ok recv" using assms(1) by (simp add: io_ok_def)
  obtain ret scr' ty' rl' io' where e: "wn_RecvRecord recv io scr cap ty rl = Some (ret, scr', ty', rl', io')"
    and c: "length scr' = length scr" "ret \<in> {0, WOLFNANO_E_CRYPTO, WOLFNANO_E_DECODE}"
      "ret = 0 \<longrightarrow> 0 < frag_of scr' \<and> frag_of scr' \<le> 16640 \<and> unat rl' = frag_of scr' + 5 \<and> unat rl' \<le> unat cap"
    by (rule runs5E [OF RecvRecord_safe [OF rv less.prems, of io ty rl]]) blast
  show ?case
  proof (cases "ret = 0 \<and> ty' = WN_REC_CHANGE_CIPHER")
    case True
    then have "avail io' < avail io"
      using RecvRecord_avail [OF assms(1) e] by simp
    from less.hyps [OF this, of scr' ty' rl'] show ?thesis
      using less.prems e c True by (subst hello_record.simps) simp
  next
    case False
    then show ?thesis
      using e c by (subst hello_record.simps) auto
  qed
qed

text \<open>A ServerHello that answers the client; \<open>psk\<close> is the selected identity or -1, \<open>k\<close> the server's share.\<close>

definition server_answer :: "'o wc \<Rightarrow> int \<Rightarrow> bytes \<Rightarrow> server_hello \<Rightarrow> bytes \<Rightarrow> bool" where
  "server_answer P psk sid m k \<longleftrightarrow> sh_wf m \<and> m_cipher m = WN_CIPHER_AES_128_GCM_SHA256 \<and> m_sid m = sid \<and>
     SupportedVersionExt 0x0304 \<in> set (m_exts m) \<and> (\<exists>g. uint g = WN_DEFAULT_GROUP P \<and> KeyShareExt g k \<in> set (m_exts m)) \<and>
     length k = unat (WN_DEFAULT_SRV_SHARE_SZ P) \<and>
     (if psk = - 1 then WN_EXT_PRE_SHARED \<notin> ext_type ` set (m_exts m)
      else \<exists>i. int (unat i) = psk \<and> PreSharedExt i \<in> set (m_exts m))"

lemma ext_type_in:
  "WN_EXT_KEY_SHARE \<in> ext_type ` set es \<Longrightarrow> \<exists>g k. KeyShareExt g k \<in> set es"
  "WN_EXT_SUPPORTED_VER \<in> ext_type ` set es \<Longrightarrow> \<exists>v. SupportedVersionExt v \<in> set es"
  "WN_EXT_PRE_SHARED \<in> ext_type ` set es \<Longrightarrow> \<exists>i. PreSharedExt i \<in> set es"
proof -
  have "ext_type e = WN_EXT_KEY_SHARE \<longleftrightarrow> (\<exists>g k. e = KeyShareExt g k)"
    "ext_type e = WN_EXT_SUPPORTED_VER \<longleftrightarrow> (\<exists>v. e = SupportedVersionExt v)"
    "ext_type e = WN_EXT_PRE_SHARED \<longleftrightarrow> (\<exists>i. e = PreSharedExt i)" for e
    by (cases e; simp)+
  then show "WN_EXT_KEY_SHARE \<in> ext_type ` set es \<Longrightarrow> \<exists>g k. KeyShareExt g k \<in> set es"
    "WN_EXT_SUPPORTED_VER \<in> ext_type ` set es \<Longrightarrow> \<exists>v. SupportedVersionExt v \<in> set es"
    "WN_EXT_PRE_SHARED \<in> ext_type ` set es \<Longrightarrow> \<exists>i. PreSharedExt i \<in> set es"
    by (auto, metis+)
qed

lemma points_to_mem:
  assumes "points_to S p bs" and "S = take n msg"
  shows "\<exists>q. p = Some q \<and> unat q + length bs \<le> length msg \<and> take (length bs) (drop (unat q) msg) = bs"
proof -
  obtain q where q: "p = Some q" "unat q + length bs \<le> length S" "take (length bs) (drop (unat q) S) = bs"
    using assms(1) by (auto simp: points_to_def)
  then have l: "unat q + length bs \<le> n" "unat q + length bs \<le> length msg"
    using assms(2) by simp_all
  then have "take (length bs) (drop (unat q) S) = take (length bs) (drop (unat q) msg)"
    unfolding assms(2) drop_take by (simp add: take_take)
  with q l show ?thesis by simp
qed

lemma hello_params_spec:
  assumes c: "compare_ok P" and r: "sh_read S m sh" and "sh_wf m" and S: "S = take n msg" and "length sid = 32" and "psk \<le> 0"
  shows "runs (hello_params P psk msg sid sh) (\<lambda>good. good \<longrightarrow>
    (\<exists>k p. server_answer P psk sid m k \<and> sh_keyShare sh = Some p \<and> unat p + length k \<le> length msg \<and>
      take (length k) (drop (unat p) msg) = k \<and> sh_keyShareLen sh = WN_DEFAULT_SRV_SHARE_SZ P))"
proof (cases "sh_keyShare sh = None \<or> sh_keyShareLen sh \<noteq> WN_DEFAULT_SRV_SHARE_SZ P \<or>
         sh_cipher sh \<noteq> WN_CIPHER_AES_128_GCM_SHA256 \<or> sh_version sh \<noteq> 0x0304 \<or>
         uint (sh_group sh) \<noteq> WN_DEFAULT_GROUP P \<or> sh_pskSelected sh \<noteq> psk \<or> sh_sessionIdLen sh \<noteq> 32")
  case True
  then show ?thesis by (simp add: hello_params_def)
next
  case False
  then have f: "sh_keyShare sh \<noteq> None" "sh_keyShareLen sh = WN_DEFAULT_SRV_SHARE_SZ P"
    "sh_cipher sh = WN_CIPHER_AES_128_GCM_SHA256" "sh_version sh = 0x0304" "uint (sh_group sh) = WN_DEFAULT_GROUP P"
    "sh_pskSelected sh = psk" "sh_sessionIdLen sh = 32" by auto
  have x: "exts_read S (m_exts m) sh" and sid: "points_to S (sh_sessionId sh) (m_sid m)" "length (m_sid m) = 32"
    and cy: "m_cipher m = WN_CIPHER_AES_128_GCM_SHA256"
    using r f(3,7) by (auto simp: sh_read_def)
  have v: "SupportedVersionExt 0x0304 \<in> set (m_exts m)"
    using x f(4) ext_type_in(2) [of "m_exts m"] by (force simp: exts_read_def)
  obtain k where k: "KeyShareExt (sh_group sh) k \<in> set (m_exts m)" "points_to S (sh_keyShare sh) k"
    "length k = unat (WN_DEFAULT_SRV_SHARE_SZ P)"
    using x f(1,2) ext_type_in(1) [of "m_exts m"] unfolding exts_read_def by (metis)
  have p: "if psk = - 1 then WN_EXT_PRE_SHARED \<notin> ext_type ` set (m_exts m)
      else \<exists>i. int (unat i) = psk \<and> PreSharedExt i \<in> set (m_exts m)"
  proof (cases "WN_EXT_PRE_SHARED \<in> ext_type ` set (m_exts m)")
    case True
    then obtain i where i: "PreSharedExt i \<in> set (m_exts m)" using ext_type_in(3) by blast
    then have e: "int (unat i) = psk" using x f(6) by (auto simp: exts_read_def)
    have "(0 :: int) \<le> int (unat i)" by (rule of_nat_0_le_iff)
    then have "psk \<noteq> - 1" unfolding e by linarith
    then show ?thesis using i e by (metis (mono_tags, lifting))
  next
    case False
    then have "psk = - 1" using x f(6) by (simp add: exts_read_def)
    then show ?thesis using False by simp
  qed
  obtain q where q: "sh_sessionId sh = Some q" "unat q + 32 \<le> length msg" "take 32 (drop (unat q) msg) = m_sid m"
    using points_to_mem [OF sid(1) S] sid(2) by auto
  have e: "hello_params P psk msg sid sh = Some (ConstantCompare P (m_sid m) sid = 0)"
    using False q assms(5) by (auto simp: hello_params_def mem_read_in)
  have s: "m_sid m = sid" if "ConstantCompare P (m_sid m) sid = 0"
    using c that sid(2) assms(5) by (auto simp: compare_ok_def)
  have "server_answer P psk sid m k" if "ConstantCompare P (m_sid m) sid = 0"
    using assms(3) cy s [OF that] v k(1,3) f(5) p unfolding server_answer_def by blast
  then show ?thesis
    using e points_to_mem [OF k(2) S] f(2) by auto
qed

text \<open>
  The phase accepts exactly one record with a ServerHello that answers the client. \<open>s'\<close> keeps all that
  the later phases use; the message joins the transcript, and the shared secret is computed.
\<close>

definition same_hello :: "('o, 'io, 'z) hs_locals_scheme \<Rightarrow> ('o, 'io, 'z) hs_locals_scheme \<Rightarrow> bool" where
  "same_hello s s' \<longleftrightarrow> l_emptyHash s' = l_emptyHash s \<and> l_early s' = l_early s \<and> l_sid s' = l_sid s \<and> l_ks s' = l_ks s \<and>
     l_gotEE s' = l_gotEE s \<and> l_done s' = l_done s \<and> l_accLen s' = l_accLen s"

lemma server_hello_ends:
  assumes c: "hs_crypto P H ab ext exp mac" and io: "io_ok send recv avail"
    and ok: "hs_ok P n s" and cap: "5 \<le> n" "unat cap \<le> n" and "ks_group (l_ks s) = WN_DEFAULT_GROUP P"
    and sd: "said P H ab s ch" and "psk \<le> 0"
  shows "ends (hs_keeps P n s) (\<lambda>s'. same_hello s s' \<and> (\<exists>m k. server_answer P psk (l_sid s) m k \<and>
      said P H ab s' (ch @ enc_sh m) \<and> l_ecdhe s' = share_secret P (l_ks s) k \<and> l_ssLen s' = WN_DEFAULT_SECRET_SZ P))
    (hs_server_hello P recv cap psk s)"
proof -
  define S where "S s' = take (unat (l_recLen s' - 5)) (drop 5 (l_scratch s'))" for s' :: "('a, 'b, 'c) hs_locals_scheme"
  let ?R = "\<lambda>s'. same_hello s s' \<and> l_tc s' = l_tc s \<and> unat (l_recLen s' - 5) = unat (l_recLen s') - 5 \<and>
    5 < unat (l_recLen s') \<and> unat (l_recLen s') \<le> n \<and> unat (l_recLen s') \<le> 16645"
  let ?M = "\<lambda>s' m. S s' = enc_sh m \<and> sh_wf m \<and> sh_read (S s') m (l_sh s')"
  let ?U = "\<lambda>s' m. said P H ab s' (ch @ enc_sh m)"
  let ?K = "\<lambda>s' m k p. server_answer P psk (l_sid s) m k \<and> sh_keyShare (l_sh s') = Some p \<and>
    5 + unat p + length k \<le> length (l_scratch s') \<and> take (length k) (drop (5 + unat p) (l_scratch s')) = k \<and>
    sh_keyShareLen (l_sh s') = WN_DEFAULT_SRV_SHARE_SZ P"
  have S_len: "length (S s') = unat (l_recLen s') - 5" "unat (l_recLen s' - 5) \<le> length (drop 5 (l_scratch s'))"
    "n \<le> length (l_scratch s')" if "hs_keeps P n s s'" "?R s'" for s'
  proof -
    show l: "n \<le> length (l_scratch s')" using that(1) by (simp add: hs_keeps_def hs_ok_def)
    show d: "unat (l_recLen s' - 5) \<le> length (drop 5 (l_scratch s'))" using that(2) l by auto
    show "length (S s') = unat (l_recLen s') - 5" using d that(2) unfolding S_def by simp
  qed
  show ?thesis
    unfolding hs_server_hello_def
  proof (rule ends_ok [where B = "\<lambda>s'. same_hello s s' \<and> (\<exists>m k p. ?U s' m \<and> ?K s' m k p)"],
      rule ends_ok [where B = "\<lambda>s'. same_hello s s' \<and> unat (l_recLen s' - 5) = unat (l_recLen s') - 5 \<and>
        5 < unat (l_recLen s') \<and> unat (l_recLen s') \<le> n \<and> (\<exists>m. ?M s' m \<and> ?U s' m)"],
      rule ends_ok [where B = "\<lambda>s'. ?R s' \<and> (\<exists>m. ?M s' m)"],
      rule ends_ok [where B = "\<lambda>s'. ?R s' \<and> (sh_isHelloRetry (l_sh s') = 0 \<longrightarrow> (\<exists>m. ?M s' m))"],
      rule ends_ok [where B = "?R"], rule ends_ok [where B = "?R"], goal_cases)
    case 1
    have "5 \<le> length (l_scratch s)" "unat cap \<le> length (l_scratch s)" using ok cap by (simp_all add: hs_ok_def)
    from hello_record_runs [OF io this, of "l_io s" "l_rtype s" "l_recLen s"] obtain ret scr ty rl io'
      where "hello_record recv cap (l_io s) (l_scratch s) (l_rtype s) (l_recLen s) = Some (ret, scr, ty, rl, io')"
      and "ret \<le> 0" "length scr = length (l_scratch s)" and r: "ret = 0 \<longrightarrow> 5 < unat rl \<and> unat rl \<le> unat cap \<and> unat rl \<le> 16645"
      by (rule runs5E) blast
    moreover have "unat (rl - 5) = unat rl - 5" if "5 < unat rl"
      using that by (simp add: unat_sub_no_wrap word_le_nat_alt)
    ultimately show ?case
      using ok cap by (auto simp: ends_Some hs_keeps_def hs_ok_def same_hello_def)
  next
    case (2 s')
    then show ?case by (intro ends_fail_if) auto
  next
    case (3 s')
    note l = S_len [OF 3]
    have big: "unat (l_recLen s' - 5) + 65536 < 2 ^ 32" using 3(2) by simp
    obtain ret out where "wn_ServerHello_Parse (Some (drop 5 (l_scratch s'))) (l_recLen s' - 5) (Some (l_sh s')) = Some (ret, out)"
      and "\<exists>o'. out = Some o' \<and> ret \<in> {0, WOLFNANO_E_INVALID_ARG} \<and> (sh_isHelloRetry o' \<noteq> 0 \<longleftrightarrow> is_hrr (S s')) \<and>
        (\<not> is_hrr (S s') \<longrightarrow> ret = 0 \<longrightarrow> (\<exists>m. S s' = enc_sh m \<and> sh_wf m \<and> sh_read (S s') m o'))"
      using parse_sound [OF l(2) big S_def, of "l_sh s'"] by (rule runs2E) blast
    then show ?case
      using 3 by (auto simp: ends_Some hs_keeps_def hs_ok_def same_hello_def S_def)
  next
    case (4 s')
    then show ?case by (intro ends_fail_if) auto
  next
    case (5 s')
    then obtain m where m: "?M s' m" and R: "?R s'" by blast
    have "said P H ab s' ch" using R sd by (simp add: said_def)
    from update_said [OF this S_len(2) [OF 5(1) R]] obtain tc
      where "hs_update P (drop 5 (l_scratch s')) (l_recLen s' - 5) s' = Some (0, s'\<lparr>l_tc := tc\<rparr>)"
      and "said P H ab (s'\<lparr>l_tc := tc\<rparr>) (ch @ S s')" unfolding S_def by blast
    then show ?case
      using m R 5(1) by (auto simp: ends_Some hs_keeps_def hs_ok_def same_hello_def S_def)
  next
    case (6 s')
    then obtain m where m: "?M s' m" "?U s' m" by blast
    have l: "length (l_sid s') = 32" "n \<le> length (l_scratch s')" using 6(1) by (simp_all add: hs_keeps_def hs_ok_def)
    have "l_sid s' = l_sid s" using 6(2) by (simp add: same_hello_def)
    then obtain good where g: "hello_params P psk (drop 5 (l_scratch s')) (l_sid s') (l_sh s') = Some good"
      and h: "good \<longrightarrow> (\<exists>k p. server_answer P psk (l_sid s) m k \<and> sh_keyShare (l_sh s') = Some p \<and>
        unat p + length k \<le> length (drop 5 (l_scratch s')) \<and> take (length k) (drop (unat p) (drop 5 (l_scratch s'))) = k \<and>
        sh_keyShareLen (l_sh s') = WN_DEFAULT_SRV_SHARE_SZ P)"
      using hello_params_spec [OF hs_cryptoD(7) [OF c] conjunct2 [OF conjunct2 [OF m(1)]] conjunct1 [OF conjunct2 [OF m(1)]] S_def l(1) assms(8)]
      unfolding runs_def by auto
    have d: "drop (unat p) (drop 5 (l_scratch s')) = drop (5 + unat p) (l_scratch s')" for p :: word32
      by (simp add: add.commute)
    have e: "a \<le> length (drop 5 (l_scratch s')) \<longleftrightarrow> 5 + a \<le> length (l_scratch s')" for a
      using l(2) cap(1) by auto
    from h have h: "good \<longrightarrow> (\<exists>k p. ?K s' m k p)"
      unfolding d e add.assoc .
    have "\<exists>m k p. ?U s' m \<and> ?K s' m k p" if good using h that m(2) by blast
    moreover have "same_hello s s'" using 6(2) by simp
    ultimately show ?case
      unfolding g using 6(1) by (auto intro!: ends_fail_if)
  next
    case (7 s')
    then obtain m k p where m: "?U s' m" "?K s' m k p" by blast
    have kl: "length k = unat (WN_DEFAULT_SRV_SHARE_SZ P)" using m(2) by (simp add: server_answer_def)
    have l: "length (l_ecdhe s') = unat (WN_DEFAULT_SECRET_SZ P)" "n \<le> length (l_scratch s')"
      using 7(1) by (simp_all add: hs_keeps_def hs_ok_def)
    have ks: "l_ks s' = l_ks s" using 7(2) by (simp add: same_hello_def)
    have g: "ks_group (l_ks s') = WN_DEFAULT_GROUP P" using ks assms(6) by simp
    have d: "unat (WN_DEFAULT_SRV_SHARE_SZ P) \<le> length (drop (5 + unat p) (l_scratch s'))"
      and k: "k = take (unat (WN_DEFAULT_SRV_SHARE_SZ P)) (drop (5 + unat p) (l_scratch s'))"
      using m(2) kl l(2) by auto
    obtain ret ss sl where e: "wn_KeyShare_Shared P (Some (l_ks s')) (Some (drop (5 + unat p) (l_scratch s')))
        (WN_DEFAULT_SRV_SHARE_SZ P) (Some (l_ecdhe s')) (Some (l_ssLen s')) = Some (ret, ss, sl)" and "ret \<le> 0"
        "length ss = length (l_ecdhe s')" "sl \<noteq> None"
      and r: "ret = 0 \<longrightarrow> ss = share_secret P (l_ks s') k \<and> sl = Some (WN_DEFAULT_SECRET_SZ P)"
      by (rule runs3E [OF KeyShare_Shared_spec [OF hs_cryptoD(6) [OF c] g d l(1) k, of "l_ssLen s'"]]) blast
    then obtain n' where sl: "sl = Some n'" by blast
    let ?s = "s'\<lparr>l_ecdhe := ss, l_ssLen := n'\<rparr>"
    have "hs_keeps P n s ?s" and "same_hello s ?s" and "said P H ab ?s (ch @ enc_sh m)"
      using 7 m(1) \<open>length ss = length (l_ecdhe s')\<close> by (simp_all add: hs_keeps_def hs_ok_def same_hello_def said_def)
    moreover have "sh_keyShare (l_sh s') = Some p" and "sh_keyShareLen (l_sh s') = WN_DEFAULT_SRV_SHARE_SZ P"
      using m(2) by simp_all
    moreover have "ret = 0 \<Longrightarrow> ss = share_secret P (l_ks s) k \<and> n' = WN_DEFAULT_SECRET_SZ P"
      using r ks sl by simp
    ultimately show ?case
      using e sl \<open>ret \<le> 0\<close> conjunct1 [OF m(2)] by (simp add: ends_Some) blast
  qed
qed

section \<open>Keys\<close>

lemma secret_size: "0 < unat (WN_DEFAULT_SECRET_SZ P)" "WN_DEFAULT_SECRET_SZ P \<noteq> 0"
  by (simp_all add: WN_DEFAULT_SECRET_SZ_def)

lemma derive_eq:
  assumes c: "hs_crypto P H ab ext exp mac" and ok: "hs_ok P n s" and "l_ssLen s = WN_DEFAULT_SECRET_SZ P"
    and Hs: "Hs = next_stage ext exp (l_emptyHash s) (l_early s) (l_ecdhe s)"
    and C: "C = traffic_secret exp Hs ''c hs traffic'' (l_th s)" and S: "S = traffic_secret exp Hs ''s hs traffic'' (l_th s)"
  shows "hs_derive P s = Some (0, s\<lparr>l_hs := Hs, l_cHs := C, l_sHs := S, l_cKey := secret_key exp C, l_cIv := secret_iv exp C,
      l_sKey := secret_key exp S, l_sIv := secret_iv exp S\<rparr>)"
    and "hs_keeps P n s (s\<lparr>l_hs := Hs, l_cHs := C, l_sHs := S, l_cKey := secret_key exp C, l_cIv := secret_iv exp C,
      l_sKey := secret_key exp S, l_sIv := secret_iv exp S\<rparr>)"
proof -
  note u = hs_cryptoD(3) [OF c]
  have l: "length (l_ecdhe s) = unat (l_ssLen s)" "l_ssLen s \<noteq> 0"
    using ok assms(3) secret_size(2) by (simp_all add: hs_ok_def)
  then have t: "take (unat (l_ssLen s)) (l_ecdhe s) = l_ecdhe s" by simp
  show "hs_derive P s = Some (0, s\<lparr>l_hs := Hs, l_cHs := C, l_sHs := S, l_cKey := secret_key exp C, l_cIv := secret_iv exp C,
      l_sKey := secret_key exp S, l_sIv := secret_iv exp S\<rparr>)"
    using DeriveHsKeys_spec [OF u, of "l_hs s" "l_cHs s" "l_sHs s" "l_cKey s" "l_cIv s" "l_sKey s" "l_sIv s" "l_early s"
        "l_emptyHash s" "l_th s" "l_ssLen s" "l_ecdhe s", unfolded t, OF _ _ _ _ _ _ _ _ _ _ _ l(2) Hs C S] ok l(1)
    by (simp add: hs_derive_def hs_ok_def)
  have "l_ecdhe s \<noteq> []" "length (l_ecdhe s) < 2 ^ 32"
    using l word32_lt [of "l_ssLen s"] by (auto simp: unat_eq_zero)
  then have "length Hs = 32" unfolding Hs by (rule next_stage_length [OF u])
  then show "hs_keeps P n s (s\<lparr>l_hs := Hs, l_cHs := C, l_sHs := S, l_cKey := secret_key exp C, l_cIv := secret_iv exp C,
      l_sKey := secret_key exp S, l_sIv := secret_iv exp S\<rparr>)"
    using ok usable_secret_lengths [OF u] by (simp add: hs_keeps_def hs_ok_def C S)
qed

lemma send_finished_ends:
  assumes c: "hs_crypto P H ab ext exp mac" and ok: "hs_ok P n s" and "58 \<le> n"
  shows "ends (hs_keeps P n s) (\<lambda>s'. l_hs s' = l_hs s \<and> l_emptyHash s' = l_emptyHash s \<and> l_th s' = l_th s)
    (hs_send_finished P send s)"
proof -
  let ?fin = "[20, 0, 0, 32] @ l_mac s"
  have l: "length (l_cKey s) = 16" "length (l_cIv s) = 12" "n \<le> length (l_scratch s)" "length (l_mac s) = 32" "length (l_fin s) = 36"
    using ok by (simp_all add: hs_ok_def)
  obtain ret scr rl where p: "wn_Record_Protect P (Some (l_scratch s)) (Some (l_recLen s)) (Some (l_cKey s)) 16 (Some (l_cIv s)) 0
      WN_REC_HANDSHAKE (Some ?fin) 36 = Some (ret, scr, rl)" and "length scr = length (l_scratch s)" "ret \<in> {0, WOLFNANO_E_CRYPTO}"
      "ret = 0 \<longrightarrow> rl = Some 58"
    using Protect_runs [OF hs_cryptoD(5) [OF c] l(1,2), of 36 ?fin "l_scratch s" "l_recLen s" 0 WN_REC_HANDSHAKE] l assms(3)
    by (auto elim!: runs3E)
  moreover have "rl \<noteq> None"
    using p by (auto simp: wn_Record_Protect_def record_seal_def Let_def bind_eq_Some_conv split: if_splits prod.splits)
  ultimately show ?thesis
    using ok l assms(3)
    by (auto simp: hs_send_finished_def ok_def ends_Some fail_if_def hs_keeps_def hs_ok_def mem_read_in mem_write_in split: prod.splits)
qed

lemma client_finished_ends:
  assumes c: "hs_crypto P H ab ext exp mac" and ok: "hs_ok P n s" and "58 \<le> n" and sd: "said P H ab s m"
  shows "ends (hs_keeps P n s) (\<lambda>s'. l_hs s' = l_hs s \<and> l_emptyHash s' = l_emptyHash s \<and> l_th s' = H WC_SHA256 m)
    (hs_client_finished P send s)"
proof -
  have l: "length (l_th s) = 32" "length (l_cHs s) = 32" using ok by (simp_all add: hs_ok_def)
  from get_hash_said [OF sd l(1)] obtain tc where g: "hs_get_hash P s = Some (0, s\<lparr>l_tc := tc, l_th := H WC_SHA256 m\<rparr>)" by blast
  let ?s = "s\<lparr>l_tc := tc, l_th := H WC_SHA256 m\<rparr>"
  have ok': "hs_ok P n ?s" using ok hs_cryptoD(8) [OF c] by (simp add: hs_ok_def)
  have f: "hs_finished_mac P (l_cHs ?s) ?s = Some (0, ?s\<lparr>l_mac := verify_data exp mac (l_cHs ?s) (l_th ?s)\<rparr>)"
    by (rule finished_mac_eq [OF c ok']) (simp add: l)
  let ?s2 = "?s\<lparr>l_mac := verify_data exp mac (l_cHs ?s) (l_th ?s)\<rparr>"
  have ok2: "hs_ok P n ?s2" using ok' verify_data_length [OF c] by (simp add: hs_ok_def)
  have "hs_client_finished P send s = hs_send_finished P send ?s2"
    using g f by (simp add: hs_client_finished_def ok_def)
  then show ?thesis
    using send_finished_ends [OF c ok2 assms(3), of send] by (auto elim!: ends_mono simp: hs_keeps_def)
qed

text \<open>The established session: application keys from the master secret and the transcript hash.\<close>

definition app_session ::
    "hkdf_extract \<Rightarrow> hkdf_expand \<Rightarrow> bytes \<Rightarrow> bytes \<Rightarrow> bytes \<Rightarrow> 'io wn_IoSend \<Rightarrow> 'io wn_IoRecv \<Rightarrow> nat \<Rightarrow> bytes \<Rightarrow> word32 \<Rightarrow> 'io wn_Session" where
  "app_session ext exp eh hs th send recv ctx scr n =
     (let M = next_stage ext exp eh hs (replicate 32 0);
          C = traffic_secret exp M ''c ap traffic'' th; S = traffic_secret exp M ''s ap traffic'' th in
      \<lparr>ioSend = Some send, ioRecv = Some recv, ioCtx = ctx, scratch = Some scr, scratchLen = n,
       cAppSecret = C, sAppSecret = S, cKey = secret_key exp C, cIv = secret_iv exp C, sKey = secret_key exp S,
       sIv = secret_iv exp S, cSeq = 0, sSeq = 0, sess_digest = WC_SHA256, flags = WN_SESS_ESTABLISHED\<rparr>)"

lemma app_session_ok:
  assumes "kdf_usable P ext exp WC_SHA256" and "22 \<le> unat cap" and "unat cap \<le> length scr"
  shows "sess_ok send recv (app_session ext exp eh hs th send recv ctx scr cap)"
  using assms usable_secret_lengths [OF assms(1)]
  by (simp add: app_session_def sess_ok_def Let_def word_le_nat_alt)

lemma establish_eq:
  assumes c: "hs_crypto P H ab ext exp mac" and ok: "hs_ok P n s"
  shows "hs_establish P send recv ctx cap s = Some (0, s\<lparr>l_sess :=
    app_session ext exp (l_emptyHash s) (l_hs s) (l_th s) send recv ctx (l_scratch s) cap\<rparr>)"
  using SessionEstablish_spec [OF hs_cryptoD(3) [OF c], of "l_sess s" "l_hs s" "l_emptyHash s" "replicate 32 0" "l_th s",
      OF _ _ _ _ _ _ _ _ _ _ refl refl refl] ok
  by (simp add: hs_establish_def hs_ok_def zero_session_def app_session_def Let_def)

section \<open>The wipe\<close>

text \<open>
  The secrets among the locals, and what the wipe leaves of them: zero bytes in the buffers, and the
  client's private keys freed.
\<close>

definition hs_wiped :: "'o wc \<Rightarrow> ('o, 'io, 'z) hs_locals_scheme \<Rightarrow> bool" where
  "hs_wiped P s \<longleftrightarrow> l_early s = replicate 32 0 \<and> l_hs s = replicate 32 0 \<and> l_cHs s = replicate 32 0 \<and>
     l_sHs s = replicate 32 0 \<and> l_cKey s = replicate 16 0 \<and> l_sKey s = replicate 16 0 \<and> l_cIv s = replicate 12 0 \<and>
     l_sIv s = replicate 12 0 \<and> l_ecdhe s = replicate (unat (WN_DEFAULT_SECRET_SZ P)) 0 \<and> l_mac s = replicate 32 0 \<and>
     l_fin s = replicate 36 0 \<and> ks_freed P (l_ks s)"

lemma force_zero_all: "length b = n \<Longrightarrow> force_zero b 0 n = Some (replicate n 0)"
  by (simp add: force_zero_def mem_write_in)

lemma wipe_runs:
  assumes "hs_ok P n (s\<lparr>l_sess := zero_session\<rparr>)"
  shows "runs (hs_wipe P s) (\<lambda>s'. hs_wiped P s' \<and> l_sess s' = l_sess s \<and> l_rng s' = l_rng s \<and> l_io s' = l_io s \<and>
    l_scratch s' = l_scratch s \<and> l_accLen s' = l_accLen s \<and> hs_locals.more s' = hs_locals.more s)"
proof -
  have "ks_tracked P (l_ks s)" using assms by (simp add: hs_ok_def)
  then obtain ks where "snd (wn_KeyShare_Free P (Some (l_ks s))) = Some ks" and "ks_freed P ks"
    using KeyShare_Free_frees by blast
  then show ?thesis
    using assms by (simp add: hs_wipe_def hs_ok_def force_zero_all hs_wiped_def)
qed

section \<open>Records and messages of the flight\<close>

lemma Unprotect_flight:
  assumes "gcm_sizes P" and "length key = 16" and "length iv = 12"
    and "unat recLen \<le> length rec" and "unat recLen \<le> length content + 21"
  shows "runs (wn_Record_Unprotect P (Some content) (Some cl) (Some ty) (Some key) 16 (Some iv) seq (Some rec) recLen)
    (\<lambda>(ret, content', cl', cty'). ret \<le> 0 \<and> length content' = length content \<and> drop (unat recLen - 21) content' = drop (unat recLen - 21) content \<and>
      (\<exists>l t. cl' = Some l \<and> cty' = Some t \<and> (ret = 0 \<longrightarrow> unat l + 21 < unat recLen)))"
proof -
  have nonce: "wn_BuildNonce iv seq = Some (nonce_of (take 12 iv) seq)"
    using assms(3) by (intro BuildNonce_eq) simp
  consider "recLen < 22" | "fst (wc_AesInit P) \<noteq> 0" "22 \<le> recLen"
    | "fst (wc_AesInit P) = 0" "fst (gcm_key P (take (unat (16 :: word32)) key)) \<noteq> 0" "22 \<le> recLen"
    | "fst (wc_AesInit P) = 0" "fst (gcm_key P (take (unat (16 :: word32)) key)) = 0" "22 \<le> recLen"
    by (meson not_le)
  then show ?thesis
  proof cases
    case 1
    then show ?thesis by (simp add: wn_Record_Unprotect_def)
  next
    case 2
    obtain r a where "wc_AesInit P = (r, a)" by fastforce
    then show ?thesis
      using nonce 2 by (simp add: wn_Record_Unprotect_def not_less [symmetric])
  next
    case 3
    obtain a where a: "wc_AesInit P = (0, a)" using 3(1) by (cases "wc_AesInit P") simp
    obtain r aes where "wc_AesGcmSetKey P a key = (r, aes)" by fastforce
    with a show ?thesis
      using nonce 3 assms(2) by (simp add: wn_Record_Unprotect_def gcm_key_def mem_read_in not_less [symmetric])
  next
    case 4
    have n: "22 \<le> unat recLen" using 4 by (simp add: word_le_nat_alt)
    have kk: "unat (16 :: word32) \<le> length key" and i: "12 \<le> length iv" and c: "unat recLen - 21 \<le> length content"
      using assms(2,3,5) by simp_all
    have m: "unat (word_of_nat (length m) :: word32) < unat recLen - 21"
      if "inner_plaintext pt m t" and "length pt = unat recLen - 21" for pt m t
    proof -
      have "length m < length pt" using that(1) by (auto simp: inner_plaintext_def)
      with that(2) show ?thesis by (simp add: unat_of_nat le_less_trans [OF mod_less_eq_dividend])
    qed
    show ?thesis
    proof (rule runs_mono [OF Unprotect_spec [OF assms(1) 4(1,2) kk i assms(4) 4(3) refl c, of cl ty seq]], goal_cases)
      case (1 x)
      then show ?case
        using n m by (cases x) (fastforce split: option.splits if_splits)
    qed
  qed
qed

text \<open>A complete message in a buffer: type, length and body.\<close>

definition msg_length :: "byte \<Rightarrow> byte \<Rightarrow> byte \<Rightarrow> word32" where
  "msg_length b1 b2 b3 = push_bit 16 (ucast b1) OR push_bit 8 (ucast b2) OR ucast b3"

lemma unat_msg_length: "unat (msg_length b1 b2 b3) = be_val [b1, b2, b3]" "be_bytes 3 (unat (msg_length b1 b2 b3)) = [b1, b2, b3]"
  "unat (msg_length b1 b2 b3) < 2 ^ 24"
  using be_val_lt [of "[b1, b2, b3]"] by (simp_all add: msg_length_def U24_of_bytes)

lemma message_in_buffer:
  assumes "off + 4 \<le> length b" and "n = unat (msg_length (b ! (off + 1)) (b ! (off + 2)) (b ! (off + 3)))"
  shows "take (n + 4) (drop off b) = [b ! off] @ be_bytes 3 n @ take n (drop (off + 4) b)"
proof -
  have d: "drop i b = b ! i # drop (i + 1) b" if "i < off + 4" for i
    using that assms(1) Cons_nth_drop_Suc [of i b] by simp
  have "drop off b = [b ! off, b ! (off + 1), b ! (off + 1 + 1), b ! (off + 1 + 1 + 1)] @ drop (off + 1 + 1 + 1 + 1) b"
    using d [of off] d [of "off + 1"] d [of "off + 1 + 1"] d [of "off + 1 + 1 + 1"] by simp
  also have "\<dots> = [b ! off] @ [b ! (off + 1), b ! (off + 2), b ! (off + 3)] @ drop (off + 4) b"
    by (simp add: numeral_eq_Suc)
  also have "[b ! (off + 1), b ! (off + 2), b ! (off + 3)] = be_bytes 3 n"
    using assms(2) by (simp only: unat_msg_length(2))
  finally show ?thesis
    by (simp add: take_Cons')
qed

text \<open>The EncryptedExtensions a client accepts, and the Finished message of a traffic secret.\<close>

definition enc_ext_msg :: "bool \<Rightarrow> bytes \<Rightarrow> bool" where
  "enc_ext_msg sni msg \<longleftrightarrow> (\<exists>es. length (concat (map ee_ext es)) < 65536 \<and> (\<forall>e \<in> set es. ee_allowed sni e) \<and>
     msg = [8] @ be_bytes 3 (2 + length (concat (map ee_ext es))) @ be_bytes 2 (length (concat (map ee_ext es))) @ concat (map ee_ext es))"

definition finished_msg ::
    "(hash_id \<Rightarrow> bytes \<Rightarrow> bytes) \<Rightarrow> hkdf_expand \<Rightarrow> (hash_id \<Rightarrow> bytes \<Rightarrow> bytes \<Rightarrow> bytes) \<Rightarrow> bytes \<Rightarrow> bytes \<Rightarrow> bytes" where
  "finished_msg H exp mac secret m = [20] @ be_bytes 3 32 @ verify_data exp mac secret (H WC_SHA256 m)"

lemma CheckEncExt_msg:
  assumes "unat n \<le> length body" and "unat n < 2 ^ 24"
  shows "\<exists>ret. wn_CheckEncExt body n sni = Some ret \<and> ret \<le> 0 \<and>
    (ret = 0 \<longrightarrow> enc_ext_msg sni ([8] @ be_bytes 3 (unat n) @ take (unat n) body))"
proof -
  have "unat n + 65536 < 2 ^ 32" using assms(2) by simp
  from CheckEncExt_result [OF assms(1) this, of sni] obtain ret
    where r: "wn_CheckEncExt body n sni = Some ret" "ret \<in> {WOLFNANO_SUCCESS, WOLFNANO_E_DECODE, WOLFNANO_E_UNEXPECTED_MSG}"
      and e: "ret = 0 \<Longrightarrow> \<exists>es. take (unat n) body = be_bytes 2 (length (concat (map ee_ext es))) @ concat (map ee_ext es) \<and>
            length (concat (map ee_ext es)) < 65536 \<and> (\<forall>e \<in> set es. ee_allowed sni e)" by blast
  have "enc_ext_msg sni ([8] @ be_bytes 3 (unat n) @ take (unat n) body)" if "ret = 0"
  proof -
    from e [OF that] obtain es where es: "take (unat n) body = be_bytes 2 (length (concat (map ee_ext es))) @ concat (map ee_ext es)"
      "length (concat (map ee_ext es)) < 65536" "\<forall>e \<in> set es. ee_allowed sni e" by blast
    have "unat n = 2 + length (concat (map ee_ext es))"
      using arg_cong [OF es(1), of length] assms(1) by simp
    then show ?thesis
      unfolding enc_ext_msg_def es(1) using es(2,3) by metis
  qed
  with r show ?thesis by auto
qed

section \<open>A concrete instance\<close>

lemma demo_hs_crypto:
  "hs_crypto demo_wc (\<lambda>d. pad (digest_size d)) (\<lambda>d c m. c = m) (\<lambda>d s i. pad (digest_size d) (s @ i)) (\<lambda>d k l n. pad n (k @ l))
     (\<lambda>d k m. pad (digest_size d) (k @ m))"
proof -
  have "wc_Sha256Hash demo_wc m = (0, pad (digest_size WC_SHA256) m)" for m
    by (simp add: demo_wc_def digest_size_def)
  then show ?thesis
    unfolding hs_crypto_def using demo_sha demo_usable demo_hmac demo_gcm_sizes demo_kex_sizes demo_compare by blast
qed

end
