(* ===== verification/Wn_PskSpec.thy ===== *)
theory Wn_PskSpec
  imports Wn_PskHello Wn_HandshakeSpec
begin

text \<open>
  The PSK handshake as a whole: it always returns, it never leaves its buffers, it wipes its
  secrets, and it succeeds only with a server that proved to know the key over the transcript both
  sides have seen.
\<close>

section \<open>The invariant\<close>

definition psk_ok :: "'o wc \<Rightarrow> nat \<Rightarrow> ('o, 'io) psk_locals \<Rightarrow> bool" where
  "psk_ok P n s \<longleftrightarrow> hs_ok P n s \<and> length (p_binderKey s) = 32 \<and> length (p_binder s) = 32 \<and> length (p_recvMac s) = 32 \<and>
     length (p_plain s) = 512"

lemma psk_fields:
  "hs_locals.more s = \<lparr>p_binderKey = p_binderKey s, p_binder = p_binder s, p_recvMac = p_recvMac s, p_plain = p_plain s,
     p_truncOff = p_truncOff s, p_binderOff = p_binderOff s, p_accOff = p_accOff s, \<dots> = psk_locals.more s\<rparr>"
  by (cases s) (simp only: hs_locals.select_convs psk_locals.select_convs)

lemma psk_more:
  assumes "hs_locals.more s' = hs_locals.more s"
  shows "p_binderKey s' = p_binderKey s" and "p_binder s' = p_binder s" and "p_recvMac s' = p_recvMac s"
    and "p_plain s' = p_plain s" and "p_accOff s' = p_accOff s"
  using assms unfolding psk_fields by simp_all

lemma keeps_psk_ok:
  assumes "hs_keeps P n s s'" and "psk_ok P n s"
  shows "psk_ok P n s'"
proof -
  have m: "hs_locals.more s' = hs_locals.more s" and "hs_ok P n s'"
    using assms(1) by (simp_all add: hs_keeps_def)
  then show ?thesis
    using assms(2) unfolding psk_ok_def psk_more [OF m] by simp
qed

lemma psk_ok_hs: "psk_ok P n s \<Longrightarrow> hs_ok P n s"
  by (simp add: psk_ok_def)

section \<open>The ClientHello\<close>

definition psk_early :: "hkdf_extract \<Rightarrow> bytes \<Rightarrow> bytes" where
  "psk_early ext k = ext WC_SHA256 (replicate 32 0) k"

text \<open>
  A ClientHello with one identity, whose binder is the MAC under the binder key of the message up
  to the binders list, which is 35 bytes long (RFC 8446, section 4.2.11.2).
\<close>

definition psk_client_hello ::
    "'o wc \<Rightarrow> (hash_id \<Rightarrow> bytes \<Rightarrow> bytes) \<Rightarrow> hkdf_extract \<Rightarrow> hkdf_expand \<Rightarrow> (hash_id \<Rightarrow> bytes \<Rightarrow> bytes \<Rightarrow> bytes) \<Rightarrow> bytes \<Rightarrow> bytes \<Rightarrow>
     bytes \<Rightarrow> 'o wn_KeyShare \<Rightarrow> bytes \<Rightarrow> bool" where
  "psk_client_hello P H ext exp mac k identity sid ks ch \<longleftrightarrow>
     (\<exists>rnd pub binder. length rnd = 32 \<and> own_share P ks pub \<and>
       ch = encodes (psk_hello_wire P rnd sid pub (word_of_int (WN_DEFAULT_GROUP P)) identity binder) \<and>
       binder = verify_data exp mac (Derive_Secret exp WC_SHA256 (psk_early ext k) ''ext binder'' (H WC_SHA256 []))
         (H WC_SHA256 (take (length ch - 35) ch)))"

lemma nested_suffix:
  assumes "\<And>b. length b = m \<Longrightarrow> encodes (f b) = I @ b"
  shows "\<exists>K. \<forall>b. length b = m \<longrightarrow> encodes [WU8 1, WVec 3 (X @ [WVec 2 (Y @ f b)])] = K @ b"
proof -
  let ?n = "length (encodes Y) + (length I + m)"
  have "encodes [WU8 1, WVec 3 (X @ [WVec 2 (Y @ f b)])] = ([1] @ be_bytes 3 (length (encodes X) + (2 + ?n)) @ encodes X @
      be_bytes 2 ?n @ encodes Y @ I) @ b" if "length b = m" for b
    using assms [OF that] that by simp
  then show ?thesis by blast
qed

lemma psk_wire_binder:
  "\<exists>K. \<forall>b. length b = 32 \<longrightarrow> encodes (psk_hello_wire P rnd sid pub grp identity b) = K @ b"
proof -
  let ?I = "be_bytes 2 41 @ be_bytes 2 (43 + length identity) @ be_bytes 2 (6 + length identity) @
      be_bytes 2 (length identity) @ identity @ [0, 0, 0, 0] @ be_bytes 2 33 @ [32]"
  have o: "encodes (psk_offer identity b) = ?I @ b" if "length b = 32" for b
    using that by (simp add: psk_offer_def ext_wire_def be_bytes_1 be_bytes_2)
  show ?thesis
    using nested_suffix [of 32 "psk_offer identity" ?I "[WU16 0x0303, WBytes rnd, WVec 1 [WBytes sid], WVec 2 [WU16 0x1301], WVec 1 [WU8 0]]"
      "ext_wire 43 [WVec 1 [WU16 0x0304]] @ ext_wire 10 [WVec 2 [WU16 grp]] @
          ext_wire 13 [WVec 2 (map WU16 (psk_schemes P))] @
          ext_wire 51 [WVec 2 [WU16 grp, WVec 2 [WBytes pub]]] @ ext_wire 45 [WVec 1 [WU8 1]]", OF o]
    by (simp only: psk_hello_wire_def append_assoc append_Cons append_Nil)
qed

lemma psk_wire_length:
  assumes "length b = length c" and "length c = 32"
  shows "length (encodes (psk_hello_wire P rnd sid pub grp identity b)) =
    length (encodes (psk_hello_wire P rnd sid pub grp identity c))"
  using psk_wire_binder [of P rnd sid pub grp identity] assms by auto

definition psk_fresh :: "('o, 'io) psk_locals \<Rightarrow> bool" where
  "psk_fresh s \<longleftrightarrow> \<not> l_gotEE s \<and> \<not> l_done s \<and> l_accLen s = 0 \<and> p_accOff s = 0 \<and> l_sSeq s = 0"

lemma mem_write_all: "length b = length x \<Longrightarrow> mem_write b 0 x = Some x"
  by (simp add: mem_write_in)

lemma psk_start_ends:
  assumes c: "hs_crypto P H ab ext exp mac" and ok: "psk_ok P n s" and "psk_fresh s"
  shows "ends (psk_ok P n) (\<lambda>s'. l_emptyHash s' = H WC_SHA256 [] \<and> psk_fresh s' \<and> l_io s' = l_io s) (psk_start P s)"
proof -
  obtain r1 b1 g1 where 1: "wc_RNG_GenerateBlock P (l_rng s) 32 = (r1, b1, g1)" by (metis prod.exhaust)
  obtain r2 b2 g2 where 2: "wc_RNG_GenerateBlock P g1 32 = (r2, b2, g2)" by (metis prod.exhaust)
  have l: "length b1 = 32" "length b2 = 32"
    using kex_sizesD(1) [OF hs_cryptoD(6) [OF c] 1] kex_sizesD(1) [OF hs_cryptoD(6) [OF c] 2] by simp_all
  show ?thesis
    using 1 2 l ok assms(3) hs_cryptoD(2,8) [OF c]
    by (simp add: psk_start_def ok_def ends_Some mem_write_all psk_ok_def hs_ok_def psk_fresh_def)
qed

lemma psk_hello_ends:
  fixes s :: "('o, 'io) psk_locals"
  assumes c: "hs_crypto P H ab ext exp mac" and ok: "psk_ok P n s" and fr: "psk_fresh s"
    and eh: "l_emptyHash s = H WC_SHA256 []" and pl: "l_pubLen s = WN_DEFAULT_PUB_SZ P" "own_share P (l_ks s) (l_cliPub s)"
    and cap: "unat cap = n" "n + 65536 < 2 ^ 32" and idn: "length identity \<le> 65535"
    and k: "pskLen \<noteq> 0" "unat pskLen \<le> length psk" "k = take (unat pskLen) psk"
  shows "ends (psk_ok P n) (\<lambda>s'. l_emptyHash s' = H WC_SHA256 [] \<and> psk_fresh s' \<and> l_io s' = l_io s \<and> l_tc s' = l_tc s \<and> l_ks s' = l_ks s \<and>
      l_sid s' = l_sid s \<and> l_early s' = psk_early ext k \<and> unat (l_chLen s') \<le> n \<and>
      psk_client_hello P H ext exp mac k identity (l_sid s) (l_ks s) (take (unat (l_chLen s')) (l_scratch s')))
    (psk_hello P psk pskLen identity cap s)"
proof -
  note u = hs_cryptoD(3) [OF c]
  have l: "length (l_random32 s) = 32" "length (l_sid s) = 32" "length (l_cliPub s) = unat (WN_DEFAULT_PUB_SZ P)"
      "n \<le> length (l_scratch s)" "length (l_early s) = 32" "length (l_th s) = 32" "length (p_binderKey s) = 32" "length (p_binder s) = 32"
    using ok by (simp_all add: psk_ok_def hs_ok_def)
  define wire where "wire = (\<lambda>b. encodes (psk_hello_wire P (l_random32 s) (l_sid s) (l_cliPub s) (word_of_int (WN_DEFAULT_GROUP P)) identity b))"
  obtain K where K: "\<And>b. length b = 32 \<Longrightarrow> wire b = K @ b"
    unfolding wire_def using psk_wire_binder by metis
  define e where "e = wire (replicate 32 0)"
  have eK: "e = K @ replicate 32 0" and le: "length e = length K + 32"
    by (simp_all add: e_def K)
  have "take (unat (l_pubLen s)) (l_cliPub s) = l_cliPub s" "take 32 (l_random32 s) = l_random32 s" "take 32 (l_sid s) = l_sid s"
    using l pl by simp_all
  then have ee: "encodes (psk_hello_wire P (take 32 (l_random32 s)) (take 32 (l_sid s)) (take (unat (l_pubLen s)) (l_cliPub s))
      (word_of_int (WN_DEFAULT_GROUP P)) identity (replicate 32 0)) = e"
    by (simp add: e_def wire_def)
  obtain w t b where w: "build_client_hello P (wn_Writer_Init (l_scratch s) cap) (l_random32 s) (l_sid s) (l_cliPub s)
      (word_of_int (WN_DEFAULT_GROUP P)) (l_pubLen s) identity (word_of_nat (length identity)) = Some (w, t, b)"
    and wl: "n \<le> length (w_buf w)" and "w_err w = 0 \<longleftrightarrow> length e \<le> n"
    and wr: "w_err w = 0 \<longrightarrow> unat (w_len w) = length e \<and> take (length e) (w_buf w) = e \<and> unat t + 35 = length e \<and> unat b + 32 = length e"
    using psk_build_result [of cap "l_scratch s" "l_random32 s" "l_sid s" "l_pubLen s" "l_cliPub s" identity P "word_of_int (WN_DEFAULT_GROUP P)"]
      l pl cap idn pub_size [of P] unfolding ee by auto
  define early where "early = psk_early ext k"
  have kl: "k \<noteq> []" "length k < 2 ^ 32"
    using k word32_lt [of pskLen] by (auto simp: unat_eq_zero)
  have el: "length early = 32"
    using usable_extract_length [OF u _ kl, of "replicate 32 0"] by (simp add: early_def psk_early_def digest_size_def)
  have ex: "wn_Tls13_Extract P (Some (l_early s)) None 0 (Some psk) pskLen WC_SHA256 = Some (0, early)"
    using Extract_spec [OF u, of "l_early s" 0 None pskLen psk] k l by (simp add: digest_size_def zeros_if_null_def early_def psk_early_def)
  define bk where "bk = Derive_Secret exp WC_SHA256 early ''ext binder'' (H WC_SHA256 [])"
  have bl: "length bk = 32" by (simp add: bk_def usable_secret_lengths [OF u])
  have dv: "wn_Tls13_DeriveSecret P (Some (p_binderKey s)) (Some early) (Some ''ext binder'') (Some (l_emptyHash s)) 32 WC_SHA256 = Some (0, bk)"
    using DeriveSecret_spec [OF u, of 32 "p_binderKey s" early "l_emptyHash s" "''ext binder''"] l el eh hs_cryptoD(8) [OF c]
    by (simp add: digest_size_def wn_DigestSize_def bk_def)
  define th where "th = H WC_SHA256 (take (length e - 35) e)"
  define bd where "bd = verify_data exp mac bk th"
  have "length th = 32" and bdl: "length bd = 32"
    by (simp_all add: th_def bd_def hs_cryptoD(8) [OF c] verify_data_length [OF c])
  then have fm: "wn_Tls13_FinishedMac P (Some (p_binder s)) (Some bk) (Some th) 32 WC_SHA256 = Some (0, bd)"
    using FinishedMac_32 [OF c bl] l by (simp add: bd_def)
  show ?thesis
  proof (cases "w_err w = 0")
    case False
    then show ?thesis
      using w wl ok by (simp add: psk_hello_def ok_def ends_Some psk_ok_def hs_ok_def)
  next
    case True
    with wr have wt: "unat (w_len w) = length e" "take (length e) (w_buf w) = e" "unat t + 35 = length e" "unat b + 32 = length e" by auto
    have lw: "length e \<le> length (w_buf w)"
      using wt(2) by (metis length_take min.cobounded2 min.commute)
    have ut: "unat t = length e - 35" using wt(3) by simp
    have "take (unat t) (w_buf w) = take (unat t) (take (length e) (w_buf w))" unfolding ut by simp
    then have rd: "mem_read (w_buf w) 0 (unat t) = Some (take (length e - 35) e)"
      unfolding wt(2) unfolding ut using lw by (simp add: mem_read_in)
    have ub: "unat b = length K" using wt(4) le by simp
    have wb: "mem_write (w_buf w) (unat b) bd = Some (K @ bd @ drop (length e) (w_buf w))"
    proof -
      have "take (length K) (w_buf w) = take (length K) (take (length e) (w_buf w))" using le by simp
      then have "take (length K) (w_buf w) = K" unfolding wt(2) unfolding eK by simp
      then show ?thesis using lw le bdl ub by (simp add: mem_write_in)
    qed
    have ch: "K @ bd = wire bd" using K bdl by simp
    have "psk_client_hello P H ext exp mac k identity (l_sid s) (l_ks s) (K @ bd)"
    proof -
      have "take (length (K @ bd) - 35) (K @ bd) = take (length e - 35) e"
        using bdl by (simp add: eK)
      then have "bd = verify_data exp mac (Derive_Secret exp WC_SHA256 (psk_early ext k) ''ext binder'' (H WC_SHA256 []))
          (H WC_SHA256 (take (length (K @ bd) - 35) (K @ bd)))"
        by (simp add: bd_def th_def bk_def early_def)
      then show ?thesis
        unfolding psk_client_hello_def using ch l pl(2) unfolding wire_def by blast
    qed
    moreover have "take (unat (w_len w)) (K @ bd @ drop (length e) (w_buf w)) = K @ bd"
      using wt(1) le bdl by simp
    moreover have "length e \<le> n" using True \<open>w_err w = 0 \<longleftrightarrow> length e \<le> n\<close> by simp
    ultimately show ?thesis
      using w wl ok ex dv rd fm wb True eh fr el bl bdl wt(1) lw le l hs_cryptoD(2,8) [OF c]
      by (simp add: psk_hello_def ok_def ends_Some psk_ok_def hs_ok_def th_def mem_write_all early_def psk_fresh_def mem_read_in)
  qed
qed

section \<open>The server's flight\<close>

text \<open>
  \<open>m0\<close> are the two hellos, \<open>S\<close> is the server's handshake traffic secret. The messages accepted so far
  are exactly those of the transcript.
\<close>

definition psk_flight_inv ::
    "'o wc \<Rightarrow> (hash_id \<Rightarrow> bytes \<Rightarrow> bytes) \<Rightarrow> (hash_id \<Rightarrow> 'o \<Rightarrow> bytes \<Rightarrow> bool) \<Rightarrow> hkdf_expand \<Rightarrow> (hash_id \<Rightarrow> bytes \<Rightarrow> bytes \<Rightarrow> bytes) \<Rightarrow>
     nat \<Rightarrow> bytes \<Rightarrow> ('o, 'io) psk_locals \<Rightarrow> ('o, 'io) psk_locals \<Rightarrow> bool" where
  "psk_flight_inv P H ab exp mac n m0 s0 s \<longleftrightarrow> psk_ok P n s \<and> p_accOff s \<le> l_accLen s \<and> unat (l_accLen s) \<le> 512 \<and>
     l_sHs s = l_sHs s0 \<and> l_hs s = l_hs s0 \<and> l_emptyHash s = l_emptyHash s0 \<and>
     (if l_done s then \<exists>ee. enc_ext_msg False ee \<and> said P H ab s (m0 @ ee @ finished_msg H exp mac (l_sHs s0) (m0 @ ee))
      else if l_gotEE s then \<exists>ee. enc_ext_msg False ee \<and> said P H ab s (m0 @ ee)
      else said P H ab s m0)"

lemma flight_inv_cong:
  assumes "psk_flight_inv P H ab exp mac n m0 s0 s" and "psk_ok P n s'" and "p_accOff s' \<le> l_accLen s'"
    and "unat (l_accLen s') \<le> 512" and "l_tc s' = l_tc s" and "l_done s' = l_done s" and "l_gotEE s' = l_gotEE s"
    and "l_sHs s' = l_sHs s" and "l_hs s' = l_hs s" and "l_emptyHash s' = l_emptyHash s"
  shows "psk_flight_inv P H ab exp mac n m0 s0 s'"
  using assms unfolding psk_flight_inv_def said_def by (simp cong: if_cong)

lemma psk_enc_ext_ends:
  assumes inv: "psk_flight_inv P H ab exp mac n m0 s0 s" and "\<not> l_done s"
    and l: "unat st + 4 + unat mLen \<le> 512" "unat mLen < 2 ^ 24"
    and m: "take (unat mLen + 4) (drop (unat st) (p_plain s)) = [8] @ be_bytes 3 (unat mLen) @ take (unat mLen) (drop (unat st + 4) (p_plain s))"
  shows "ends (psk_ok P n) (\<lambda>s'. psk_flight_inv P H ab exp mac n m0 s0 s' \<and> p_accOff s' = p_accOff s \<and> l_accLen s' = l_accLen s \<and> l_io s' = l_io s)
    (psk_enc_ext P st mLen s)"
proof (cases "l_gotEE s")
  case True
  then show ?thesis
    using inv by (simp add: psk_enc_ext_def ends_Some psk_flight_inv_def)
next
  case False
  then have sd: "said P H ab s m0" and pl: "length (p_plain s) = 512"
    using inv assms(2) by (simp_all add: psk_flight_inv_def psk_ok_def)
  let ?msg = "take (unat mLen + 4) (drop (unat st) (p_plain s))"
  have "unat mLen \<le> length (drop (unat st + 4) (p_plain s))" using l pl by simp
  from CheckEncExt_msg [OF this l(2), of False] obtain ret
    where ck: "wn_CheckEncExt (drop (unat st + 4) (p_plain s)) mLen False = Some ret" "ret \<le> 0"
      "ret = 0 \<Longrightarrow> enc_ext_msg False ?msg"
    unfolding m by blast
  have u: "unat (mLen + 4) = unat mLen + 4"
    using l by (simp add: unat_add_no_wrap)
  have "unat (mLen + 4) \<le> length (drop (unat st) (p_plain s))" using l pl u by simp
  from update_said [OF sd this] obtain tc where up: "hs_update P (drop (unat st) (p_plain s)) (mLen + 4) s = Some (0, s\<lparr>l_tc := tc\<rparr>)"
    and sd': "said P H ab (s\<lparr>l_tc := tc\<rparr>) (m0 @ ?msg)" unfolding u by blast
  have "psk_ok P n s" using inv by (simp add: psk_flight_inv_def)
  then have ok: "psk_ok P n (s\<lparr>l_gotEE := True\<rparr>)" "psk_ok P n (s\<lparr>l_tc := tc, l_gotEE := True\<rparr>)"
    by (simp_all add: psk_ok_def hs_ok_def)
  have nd: "psk_flight_inv P H ab exp mac n m0 s0 (s\<lparr>l_tc := tc, l_gotEE := True\<rparr>)" if "ret = 0"
    using inv sd' ck(3) [OF that] assms(2) ok(2) by (auto simp: psk_flight_inv_def said_def)
  then show ?thesis
    using False ck up ok by (cases "ret = 0") (simp_all add: psk_enc_ext_def ends_Some ok_def)
qed

lemma psk_finished_ends:
  assumes c: "hs_crypto P H ab ext exp mac" and inv: "psk_flight_inv P H ab exp mac n m0 s0 s" and "\<not> l_done s"
    and l: "unat st + 4 + unat mLen \<le> 512" and S: "length (l_sHs s0) = 32"
    and m: "take (unat mLen + 4) (drop (unat st) (p_plain s)) = [20] @ be_bytes 3 (unat mLen) @ take (unat mLen) (drop (unat st + 4) (p_plain s))"
  shows "ends (psk_ok P n) (\<lambda>s'. psk_flight_inv P H ab exp mac n m0 s0 s' \<and> p_accOff s' = p_accOff s \<and> l_accLen s' = l_accLen s \<and> l_io s' = l_io s)
    (psk_finished P st mLen s)"
proof (cases "l_gotEE s \<and> mLen = 32")
  case False
  then show ?thesis
    using inv by (auto simp: psk_finished_def ends_Some psk_flight_inv_def fail_if_def ok_def)
next
  case True
  then obtain ee where ee: "enc_ext_msg False ee" and sd: "said P H ab s (m0 @ ee)"
    using inv assms(3) by (auto simp: psk_flight_inv_def)
  have ok: "psk_ok P n s" and sH: "l_sHs s = l_sHs s0" using inv by (simp_all add: psk_flight_inv_def)
  then have len: "length (l_th s) = 32" "length (p_plain s) = 512" "length (p_recvMac s) = 32" "length (l_mac s) = 32"
    by (simp_all add: psk_ok_def hs_ok_def)
  have ml: "unat mLen = 32" "mLen = 32" using True by simp_all
  let ?h = "H WC_SHA256 (m0 @ ee)" and ?V = "verify_data exp mac (l_sHs s0) (H WC_SHA256 (m0 @ ee))"
  let ?rm = "take 32 (drop (unat st + 4) (p_plain s))"
  obtain tc where g: "hs_get_hash P s = Some (0, s\<lparr>l_tc := tc, l_th := ?h\<rparr>)" and sd1: "said P H ab (s\<lparr>l_tc := tc, l_th := ?h\<rparr>) (m0 @ ee)"
    using get_hash_said [OF sd len(1)] by blast
  let ?s1 = "s\<lparr>l_tc := tc, l_th := ?h\<rparr>"
  have ok1: "hs_ok P n ?s1" using ok hs_cryptoD(8) [OF c] by (simp add: psk_ok_def hs_ok_def)
  have fm: "hs_finished_mac P (l_sHs ?s1) ?s1 = Some (0, ?s1\<lparr>l_mac := ?V\<rparr>)"
    using finished_mac_eq [OF c ok1, of "l_sHs s0"] S sH by simp
  have vl: "length ?V = 32" by (rule verify_data_length [OF c])
  have rl: "length ?rm = 32" using len(2) l ml by simp
  have cmp: "ConstantCompare P ?V ?rm = 0 \<longleftrightarrow> ?V = ?rm"
    using hs_cryptoD(7) [OF c] vl rl unfolding compare_ok_def by metis
  let ?s2 = "s\<lparr>l_tc := tc, l_th := ?h, l_mac := ?V, p_recvMac := ?rm\<rparr>"
  have ok2: "psk_ok P n ?s2" using ok hs_cryptoD(8) [OF c] vl rl by (simp add: psk_ok_def hs_ok_def)
  have start: "psk_finished P st mLen s = (fail_if (ConstantCompare P ?V ?rm \<noteq> 0) WOLFNANO_E_BAD_MAC ?s2 \<bind> ok (\<lambda>s.
       hs_update P (drop (unat st) (p_plain s)) (mLen + 4) s \<bind> (\<lambda>(ret, s). Some (ret, s\<lparr>l_done := True\<rparr>))))"
    unfolding psk_finished_def fail_if_def [of "\<not> l_gotEE s \<or> mLen \<noteq> 32"]
    using True g fm len l ml vl rl by (simp add: ok_def mem_read_in mem_write_in sH)
  show ?thesis
  proof (cases "?V = ?rm")
    case False
    then show ?thesis
      unfolding start using ok2 cmp by (simp add: fail_if_def ok_def ends_Some)
  next
    case eq: True
    have "unat (mLen + 4) \<le> length (drop (unat st) (p_plain ?s2))" using l ml len by simp
    moreover have "said P H ab ?s2 (m0 @ ee)" using sd1 by (simp add: said_def)
    ultimately obtain tc' where up: "hs_update P (drop (unat st) (p_plain ?s2)) (mLen + 4) ?s2 = Some (0, ?s2\<lparr>l_tc := tc'\<rparr>)"
      and sd3: "said P H ab (?s2\<lparr>l_tc := tc'\<rparr>) ((m0 @ ee) @ take (unat (mLen + 4)) (drop (unat st) (p_plain ?s2)))"
      using update_said by blast
    have "take (unat (mLen + 4)) (drop (unat st) (p_plain ?s2)) = finished_msg H exp mac (l_sHs s0) (m0 @ ee)"
      using m ml eq by (simp add: finished_msg_def)
    then have "said P H ab (s\<lparr>l_tc := tc', l_th := ?h, l_mac := ?V, p_recvMac := ?rm, l_done := True\<rparr>)
        (m0 @ ee @ finished_msg H exp mac (l_sHs s0) (m0 @ ee))"
      using sd3 by (simp add: said_def)
    then have "psk_flight_inv P H ab exp mac n m0 s0 (?s2\<lparr>l_tc := tc', l_done := True\<rparr>)"
      using inv ok2 ee by (auto simp: psk_flight_inv_def psk_ok_def hs_ok_def said_def)
    moreover from this have "psk_ok P n (?s2\<lparr>l_tc := tc', l_done := True\<rparr>)" by (simp add: psk_flight_inv_def)
    ultimately show ?thesis
      unfolding start using up eq cmp by (simp add: fail_if_def ok_def ends_Some)
  qed
qed

lemma psk_msg_runs:
  assumes c: "hs_crypto P H ab ext exp mac" and inv: "psk_flight_inv P H ab exp mac n m0 s0 s" and nd: "\<not> l_done s"
    and four: "4 \<le> l_accLen s - p_accOff s" and S: "length (l_sHs s0) = 32"
  shows "runs (psk_msg P s) (\<lambda>(ret, brk, s'). ret \<le> 0 \<and> psk_ok P n s' \<and> (ret = 0 \<longrightarrow>
    psk_flight_inv P H ab exp mac n m0 s0 s' \<and> l_accLen s' = l_accLen s \<and> l_io s' = l_io s \<and> (\<not> brk \<longrightarrow> p_accOff s < p_accOff s')))"
proof -
  let ?o = "unat (p_accOff s)" and ?b = "p_plain s"
  have ok: "psk_ok P n s" and le: "p_accOff s \<le> l_accLen s" and acc: "unat (l_accLen s) \<le> 512"
    using inv by (simp_all add: psk_flight_inv_def)
  have pl: "length ?b = 512" using ok by (simp add: psk_ok_def)
  have o4: "?o + 4 \<le> unat (l_accLen s)"
    using four le by (simp add: word_le_nat_alt unat_sub_no_wrap)
  then have u: "unat (p_accOff s + 1) = ?o + 1" "unat (p_accOff s + 2) = ?o + 2" "unat (p_accOff s + 3) = ?o + 3" "unat (p_accOff s + 4) = ?o + 4"
    using acc by (simp_all add: unat_add_no_wrap)
  define mLen where "mLen = msg_length (?b ! (?o + 1)) (?b ! (?o + 2)) (?b ! (?o + 3))"
  have ml: "unat mLen < 2 ^ 24" unfolding mLen_def by (rule unat_msg_length(3))
  have ue: "unat (p_accOff s + 4 + mLen) = ?o + 4 + unat mLen"
    using o4 acc ml u(4) by (simp add: unat_add_no_wrap)
  have m: "take (unat mLen + 4) (drop ?o ?b) = [?b ! ?o] @ be_bytes 3 (unat mLen) @ take (unat mLen) (drop (?o + 4) ?b)"
    by (rule message_in_buffer) (use o4 acc pl in \<open>simp_all add: mLen_def\<close>)
  have start: "psk_msg P s = (if p_accOff s + 4 + mLen > 512 then Some (WOLFNANO_E_DECODE, True, s)
     else if p_accOff s + 4 + mLen > l_accLen s then Some (WOLFNANO_SUCCESS, True, s)
     else let s' = s\<lparr>p_accOff := p_accOff s + (4 + mLen)\<rparr> in
       (if ?b ! ?o = WN_HS_ENCRYPTED_EXT then psk_enc_ext P (p_accOff s) mLen s'
        else if ?b ! ?o = WN_HS_FINISHED then psk_finished P (p_accOff s) mLen s'
        else Some (WOLFNANO_E_UNEXPECTED_MSG, s')) \<bind> (\<lambda>(ret, s). Some (ret, False, s)))"
    using o4 acc pl by (simp add: psk_msg_def mem_get_in u mLen_def msg_length_def Let_def)
  show ?thesis
  proof (cases "p_accOff s + 4 + mLen > 512 \<or> p_accOff s + 4 + mLen > l_accLen s")
    case True
    then show ?thesis unfolding start using ok inv by auto
  next
    case False
    let ?s = "s\<lparr>p_accOff := p_accOff s + (4 + mLen)\<rparr>"
    have e: "?o + 4 + unat mLen \<le> unat (l_accLen s)"
      using False unfolding de_Morgan_disj not_less word_le_nat_alt ue by blast
    have "p_accOff ?s \<le> l_accLen s" using False by (simp add: not_less add.assoc)
    moreover have ok': "psk_ok P n ?s" using ok by (simp add: psk_ok_def hs_ok_def)
    ultimately have inv': "psk_flight_inv P H ab exp mac n m0 s0 ?s"
      using inv nd by (cases "l_gotEE s") (simp_all add: psk_flight_inv_def said_def)
    have nd': "\<not> l_done ?s" using nd by simp
    have lim: "unat (p_accOff s) + 4 + unat mLen \<le> 512" using e acc by simp
    have "unat (p_accOff s + 4 + mLen) = unat (p_accOff s + (4 + mLen))" by (simp add: add.assoc)
    then have gt: "p_accOff s < p_accOff ?s" using ue by (simp add: word_less_nat_alt)
    let ?B = "\<lambda>s'. psk_flight_inv P H ab exp mac n m0 s0 s' \<and> p_accOff s' = p_accOff ?s \<and> l_accLen s' = l_accLen ?s \<and> l_io s' = l_io ?s"
    have "ends (psk_ok P n) ?B
       (if ?b ! ?o = WN_HS_ENCRYPTED_EXT then psk_enc_ext P (p_accOff s) mLen ?s
        else if ?b ! ?o = WN_HS_FINISHED then psk_finished P (p_accOff s) mLen ?s
        else Some (WOLFNANO_E_UNEXPECTED_MSG, ?s))"
      using psk_enc_ext_ends [OF inv' nd' lim ml] psk_finished_ends [OF c inv' nd' lim S] m ok'
      by (auto simp: ends_Some)
    then obtain ret s' where "(if ?b ! ?o = WN_HS_ENCRYPTED_EXT then psk_enc_ext P (p_accOff s) mLen ?s
        else if ?b ! ?o = WN_HS_FINISHED then psk_finished P (p_accOff s) mLen ?s
        else Some (WOLFNANO_E_UNEXPECTED_MSG, ?s)) = Some (ret, s')" "ret \<le> 0" "psk_ok P n s'" "ret = 0 \<longrightarrow> ?B s'"
      unfolding ends_def by (rule runs2E) blast
    then show ?thesis
      unfolding start Let_def using False gt by auto
  qed
qed

lemma psk_msgs_ends:
  assumes c: "hs_crypto P H ab ext exp mac" and S: "length (l_sHs s0) = 32"
  shows "psk_flight_inv P H ab exp mac n m0 s0 s \<Longrightarrow> ends (psk_ok P n) (\<lambda>s'. psk_flight_inv P H ab exp mac n m0 s0 s' \<and> l_io s' = l_io s) (psk_msgs P s)"
proof (induction "unat (l_accLen s) - unat (p_accOff s)" arbitrary: s rule: less_induct)
  case less
  have ok: "psk_ok P n s" using less.prems by (simp add: psk_flight_inv_def)
  show ?case
  proof (cases "\<not> l_done s \<and> l_accLen s - p_accOff s \<ge> 4")
    case False
    then show ?thesis
      using less.prems ok by (subst psk_msgs.simps) (auto simp: ends_Some)
  next
    case True
    then have nd: "\<not> l_done s" and four: "4 \<le> l_accLen s - p_accOff s" by simp_all
    obtain ret brk s' where e: "psk_msg P s = Some (ret, brk, s')" and r: "ret \<le> 0" "psk_ok P n s'"
      "ret = 0 \<longrightarrow> psk_flight_inv P H ab exp mac n m0 s0 s' \<and> l_accLen s' = l_accLen s \<and> l_io s' = l_io s \<and> (\<not> brk \<longrightarrow> p_accOff s < p_accOff s')"
      by (rule runs3E [OF psk_msg_runs [OF c less.prems nd four S]]) blast
    have st: "psk_msgs P s = (if brk \<or> ret \<noteq> 0 then Some (ret, s') else psk_msgs P s')"
      using True e by (subst psk_msgs.simps) simp
    show ?thesis
    proof (cases "brk \<or> ret \<noteq> 0")
      case True
      then show ?thesis unfolding st using r by (auto simp: ends_Some)
    next
      case False
      with r have i: "psk_flight_inv P H ab exp mac n m0 s0 s'" and a: "l_accLen s' = l_accLen s" "p_accOff s < p_accOff s'" "l_io s' = l_io s" by auto
      have "p_accOff s' \<le> l_accLen s'" using i by (simp add: psk_flight_inv_def)
      then have "unat (l_accLen s') - unat (p_accOff s') < unat (l_accLen s) - unat (p_accOff s)"
        using a by (simp add: word_less_nat_alt word_le_nat_alt)
      from less.hyps [OF this i] show ?thesis
        unfolding st using False a(3) by simp
    qed
  qed
qed

lemma psk_record_runs:
  assumes c: "hs_crypto P H ab ext exp mac" and S: "length (l_sHs s0) = 32" and io: "io_ok send recv avail"
    and cap: "unat cap = n" "5 \<le> n" and inv: "psk_flight_inv P H ab exp mac n m0 s0 s" and nd: "\<not> l_done s"
  shows "runs (psk_record P recv cap s) (\<lambda>(ret, s'). ret \<le> 0 \<and> psk_ok P n s' \<and>
    (ret = 0 \<longrightarrow> psk_flight_inv P H ab exp mac n m0 s0 s' \<and> avail (l_io s') < avail (l_io s)))"
proof -
  have ok: "psk_ok P n s" and acc: "unat (l_accLen s) \<le> 512" and ao: "p_accOff s \<le> l_accLen s"
    using inv by (simp_all add: psk_flight_inv_def)
  have n: "n \<le> length (l_scratch s)" and pl: "length (p_plain s) = 512" "length (l_sKey s) = 16" "length (l_sIv s) = 12"
    using ok by (simp_all add: psk_ok_def hs_ok_def)
  have rv: "recv_ok recv" using io by (simp add: io_ok_def)
  have sz: "5 \<le> length (l_scratch s)" "unat cap \<le> length (l_scratch s)" using n cap by simp_all
  obtain ret scr ty rl io' where e: "wn_RecvRecord recv (l_io s) (l_scratch s) cap (l_rtype s) (l_recLen s) = Some (ret, scr, ty, rl, io')"
    and r: "length scr = length (l_scratch s)" "ret \<in> {0, WOLFNANO_E_CRYPTO, WOLFNANO_E_DECODE}"
      "ret = 0 \<longrightarrow> unat rl \<le> unat cap"
    by (rule runs5E [OF RecvRecord_safe [OF rv sz, of "l_io s" "l_rtype s" "l_recLen s"]]) blast
  have av: "ret = 0 \<Longrightarrow> avail io' < avail (l_io s)" using RecvRecord_avail [OF io e] by simp
  let ?s = "s\<lparr>l_scratch := scr, l_rtype := ty, l_recLen := rl, l_io := io'\<rparr>"
  have ok1: "psk_ok P n ?s" using ok r(1) by (simp add: psk_ok_def hs_ok_def)
  have inv1: "psk_flight_inv P H ab exp mac n m0 s0 ?s"
    using inv ok1 nd by (cases "l_gotEE s") (simp_all add: psk_flight_inv_def said_def)
  have start: "psk_record P recv cap s = (if ret = 0 \<and> ty = WN_REC_CHANGE_CIPHER then Some (0, ?s)
     else
       ok (\<lambda>s. fail_if (ty \<noteq> WN_REC_APPDATA) WOLFNANO_E_UNEXPECTED_MSG s) (ret, ?s) \<bind>
       ok (\<lambda>s. fail_if (rl < 5 + 16 \<or> rl - 5 - 16 > 512 - l_accLen s) WOLFNANO_E_DECODE s) \<bind>
       ok (\<lambda>s.
         wn_Record_Unprotect P (Some (drop (unat (l_accLen s)) (p_plain s))) (Some (l_plainLen s)) (Some (l_ctype s))
           (Some (l_sKey s)) 16 (Some (l_sIv s)) (l_sSeq s) (Some (l_scratch s)) rl \<bind> (\<lambda>(ret, pl, n, ct).
         n \<bind> (\<lambda>n. ct \<bind> (\<lambda>ct.
         Some (ret, s\<lparr>p_plain := take (unat (l_accLen s)) (p_plain s) @ pl, l_plainLen := n, l_ctype := ct,
                      l_sSeq := l_sSeq s + 1\<rparr>))))) \<bind>
       ok (\<lambda>s. fail_if (l_ctype s \<noteq> WN_REC_HANDSHAKE) WOLFNANO_E_UNEXPECTED_MSG s) \<bind>
       ok (\<lambda>s. psk_msgs P (s\<lparr>l_accLen := l_accLen s + l_plainLen s\<rparr>)))"
    unfolding psk_record_def e by (simp add: Let_def)
  show ?thesis
  proof (cases "ret = 0 \<and> ty = WN_REC_CHANGE_CIPHER")
    case True
    then show ?thesis unfolding start using ok1 inv1 av by simp
  next
    case False
    let ?I = "psk_flight_inv P H ab exp mac n m0 s0"
    let ?A = "\<lambda>s'. s' = ?s"
    let ?U = "\<lambda>s'. psk_ok P n s' \<and> ?I s' \<and> \<not> l_done s' \<and> l_io s' = io' \<and> unat (l_accLen s') + unat (l_plainLen s') \<le> 512"
    have "ends (psk_ok P n) (\<lambda>s'. ?I s' \<and> l_io s' = io')
      (ok (\<lambda>s. fail_if (ty \<noteq> WN_REC_APPDATA) WOLFNANO_E_UNEXPECTED_MSG s) (ret, ?s) \<bind>
       ok (\<lambda>s. fail_if (rl < 5 + 16 \<or> rl - 5 - 16 > 512 - l_accLen s) WOLFNANO_E_DECODE s) \<bind>
       ok (\<lambda>s.
         wn_Record_Unprotect P (Some (drop (unat (l_accLen s)) (p_plain s))) (Some (l_plainLen s)) (Some (l_ctype s))
           (Some (l_sKey s)) 16 (Some (l_sIv s)) (l_sSeq s) (Some (l_scratch s)) rl \<bind> (\<lambda>(ret, pl, n, ct).
         n \<bind> (\<lambda>n. ct \<bind> (\<lambda>ct.
         Some (ret, s\<lparr>p_plain := take (unat (l_accLen s)) (p_plain s) @ pl, l_plainLen := n, l_ctype := ct,
                      l_sSeq := l_sSeq s + 1\<rparr>))))) \<bind>
       ok (\<lambda>s. fail_if (l_ctype s \<noteq> WN_REC_HANDSHAKE) WOLFNANO_E_UNEXPECTED_MSG s) \<bind>
       ok (\<lambda>s. psk_msgs P (s\<lparr>l_accLen := l_accLen s + l_plainLen s\<rparr>)))"
    proof (rule ends_ok [where B = ?U], rule ends_ok [where B = ?U],
        rule ends_ok [where B = "\<lambda>s'. ?A s' \<and> ret = 0 \<and> unat rl \<le> 533 - unat (l_accLen s)"], rule ends_ok [where B = "\<lambda>s'. ?A s' \<and> ret = 0"], goal_cases)
      case 1
      then show ?case using ok1 r(2) by (auto simp: ok_def fail_if_def ends_Some)
    next
      case (2 s')
      have "unat (512 - l_accLen s) = 512 - unat (l_accLen s)"
        using acc by (simp add: unat_sub_no_wrap word_le_nat_alt)
      then have "\<not> (rl < 5 + 16 \<or> rl - 5 - 16 > 512 - l_accLen s) \<Longrightarrow> unat rl \<le> 533 - unat (l_accLen s)"
        using acc by (auto simp: not_less word_le_nat_alt unat_sub_no_wrap diff_diff_eq)
      then show ?case
        using 2 ok1 by (auto intro!: ends_fail_if)
    next
      case (3 s')
      then have s': "s' = ?s" and rl: "unat rl \<le> 533 - unat (l_accLen s)" and r0: "ret = 0" by simp_all
      have "unat rl \<le> length scr" "unat rl \<le> length (drop (unat (l_accLen s)) (p_plain s)) + 21"
        using r(1,3) r0 sz rl pl(1) by simp_all
      then obtain ret' p' cl ct where u: "wn_Record_Unprotect P (Some (drop (unat (l_accLen s)) (p_plain s))) (Some (l_plainLen s)) (Some (l_ctype s))
           (Some (l_sKey s)) 16 (Some (l_sIv s)) (l_sSeq s) (Some scr) rl = Some (ret', p', cl, ct)"
        and r': "ret' \<le> 0" "length p' = length (drop (unat (l_accLen s)) (p_plain s))"
          "\<exists>l t. cl = Some l \<and> ct = Some t \<and> (ret' = 0 \<longrightarrow> unat l + 21 < unat rl)"
        by (rule runs4E [OF Unprotect_flight [OF hs_cryptoD(5) [OF c] pl(2,3), of rl scr _ "l_plainLen s" "l_ctype s" "l_sSeq s"]]) blast+
      from r'(3) obtain l t where cl: "cl = Some l" "ct = Some t" "ret' = 0 \<longrightarrow> unat l + 21 < unat rl" by blast
      let ?s2 = "?s\<lparr>p_plain := take (unat (l_accLen s)) (p_plain s) @ p', l_plainLen := l, l_ctype := t, l_sSeq := l_sSeq s + 1\<rparr>"
      have "psk_ok P n ?s2" using ok1 acc pl(1) r'(2) by (simp add: psk_ok_def hs_ok_def)
      moreover from this have "?I ?s2" using inv1 nd by (cases "l_gotEE s") (simp_all add: psk_flight_inv_def said_def)
      ultimately show ?case
        using s' u r'(1) cl rl nd by (auto simp: ends_Some)
    next
      case (4 s')
      then show ?case by (auto intro!: ends_fail_if)
    next
      case (5 s')
      let ?s2 = "s'\<lparr>l_accLen := l_accLen s' + l_plainLen s'\<rparr>"
      have ua: "unat (l_accLen ?s2) = unat (l_accLen s') + unat (l_plainLen s')"
        using 5 by (simp add: unat_add_no_wrap)
      have "psk_ok P n ?s2" using 5(1) by (simp add: psk_ok_def hs_ok_def)
      moreover have "p_accOff s' \<le> l_accLen ?s2"
        using 5(2) ua by (auto simp: psk_flight_inv_def word_le_nat_alt)
      ultimately have "?I ?s2"
        using 5(2) ua by (intro flight_inv_cong [of P H ab exp mac n m0 s0 s' ?s2]) auto
      from psk_msgs_ends [OF c S this] show ?case
        using 5(2) by simp
    qed
    then have "runs (psk_record P recv cap s) (\<lambda>(ret, s'). ret \<le> 0 \<and> psk_ok P n s' \<and> (ret = 0 \<longrightarrow> ?I s' \<and> l_io s' = io'))"
      unfolding start ends_def if_not_P [OF False] .
    moreover have "psk_record P recv cap s = Some (ret, ?s)" if "ret \<noteq> 0"
      unfolding start using that by (simp add: ok_def)
    ultimately show ?thesis
      using av by (cases "ret = 0") (auto elim!: runs_mono)
  qed
qed

lemma psk_flight_ends:
  assumes c: "hs_crypto P H ab ext exp mac" and S: "length (l_sHs s0) = 32" and io: "io_ok send recv avail"
    and cap: "unat cap = n" "5 \<le> n"
  shows "psk_flight_inv P H ab exp mac n m0 s0 s \<Longrightarrow>
    ends (psk_ok P n) (\<lambda>s'. psk_flight_inv P H ab exp mac n m0 s0 s' \<and> l_done s') (psk_flight P recv cap s)"
proof (induction "avail (l_io s)" arbitrary: s rule: less_induct)
  case less
  show ?case
  proof (cases "l_done s")
    case True
    then show ?thesis
      using less.prems by (subst psk_flight.simps) (simp add: ends_Some psk_flight_inv_def)
  next
    case False
    obtain ret s' where e: "psk_record P recv cap s = Some (ret, s')" and r: "ret \<le> 0" "psk_ok P n s'"
      "ret = 0 \<longrightarrow> psk_flight_inv P H ab exp mac n m0 s0 s' \<and> avail (l_io s') < avail (l_io s)"
      by (rule runs2E [OF psk_record_runs [OF c S io cap less.prems False]]) blast
    have st: "psk_flight P recv cap s = (if ret \<noteq> 0 then Some (ret, s') else psk_flight P recv cap s')"
      using False e by (subst psk_flight.simps) simp
    show ?thesis
    proof (cases "ret = 0")
      case True
      with r less.hyps [of s'] show ?thesis unfolding st by simp
    next
      case False
      with r show ?thesis unfolding st by (simp add: ends_Some)
    qed
  qed
qed

section \<open>The whole handshake\<close>

text \<open>
  What a successful PSK handshake has established: an own ClientHello \<open>ch\<close> with a valid binder and the
  share of an own key pair \<open>ks\<close>, a ServerHello that answers it and selects the identity, acceptable EncryptedExtensions, and a
  Finished message that is the MAC over all of it under the server's handshake traffic secret. The
  session keys are those of the schedule of RFC 8446 over the pre-shared key, the agreed secret
  and these four messages.
\<close>

definition psk_authentic ::
    "'o wc \<Rightarrow> (hash_id \<Rightarrow> bytes \<Rightarrow> bytes) \<Rightarrow> hkdf_extract \<Rightarrow> hkdf_expand \<Rightarrow> (hash_id \<Rightarrow> bytes \<Rightarrow> bytes \<Rightarrow> bytes) \<Rightarrow> bytes \<Rightarrow> bytes \<Rightarrow>
     'io wn_IoSend \<Rightarrow> 'io wn_IoRecv \<Rightarrow> nat \<Rightarrow> bytes \<Rightarrow> word32 \<Rightarrow> 'io wn_Session \<Rightarrow> bool" where
  "psk_authentic P H ext exp mac k identity send recv ctx scr cap sess \<longleftrightarrow>
     (\<exists>sid ks ch m share ee. let eh = H WC_SHA256 [];
          Hs = next_stage ext exp eh (psk_early ext k) (share_secret P ks share);
          S = traffic_secret exp Hs ''s hs traffic'' (H WC_SHA256 (ch @ enc_sh m));
          fin = finished_msg H exp mac S (ch @ enc_sh m @ ee) in
        psk_client_hello P H ext exp mac k identity sid ks ch \<and> server_answer P 0 sid m share \<and> enc_ext_msg False ee \<and>
        sess = app_session ext exp eh Hs (H WC_SHA256 (ch @ enc_sh m @ ee @ fin)) send recv ctx scr cap)"

lemma psk_keys_eq:
  assumes c: "hs_crypto P H ab ext exp mac" and ok: "hs_ok P n s" and "l_ssLen s = WN_DEFAULT_SECRET_SZ P" and sd: "said P H ab s m0"
    and Hs: "Hs = next_stage ext exp (l_emptyHash s) (l_early s) (l_ecdhe s)"
    and S: "S = traffic_secret exp Hs ''s hs traffic'' (H WC_SHA256 m0)"
    and C: "C = traffic_secret exp Hs ''c hs traffic'' (H WC_SHA256 m0)"
  shows "\<exists>s'. psk_keys P s = Some (0, s') \<and> hs_keeps P n s s' \<and> same_hello s s' \<and> l_hs s' = Hs \<and> l_sHs s' = S \<and> said P H ab s' m0 \<and>
    l_io s' = l_io s \<and> l_sKey s' = secret_key exp S \<and> l_sIv s' = secret_iv exp S \<and> l_cHs s' = C \<and> l_cKey s' = secret_key exp C \<and>
    l_cIv s' = secret_iv exp C"
proof -
  have "length (l_th s) = 32" using ok by (simp add: hs_ok_def)
  from get_hash_said [OF sd this] obtain tc where g: "hs_get_hash P s = Some (0, s\<lparr>l_tc := tc, l_th := H WC_SHA256 m0\<rparr>)"
    and sd': "said P H ab (s\<lparr>l_tc := tc, l_th := H WC_SHA256 m0\<rparr>) m0" by blast
  let ?s = "s\<lparr>l_tc := tc, l_th := H WC_SHA256 m0\<rparr>"
  have ok': "hs_ok P n ?s" using ok hs_cryptoD(8) [OF c] by (simp add: hs_ok_def)
  have l: "l_ssLen ?s = WN_DEFAULT_SECRET_SZ P" using assms(3) by simp
  have Hs': "Hs = next_stage ext exp (l_emptyHash ?s) (l_early ?s) (l_ecdhe ?s)" using Hs by simp
  have S': "S = traffic_secret exp Hs ''s hs traffic'' (l_th ?s)" using S by simp
  have C': "C = traffic_secret exp Hs ''c hs traffic'' (l_th ?s)" using C by simp
  note d = derive_eq [OF c ok' l Hs' C' S']
  show ?thesis
    using g d sd' by (simp add: psk_keys_def hs_keeps_def same_hello_def said_def)
qed

lemma keeps_fresh:
  assumes "hs_keeps P n s s'" and "psk_fresh s" and "l_gotEE s' = l_gotEE s" and "l_done s' = l_done s" and "l_accLen s' = l_accLen s"
  shows "psk_fresh s'"
  using assms psk_more(5) [of s' s] by (simp add: psk_fresh_def hs_keeps_def)

text \<open>The states between the phases, named after what has been reached.\<close>

definition psk_hello_sent ::
    "'o wc \<Rightarrow> (hash_id \<Rightarrow> bytes \<Rightarrow> bytes) \<Rightarrow> (hash_id \<Rightarrow> 'o \<Rightarrow> bytes \<Rightarrow> bool) \<Rightarrow> hkdf_extract \<Rightarrow> hkdf_expand \<Rightarrow> (hash_id \<Rightarrow> bytes \<Rightarrow> bytes \<Rightarrow> bytes) \<Rightarrow> bytes \<Rightarrow> bytes \<Rightarrow>
     ('o, 'io) psk_locals \<Rightarrow> bool" where
  "psk_hello_sent P H ab ext exp mac k identity s \<longleftrightarrow> l_emptyHash s = H WC_SHA256 [] \<and> psk_fresh s \<and>
     ks_group (l_ks s) = WN_DEFAULT_GROUP P \<and> l_early s = psk_early ext k \<and>
     (\<exists>ch. psk_client_hello P H ext exp mac k identity (l_sid s) (l_ks s) ch \<and> said P H ab s ch)"

definition psk_hellos ::
    "'o wc \<Rightarrow> (hash_id \<Rightarrow> bytes \<Rightarrow> bytes) \<Rightarrow> hkdf_extract \<Rightarrow> hkdf_expand \<Rightarrow> (hash_id \<Rightarrow> bytes \<Rightarrow> bytes \<Rightarrow> bytes) \<Rightarrow> bytes \<Rightarrow> bytes \<Rightarrow>
     'o wn_KeyShare \<Rightarrow> bytes \<Rightarrow> server_hello \<Rightarrow> bytes \<Rightarrow> bool" where
  "psk_hellos P H ext exp mac k identity ks ch m share \<longleftrightarrow>
     (\<exists>sid. psk_client_hello P H ext exp mac k identity sid ks ch \<and> server_answer P 0 sid m share)"

definition psk_agreed ::
    "'o wc \<Rightarrow> (hash_id \<Rightarrow> bytes \<Rightarrow> bytes) \<Rightarrow> (hash_id \<Rightarrow> 'o \<Rightarrow> bytes \<Rightarrow> bool) \<Rightarrow> hkdf_extract \<Rightarrow> hkdf_expand \<Rightarrow> (hash_id \<Rightarrow> bytes \<Rightarrow> bytes \<Rightarrow> bytes) \<Rightarrow> bytes \<Rightarrow> bytes \<Rightarrow>
     ('o, 'io) psk_locals \<Rightarrow> bool" where
  "psk_agreed P H ab ext exp mac k identity s \<longleftrightarrow> l_emptyHash s = H WC_SHA256 [] \<and> psk_fresh s \<and> l_early s = psk_early ext k \<and>
     l_ssLen s = WN_DEFAULT_SECRET_SZ P \<and>
     (\<exists>ch m share ks. psk_hellos P H ext exp mac k identity ks ch m share \<and> l_ecdhe s = share_secret P ks share \<and>
       said P H ab s (ch @ enc_sh m))"

definition psk_done ::
    "'o wc \<Rightarrow> (hash_id \<Rightarrow> bytes \<Rightarrow> bytes) \<Rightarrow> hkdf_extract \<Rightarrow> hkdf_expand \<Rightarrow> (hash_id \<Rightarrow> bytes \<Rightarrow> bytes \<Rightarrow> bytes) \<Rightarrow> bytes \<Rightarrow> bytes \<Rightarrow>
     ('o, 'io) psk_locals \<Rightarrow> bytes \<Rightarrow> bool" where
  "psk_done P H ext exp mac k identity s tr \<longleftrightarrow> l_emptyHash s = H WC_SHA256 [] \<and>
     (\<exists>ch m share ks ee S. psk_hellos P H ext exp mac k identity ks ch m share \<and> enc_ext_msg False ee \<and>
       l_hs s = next_stage ext exp (H WC_SHA256 []) (psk_early ext k) (share_secret P ks share) \<and>
       S = traffic_secret exp (l_hs s) ''s hs traffic'' (H WC_SHA256 (ch @ enc_sh m)) \<and>
       tr = ch @ enc_sh m @ ee @ finished_msg H exp mac S (ch @ enc_sh m @ ee))"

lemma psk_doneI:
  assumes "l_emptyHash s = H WC_SHA256 []" and "psk_hellos P H ext exp mac k identity ks ch m share" and "enc_ext_msg False ee"
    and "l_hs s = next_stage ext exp (H WC_SHA256 []) (psk_early ext k) (share_secret P ks share)"
    and "S = traffic_secret exp (l_hs s) ''s hs traffic'' (H WC_SHA256 (ch @ enc_sh m))"
  shows "psk_done P H ext exp mac k identity s (ch @ enc_sh m @ ee @ finished_msg H exp mac S (ch @ enc_sh m @ ee))"
  using assms unfolding psk_done_def by blast

lemma psk_done_authentic:
  assumes "psk_done P H ext exp mac k identity s tr" and "th = H WC_SHA256 tr"
  shows "psk_authentic P H ext exp mac k identity send recv ctx scr cap
    (app_session ext exp (l_emptyHash s) (l_hs s) th send recv ctx scr cap)"
  using assms unfolding psk_done_def psk_authentic_def psk_hellos_def Let_def by fastforce

lemma psk_keys_flight_ends:
  assumes c: "hs_crypto P H ab ext exp mac" and io: "io_ok send recv avail" and cap: "unat cap = n" "5 \<le> n"
    and ok: "psk_ok P n s" and ag: "psk_agreed P H ab ext exp mac k identity s"
  shows "ends (psk_ok P n) (\<lambda>s'. \<exists>tr. psk_done P H ext exp mac k identity s' tr \<and> said P H ab s' tr)
    (psk_keys P s \<bind> ok (psk_flight P recv cap))"
proof -
  obtain ch m share ks where hl: "psk_hellos P H ext exp mac k identity ks ch m share"
    and e: "l_ecdhe s = share_secret P ks share" and sd: "said P H ab s (ch @ enc_sh m)"
    using ag unfolding psk_agreed_def by blast
  have a: "l_emptyHash s = H WC_SHA256 []" "psk_fresh s" "l_early s = psk_early ext k" "l_ssLen s = WN_DEFAULT_SECRET_SZ P"
    using ag unfolding psk_agreed_def by blast+
  define Hs where "Hs = next_stage ext exp (l_emptyHash s) (l_early s) (l_ecdhe s)"
  define S where "S = traffic_secret exp Hs ''s hs traffic'' (H WC_SHA256 (ch @ enc_sh m))"
  obtain s1 where k: "psk_keys P s = Some (0, s1)" and kp: "hs_keeps P n s s1" "same_hello s s1" and s1: "l_hs s1 = Hs" "l_sHs s1 = S"
    and sd1: "said P H ab s1 (ch @ enc_sh m)"
    using psk_keys_eq [OF c psk_ok_hs [OF ok] a(4) sd Hs_def S_def refl] by blast
  have ok1: "psk_ok P n s1" by (rule keeps_psk_ok [OF kp(1) ok])
  have fr: "psk_fresh s1" using keeps_fresh [OF kp(1) a(2)] kp(2) by (simp add: same_hello_def)
  have eh: "l_emptyHash s1 = H WC_SHA256 []" using kp(2) a(1) by (simp add: same_hello_def)
  have Sl: "length (l_sHs s1) = 32" using ok1 by (simp add: psk_ok_def hs_ok_def)
  have "psk_flight_inv P H ab exp mac n (ch @ enc_sh m) s1 s1"
    using ok1 fr sd1 by (simp add: psk_flight_inv_def psk_fresh_def)
  from psk_flight_ends [OF c Sl io cap this] show ?thesis
    unfolding k ok_eq [OF refl]
  proof (rule ends_mono, goal_cases)
    case (2 s')
    then obtain ee where "enc_ext_msg False ee" and "said P H ab s' ((ch @ enc_sh m) @ ee @ finished_msg H exp mac (l_sHs s1) ((ch @ enc_sh m) @ ee))"
      and "l_hs s' = Hs" "l_emptyHash s' = H WC_SHA256 []"
      using s1 eh unfolding psk_flight_inv_def by (metis (no_types, lifting))
    then show ?case
      using psk_doneI [OF _ hl, of s' ee S] s1(2) a e by (auto simp: S_def Hs_def)
  qed
qed

lemma psk_hellos_ends:
  assumes c: "hs_crypto P H ab ext exp mac" and io: "io_ok send recv avail"
    and cap: "unat cap = n" "5 \<le> n" "n + 65536 < 2 ^ 32" and idn: "length identity \<le> 65535"
    and k: "pskLen \<noteq> 0" "unat pskLen \<le> length psk" "k = take (unat pskLen) psk"
    and ok: "psk_ok P n s" and fr: "psk_fresh s"
  shows "ends (psk_ok P n) (psk_agreed P H ab ext exp mac k identity)
    (psk_start P s \<bind> ok (hs_key_share P) \<bind> ok (psk_hello P psk pskLen identity cap) \<bind>
     ok (hs_send_hello P send) \<bind> ok (hs_server_hello P recv cap 0))"
proof (rule ends_ok [where B = "psk_hello_sent P H ab ext exp mac k identity"],
    rule ends_ok [where B = "\<lambda>s. l_emptyHash s = H WC_SHA256 [] \<and> psk_fresh s \<and> ks_group (l_ks s) = WN_DEFAULT_GROUP P \<and>
      l_early s = psk_early ext k \<and> unat (l_chLen s) \<le> n \<and> said P H ab s [] \<and>
      psk_client_hello P H ext exp mac k identity (l_sid s) (l_ks s) (take (unat (l_chLen s)) (l_scratch s))"],
    rule ends_ok [where B = "\<lambda>s. l_emptyHash s = H WC_SHA256 [] \<and> psk_fresh s \<and> own_share P (l_ks s) (l_cliPub s) \<and>
      l_pubLen s = WN_DEFAULT_PUB_SZ P \<and> said P H ab s []"],
    rule ends_ok [where B = "\<lambda>s. l_emptyHash s = H WC_SHA256 [] \<and> psk_fresh s"], goal_cases)
  case 1
  show ?case by (rule ends_mono [OF psk_start_ends [OF c ok fr]]) simp_all
next
  case (2 s)
  from key_share_ends [OF c psk_ok_hs [OF 2(1)]] show ?case
  proof (rule ends_mono, goal_cases)
    case (1 s')
    then show ?case using keeps_psk_ok 2(1) by blast
  next
    case (2 s')
    then have "psk_fresh s'" using keeps_fresh [of P n s s'] \<open>l_emptyHash s = H WC_SHA256 [] \<and> psk_fresh s\<close> by simp
    with 2 show ?case using \<open>l_emptyHash s = H WC_SHA256 [] \<and> psk_fresh s\<close> by simp
  qed
next
  case (3 s)
  then have "l_emptyHash s = H WC_SHA256 []" "psk_fresh s" "l_pubLen s = WN_DEFAULT_PUB_SZ P" "own_share P (l_ks s) (l_cliPub s)" by simp_all
  from psk_hello_ends [OF c 3(1) this(2,1,3,4) cap(1,3) idn k] show ?case
    by (rule ends_mono) (use 3 in \<open>simp_all add: said_def own_share_def\<close>)
next
  case (4 s)
  then have sd: "said P H ab s []" and l: "unat (l_chLen s) \<le> n" by simp_all
  from send_hello_ends [OF sd psk_ok_hs [OF 4(1)] l, of send] show ?case
  proof (rule ends_mono, goal_cases)
    case (1 s')
    then show ?case using keeps_psk_ok 4(1) by blast
  next
    case (2 s')
    then obtain tc io' where s': "s' = s\<lparr>l_tc := tc, l_io := io'\<rparr>" and "said P H ab s' (take (unat (l_chLen s)) (l_scratch s))"
      by auto
    then show ?case using 4(2) by (auto simp: psk_hello_sent_def psk_fresh_def)
  qed
next
  case (5 s)
  then obtain ch where ch: "psk_client_hello P H ext exp mac k identity (l_sid s) (l_ks s) ch" "said P H ab s ch"
    and g: "ks_group (l_ks s) = WN_DEFAULT_GROUP P" unfolding psk_hello_sent_def by blast
  have n: "unat cap \<le> n" and z: "(0 :: int) \<le> 0" using cap(1) by simp_all
  from server_hello_ends [OF c io psk_ok_hs [OF 5(1)] cap(2) n g ch(2) z] show ?case
  proof (rule ends_mono, goal_cases)
    case (1 s')
    then show ?case using keeps_psk_ok 5(1) by blast
  next
    case (2 s')
    then have fr: "psk_fresh s'" using keeps_fresh [of P n s s'] 5(2) by (simp add: psk_hello_sent_def same_hello_def)
    obtain m share where ms: "server_answer P 0 (l_sid s) m share" "said P H ab s' (ch @ enc_sh m)"
      "l_ecdhe s' = share_secret P (l_ks s) share" "l_ssLen s' = WN_DEFAULT_SECRET_SZ P" using 2(2) by blast
    then have "psk_hellos P H ext exp mac k identity (l_ks s) ch m share" using ch(1) unfolding psk_hellos_def by blast
    then show ?case
      using 2(2) ms fr 5(2) unfolding psk_agreed_def psk_hello_sent_def same_hello_def by metis
  qed
qed

lemma psk_run_result:
  fixes s :: "('o, 'io) psk_locals"
  assumes c: "hs_crypto P H ab ext exp mac" and io: "io_ok send recv avail"
    and cap: "unat cap = n" "58 \<le> n" "n + 65536 < 2 ^ 32" and idn: "length identity \<le> 65535"
    and k: "pskLen \<noteq> 0" "unat pskLen \<le> length psk" "k = take (unat pskLen) psk"
    and ok: "psk_ok P n s" and fr: "psk_fresh s"
  shows "\<exists>ret s'. psk_run P send recv ctx psk pskLen identity cap s = Some (ret, s') \<and> ret \<le> 0 \<and>
    psk_ok P n (s'\<lparr>l_sess := zero_session\<rparr>) \<and>
    (if ret = 0 then psk_authentic P H ext exp mac k identity send recv ctx (l_scratch s') cap (l_sess s')
     else l_sess s' = zero_session)"
proof -
  have n5: "5 \<le> n" using cap(2) by simp
  let ?R = "psk_start P s \<bind> ok (hs_key_share P) \<bind> ok (psk_hello P psk pskLen identity cap) \<bind>
     ok (hs_send_hello P send) \<bind> ok (hs_server_hello P recv cap 0) \<bind> ok (psk_keys P) \<bind> ok (psk_flight P recv cap) \<bind>
     ok (hs_client_finished P send)"
  have "ends (psk_ok P n) (\<lambda>s. \<exists>tr. psk_done P H ext exp mac k identity s tr \<and> l_th s = H WC_SHA256 tr) ?R"
  proof (rule ends_ok [where B = "\<lambda>s. \<exists>tr. psk_done P H ext exp mac k identity s tr \<and> said P H ab s tr"])
    show "ends (psk_ok P n) (\<lambda>s. \<exists>tr. psk_done P H ext exp mac k identity s tr \<and> said P H ab s tr)
     (psk_start P s \<bind> ok (hs_key_share P) \<bind> ok (psk_hello P psk pskLen identity cap) \<bind>
     ok (hs_send_hello P send) \<bind> ok (hs_server_hello P recv cap 0) \<bind> ok (psk_keys P) \<bind> ok (psk_flight P recv cap))"
      unfolding ok_assoc [of _ "psk_keys P"]
      by (rule ends_ok [OF psk_hellos_ends [OF c io cap(1) n5 cap(3) idn k ok fr] psk_keys_flight_ends [OF c io cap(1) n5]])
  next
    fix s1 :: "('o, 'io) psk_locals"
    assume "psk_ok P n s1" and "\<exists>tr. psk_done P H ext exp mac k identity s1 tr \<and> said P H ab s1 tr"
    then obtain tr where ok1: "psk_ok P n s1" and d: "psk_done P H ext exp mac k identity s1 tr" and sd: "said P H ab s1 tr" by blast
    from client_finished_ends [OF c psk_ok_hs [OF ok1] cap(2) sd, of send]
    show "ends (psk_ok P n) (\<lambda>s. \<exists>tr. psk_done P H ext exp mac k identity s tr \<and> l_th s = H WC_SHA256 tr) (hs_client_finished P send s1)"
    proof (rule ends_mono, goal_cases)
      case (1 s')
      then show ?case using keeps_psk_ok ok1 by blast
    next
      case (2 s')
      then have "psk_done P H ext exp mac k identity s' tr" using d unfolding psk_done_def by simp
      with 2 show ?case by blast
    qed
  qed
  then obtain ret s1 where e: "?R = Some (ret, s1)" and r: "ret \<le> 0" "psk_ok P n s1"
    "ret = 0 \<longrightarrow> (\<exists>tr. psk_done P H ext exp mac k identity s1 tr \<and> l_th s1 = H WC_SHA256 tr)"
    unfolding ends_def by (rule runs2E) blast
  have run: "psk_run P send recv ctx psk pskLen identity cap s = ok (hs_establish P send recv ctx cap) (ret, s1)"
    unfolding psk_run_def e by simp
  show ?thesis
  proof (cases "ret = 0")
    case True
    then obtain tr where d: "psk_done P H ext exp mac k identity s1 tr" "l_th s1 = H WC_SHA256 tr" using r(3) by blast
    have z: "psk_ok P n (s1\<lparr>l_sess := x, l_sess := zero_session\<rparr>)" for x using r(2) by (simp add: psk_ok_def hs_ok_def)
    show ?thesis
      using psk_done_authentic [OF d] z True
      unfolding run by (simp add: ok_def establish_eq [OF c psk_ok_hs [OF r(2)]])
  next
    case False
    have "l_sess s1 = zero_session" "psk_ok P n (s1\<lparr>l_sess := zero_session\<rparr>)"
      using r(2) by (simp_all add: psk_ok_def hs_ok_def)
    then show ?thesis unfolding run using False r(1) by (simp add: ok_def)
  qed
qed

text \<open>The locals after the wipe.\<close>

definition psk_wiped :: "'o wc \<Rightarrow> ('o, 'io) psk_locals \<Rightarrow> bool" where
  "psk_wiped P s \<longleftrightarrow> hs_wiped P s \<and> p_binderKey s = replicate 32 0 \<and> p_binder s = replicate 32 0 \<and>
     p_recvMac s = replicate 32 0 \<and> p_plain s = replicate 512 0"

lemma psk_wipe_runs:
  assumes "psk_ok P n (s\<lparr>l_sess := zero_session\<rparr>)"
  shows "runs (psk_wipe P s) (\<lambda>s'. psk_wiped P s' \<and> l_sess s' = l_sess s \<and> l_rng s' = l_rng s \<and> l_io s' = l_io s \<and>
    l_scratch s' = l_scratch s)"
proof -
  have h: "hs_ok P n (s\<lparr>l_sess := zero_session\<rparr>)" and l: "length (p_binderKey s) = 32" "length (p_binder s) = 32"
    "length (p_recvMac s) = 32" "length (p_plain s) = 512"
    using assms by (simp_all add: psk_ok_def)
  obtain s1 where e: "hs_wipe P s = Some s1" and w: "hs_wiped P s1" and m: "hs_locals.more s1 = hs_locals.more s"
    and f: "l_sess s1 = l_sess s" "l_rng s1 = l_rng s" "l_io s1 = l_io s" "l_scratch s1 = l_scratch s"
    using wipe_runs [OF h] by (auto simp: runs_def)
  show ?thesis
    using w f l unfolding psk_wipe_def e by (simp add: psk_more [OF m] force_zero_all psk_wiped_def hs_wiped_def)
qed

lemma psk_driver_result:
  fixes io :: 'io and P :: "'o wc"
  assumes c: "hs_crypto P H ab ext exp mac" and io: "io_ok send recv avail"
    and scr: "58 \<le> unat cap" "unat cap \<le> length scr" "unat cap + 65536 < 2 ^ 32" and idn: "length identity \<le> 65535"
    and k: "pskLen \<noteq> 0" "unat pskLen \<le> length psk"
  shows "\<exists>ret s. psk_driver P g send recv ctx io psk pskLen identity scr cap = Some (ret, s) \<and> ret \<le> 0 \<and> psk_wiped P s \<and>
    unat cap \<le> length (l_scratch s) \<and>
    (if ret = 0 then psk_authentic P H ext exp mac (take (unat pskLen) psk) identity send recv ctx (l_scratch s) cap (l_sess s)
     else l_sess s = zero_session)"
proof -
  let ?s = "hs_locals.extend (init_locals P (zero_session :: 'io wn_Session) g io scr)
         \<lparr>p_binderKey = replicate 32 0, p_binder = replicate 32 0, p_recvMac = replicate 32 0, p_plain = replicate 512 0,
          p_truncOff = 0, p_binderOff = 0, p_accOff = 0\<rparr>"
  have "psk_ok P (unat cap) ?s" and "psk_fresh ?s"
    using scr(2) by (simp_all add: psk_ok_def hs_ok_def psk_fresh_def init_locals_def hs_locals.defs ks_tracked_init)
  from psk_run_result [OF c io refl scr(1,3) idn k refl this, of ctx] obtain ret s1
    where e: "psk_run P send recv ctx psk pskLen identity cap ?s = Some (ret, s1)" and r: "ret \<le> 0"
      and w: "psk_ok P (unat cap) (s1\<lparr>l_sess := zero_session\<rparr>)"
      and a: "if ret = 0 then psk_authentic P H ext exp mac (take (unat pskLen) psk) identity send recv ctx (l_scratch s1) cap (l_sess s1)
     else l_sess s1 = zero_session" by blast
  obtain s where "psk_wipe P s1 = Some s" and "psk_wiped P s" "l_sess s = l_sess s1" "l_scratch s = l_scratch s1"
    using psk_wipe_runs [OF w] by (auto simp: runs_def)
  moreover have "unat cap \<le> length (l_scratch s1)" using w by (simp add: psk_ok_def hs_ok_def)
  ultimately show ?thesis
    unfolding psk_driver_def e using r a by simp
qed

lemma psk_connect_eq:
  assumes "pskLen \<noteq> 0" and "2048 \<le> unat cap" and "length identity \<le> 65535"
  shows "wn_Connect_Psk_ex P (Some s0) (Some g) (Some send) (Some recv) ctx io (Some psk) pskLen (Some identity) (Some scr) cap =
    psk_driver P g send recv ctx io psk pskLen identity scr cap \<bind> (\<lambda>(ret, s).
      Some (ret, Some (l_sess s), Some (l_rng s), l_io s, l_scratch s))"
proof -
  have "\<not> cap < 2048" using assms(2) by (simp add: word_less_nat_alt)
  then show ?thesis using assms(1,3) by (simp add: wn_Connect_Psk_ex_def)
qed

section \<open>Properties\<close>

text \<open>
  C28. The PSK handshake always returns, whatever the transport delivers and however the calls to the
  key agreement and AES-GCM fail: with 0 or a negative code, without an access outside a buffer,
  with every secret among its local variables overwritten by zeros, and with every private key that
  was made for the key share freed. The session is then either established and usable by
  \<open>wn_Send\<close> and \<open>wn_Recv\<close>, or all zero.
\<close>

theorem psk_connect_returns:
  fixes P :: "'o wc" and io :: 'io
  assumes "hs_crypto P H ab ext exp mac" and "io_ok send recv avail"
    and "2048 \<le> unat cap" and "unat cap \<le> length scr" and "unat cap + 65536 < 2 ^ 32" and "length identity \<le> 65535"
    and "pskLen \<noteq> 0" and "unat pskLen \<le> length psk"
  shows "\<exists>ret s. psk_driver P g send recv ctx io psk pskLen identity scr cap = Some (ret, s) \<and> ret \<le> 0 \<and> psk_wiped P s \<and>
    wn_Connect_Psk_ex P (Some s0) (Some g) (Some send) (Some recv) ctx io (Some psk) pskLen (Some identity) (Some scr) cap =
      Some (ret, Some (l_sess s), Some (l_rng s), l_io s, l_scratch s) \<and> unat cap \<le> length (l_scratch s) \<and>
    (if ret = 0 then sess_ok send recv (l_sess s) \<and> flags (l_sess s) = WN_SESS_ESTABLISHED \<and> cSeq (l_sess s) = 0 \<and> sSeq (l_sess s) = 0
     else l_sess s = zero_session)"
proof -
  have "58 \<le> unat cap" using assms(3) by simp
  from psk_driver_result [OF assms(1,2) this assms(4-8), of g ctx io] obtain ret s
    where d: "psk_driver P g send recv ctx io psk pskLen identity scr cap = Some (ret, s)" "ret \<le> 0" "psk_wiped P s"
      "unat cap \<le> length (l_scratch s)"
      and a: "if ret = 0 then psk_authentic P H ext exp mac (take (unat pskLen) psk) identity send recv ctx (l_scratch s) cap (l_sess s)
     else l_sess s = zero_session" by blast
  have "sess_ok send recv (l_sess s) \<and> flags (l_sess s) = WN_SESS_ESTABLISHED \<and> cSeq (l_sess s) = 0 \<and> sSeq (l_sess s) = 0"
    if "psk_authentic P H ext exp mac (take (unat pskLen) psk) identity send recv ctx (l_scratch s) cap (l_sess s)"
  proof -
    from that obtain eh hs th where "l_sess s = app_session ext exp eh hs th send recv ctx (l_scratch s) cap"
      unfolding psk_authentic_def Let_def by blast
    then show ?thesis
      using app_session_ok [OF hs_cryptoD(3) [OF assms(1)] _ d(4)] assms(3) by (simp add: app_session_def Let_def)
  qed
  with d a show ?thesis
    by (simp add: psk_connect_eq [OF assms(7,3,6)])
qed

theorem psk_connect_returns_witness:
  "\<exists>ret s. psk_driver demo_wc [7] demo_send demo_recv 0 [22, 3, 3] [1, 2] 2 [97] (replicate 2048 0) 2048 = Some (ret, s) \<and>
    psk_wiped demo_wc s"
proof -
  have "length [97 :: byte] \<le> 65535" "unat (2048 :: word32) \<le> length (replicate 2048 (0 :: byte))" "unat (2 :: word32) \<le> length [1, 2 :: byte]"
    by simp_all
  then show ?thesis
    using psk_connect_returns [OF demo_hs_crypto demo_io_ok, of 2048 "replicate 2048 0" "[97]" 2 "[1, 2]" "[7]" 0 "[22, 3, 3]"]
    by simp blast
qed

text \<open>
  C27. A PSK handshake ends in one of two ways. Either it fails and hands out a session of zeros.
  Or the peer has proved that it knows the key: its Finished is the MAC under the handshake traffic
  secret, which is derived from the pre-shared key and the agreed secret, over the client's own
  hello, the answering ServerHello and acceptable EncryptedExtensions; and the session keys are those
  of the key schedule over exactly these messages.
\<close>

theorem psk_connect_authentic:
  fixes P :: "'o wc" and io :: 'io
  assumes "hs_crypto P H ab ext exp mac" and "io_ok send recv avail"
    and "2048 \<le> unat cap" and "unat cap \<le> length scr" and "unat cap + 65536 < 2 ^ 32" and "length identity \<le> 65535"
    and "pskLen \<noteq> 0" and "unat pskLen \<le> length psk"
  shows "\<exists>ret s g' io' b. wn_Connect_Psk_ex P (Some s0) (Some g) (Some send) (Some recv) ctx io (Some psk) pskLen (Some identity)
      (Some scr) cap = Some (ret, Some s, Some g', io', b) \<and>
    (ret < 0 \<and> s = zero_session \<or>
     ret = 0 \<and> psk_authentic P H ext exp mac (take (unat pskLen) psk) identity send recv ctx b cap s)"
proof -
  have "58 \<le> unat cap" using assms(3) by simp
  from psk_driver_result [OF assms(1,2) this assms(4-8), of g ctx io] show ?thesis
    unfolding psk_connect_eq [OF assms(7,3,6)] by (auto split: if_splits)
qed

theorem psk_connect_authentic_witness:
  "\<exists>ret s g' io' b. wn_Connect_Psk_ex demo_wc (Some zero_session) (Some [7]) (Some demo_send) (Some demo_recv) 0 [22, 3, 3]
     (Some [1, 2]) 2 (Some [97]) (Some (replicate 2048 0)) 2048 = Some (ret, Some s, Some g', io', b) \<and>
    (ret < 0 \<and> s = zero_session \<or> flags s = WN_SESS_ESTABLISHED)"
proof -
  have "flags (app_session ext exp eh hs th send recv ctx b cap) = WN_SESS_ESTABLISHED"
    for ext :: hkdf_extract and exp eh hs th b cap ctx and send :: "bytes wn_IoSend" and recv
    by (simp add: app_session_def Let_def)
  moreover have "length [97 :: byte] \<le> 65535" "unat (2048 :: word32) \<le> length (replicate 2048 (0 :: byte))"
    "unat (2 :: word32) \<le> length [1, 2 :: byte]" by simp_all
  ultimately show ?thesis
    using psk_connect_authentic [OF demo_hs_crypto demo_io_ok, of 2048 "replicate 2048 0" "[97]" 2 "[1, 2]" zero_session "[7]" 0 "[22, 3, 3]"]
    unfolding psk_authentic_def Let_def by fastforce
qed

end
