(* ===== verification/Wn_X509.thy ===== *)
theory Wn_X509
  imports Wn_Seam
begin

text \<open>
  Certificates in \<open>src/src/wn_connect.c\<close>: the CertificateVerify signature, the key pin, the name of
  the server, the validity window, and the chain up to the pinned anchor. wolfCrypt's X.509
  parser and its signature functions are the fields of a second parameter record. Keys and
  decoded certificates that the code frees are locals whose release nothing observes; the calls
  that free them are left out.
\<close>

section \<open>What wolfCrypt provides\<close>

datatype hash_type = WC_HASH_TYPE_SHA256 | WC_HASH_TYPE_SHA384 | WC_HASH_TYPE_SHA512

datatype mgf_type = WC_MGF1SHA256 | WC_MGF1SHA384 | WC_MGF1SHA512

datatype mldsa_param = WC_ML_DSA_44 | WC_ML_DSA_65 | WC_ML_DSA_87

datatype date_check = ASN_BEFORE | ASN_AFTER

datatype name_type = ASN_DNS_TYPE | ASN_OTHER_TYPE int

text \<open>The fields of \<open>DecodedCert\<close> that the code reads; a list for the linked \<open>altNames\<close>.\<close>

record DNS_entry =
  dns_type :: name_type
  dns_name :: "bytes option"
  dns_len :: int

record DecodedCert =
  publicKey :: bytes
  pubKeySize :: word32
  keyOID :: word32
  isCA :: bool
  altNames :: "DNS_entry list"
  subjectCN :: "bytes option"
  subjectCNLen :: int
  extKeyUsageSet :: bool
  extKeyUsage :: word16
  extExtKeyUsageSet :: bool
  extExtKeyUsage :: byte
  beforeDate :: "bytes option"
  beforeDateLen :: int
  afterDate :: "bytes option"
  afterDateLen :: int

text \<open>
  \<open>wc_ParseCert\<close> stands for \<open>wc_InitDecodedCert\<close> and \<open>wc_ParseCert\<close> with \<open>NO_VERIFY\<close> on the DER
  bytes. \<open>ecc_dp_size\<close> is \<open>key.dp->size\<close>, \<open>None\<close> when \<open>key.dp\<close> is null. A signature check returns
  its error code and the result flag. \<open>XTIME\<close> is the integrator's clock: a handshake reads it
  once, for its Certificate message.
\<close>

record 'o wcx =
  NO_ASN_TIME :: bool
  WOLFNANO_X509_HOSTNAME :: bool
  WOLFNANO_MLDSA_LEVEL :: int
  KEYUSE_DIGITAL_SIG :: word16
  EXTKEYUSE_SERVER_AUTH :: byte
  XTIME :: int
  wc_HashGetDigestSize :: "hash_type \<Rightarrow> int"
  wc_Hash :: "hash_type \<Rightarrow> bytes \<Rightarrow> int \<times> bytes"
  wc_EccPublicKeyDecode :: "bytes \<Rightarrow> 'o \<Rightarrow> int \<times> 'o"
  ecc_dp_size :: "'o \<Rightarrow> int option"
  wc_ecc_verify_hash :: "bytes \<Rightarrow> bytes \<Rightarrow> 'o \<Rightarrow> int \<times> int"
  wc_ed25519_init :: "int \<times> 'o"
  wc_ed25519_import_public :: "bytes \<Rightarrow> 'o \<Rightarrow> int \<times> 'o"
  wc_Ed25519PublicKeyDecode :: "bytes \<Rightarrow> 'o \<Rightarrow> int \<times> 'o"
  wc_ed25519_verify_msg :: "bytes \<Rightarrow> bytes \<Rightarrow> 'o \<Rightarrow> int \<times> int"
  wc_InitRsaKey :: "int \<times> 'o"
  wc_RsaPublicKeyDecode :: "bytes \<Rightarrow> 'o \<Rightarrow> int \<times> 'o"
  wc_RsaPSS_VerifyCheck :: "bytes \<Rightarrow> word32 \<Rightarrow> bytes \<Rightarrow> hash_type \<Rightarrow> mgf_type \<Rightarrow> 'o \<Rightarrow> int"
  wc_MlDsaKey_Init :: "int \<times> 'o"
  wc_MlDsaKey_SetParams :: "'o \<Rightarrow> mldsa_param \<Rightarrow> int \<times> 'o"
  wc_MlDsaKey_PublicKeyDecode :: "'o \<Rightarrow> bytes \<Rightarrow> int \<times> 'o"
  wc_MlDsaKey_VerifyCtx :: "'o \<Rightarrow> bytes \<Rightarrow> bytes \<Rightarrow> bytes \<Rightarrow> int \<times> int"
  wc_ParseCert :: "bytes \<Rightarrow> int \<times> DecodedCert"
  CheckCertSignaturePubKey :: "bytes \<Rightarrow> bytes \<Rightarrow> word32 \<Rightarrow> int"
  wc_GetDateInfo :: "bytes \<Rightarrow> int \<Rightarrow> int \<times> bytes \<times> byte \<times> int"
  wc_ValidateDateWithTime :: "bytes \<Rightarrow> byte \<Rightarrow> date_check \<Rightarrow> int \<Rightarrow> int \<Rightarrow> int"

section \<open>CertificateVerify\<close>

text \<open>The buffer and its length.\<close>

definition wn_BuildCvTbs :: "bytes \<Rightarrow> bytes \<Rightarrow> word32 \<Rightarrow> (bytes \<times> word32) option" where
  "wn_BuildCvTbs tbs th thLen = do {
     tbs \<leftarrow> mem_write tbs 0 (replicate 64 0x20);
     tbs \<leftarrow> mem_write tbs 64 (ascii ''TLS 1.3, server CertificateVerify'');
     tbs \<leftarrow> mem_set tbs 97 0x00;
     h \<leftarrow> mem_read th 0 (unat thLen);
     tbs \<leftarrow> mem_write tbs 98 h;
     Some (tbs, 98 + thLen)
   }"

text \<open>The hash both ECDSA and RSA-PSS verify, in a buffer of \<open>WC_MAX_DIGEST_SIZE\<close> bytes.\<close>

definition cv_hash :: "'o wc \<Rightarrow> 'o wcx \<Rightarrow> hash_type \<Rightarrow> bytes \<Rightarrow> word32 \<Rightarrow> (int \<times> bytes) option" where
  "cv_hash P X hashType tbs tbsLen =
     (let hash = replicate (WC_MAX_DIGEST_SIZE P) 0 in
      if wc_HashGetDigestSize X hashType \<le> 0 then Some (WOLFNANO_E_CRYPTO, hash)
      else
        mem_read tbs 0 (unat tbsLen) \<bind> (\<lambda>m.
        case wc_Hash X hashType m of (r, h) \<Rightarrow>
        mem_write hash 0 h \<bind> (\<lambda>hash.
        Some (if r \<noteq> 0 then WOLFNANO_E_CRYPTO else WOLFNANO_SUCCESS, hash))))"

definition wn_CvEcdsa ::
    "'o wc \<Rightarrow> 'o wcx \<Rightarrow> bytes \<Rightarrow> word32 \<Rightarrow> hash_type \<Rightarrow> int \<Rightarrow> bytes \<Rightarrow> word32 \<Rightarrow> bytes \<Rightarrow> word32 \<Rightarrow> int option" where
  "wn_CvEcdsa P X spki spkiLen hashType curveSize tbs tbsLen sig sigLen =
     cv_hash P X hashType tbs tbsLen \<bind> (\<lambda>(ret, hash).
     if ret \<noteq> WOLFNANO_SUCCESS then Some ret
     else case wc_ecc_init P of (r, key) \<Rightarrow>
       if r \<noteq> 0 then Some WOLFNANO_E_CRYPTO
       else
         mem_read spki 0 (unat spkiLen) \<bind> (\<lambda>d.
         case wc_EccPublicKeyDecode X d key of (r, key) \<Rightarrow>
         if r \<noteq> 0 then Some WOLFNANO_E_BAD_CERT
         else if ecc_dp_size X key \<noteq> Some curveSize then Some WOLFNANO_E_BAD_CERT
         else
           mem_read sig 0 (unat sigLen) \<bind> (\<lambda>s.
           mem_read hash 0 (nat (wc_HashGetDigestSize X hashType)) \<bind> (\<lambda>h.
           case wc_ecc_verify_hash X s h key of (r, res) \<Rightarrow>
           Some (if r \<noteq> 0 \<or> res \<noteq> 1 then WOLFNANO_E_BAD_CERT else WOLFNANO_SUCCESS)))))"

abbreviation (input) ED25519_PUB_KEY_SIZE :: word32 where "ED25519_PUB_KEY_SIZE \<equiv> 32"

definition wn_CvEd25519 :: "'o wcx \<Rightarrow> bytes \<Rightarrow> word32 \<Rightarrow> bytes \<Rightarrow> word32 \<Rightarrow> bytes \<Rightarrow> word32 \<Rightarrow> int option" where
  "wn_CvEd25519 X spki spkiLen tbs tbsLen sig sigLen =
     (case wc_ed25519_init X of (r, key) \<Rightarrow>
      if r \<noteq> 0 then Some WOLFNANO_E_CRYPTO
      else
        mem_read spki 0 (unat spkiLen) \<bind> (\<lambda>d.
        case (if spkiLen = ED25519_PUB_KEY_SIZE then wc_ed25519_import_public X d key
              else wc_Ed25519PublicKeyDecode X d key) of (r, key) \<Rightarrow>
        if r \<noteq> 0 then Some WOLFNANO_E_BAD_CERT
        else
          mem_read sig 0 (unat sigLen) \<bind> (\<lambda>s.
          mem_read tbs 0 (unat tbsLen) \<bind> (\<lambda>m.
          case wc_ed25519_verify_msg X s m key of (r, res) \<Rightarrow>
          Some (if r \<noteq> 0 \<or> res \<noteq> 1 then WOLFNANO_E_BAD_CERT else WOLFNANO_SUCCESS)))))"

definition wn_CvRsaPss ::
    "'o wc \<Rightarrow> 'o wcx \<Rightarrow> bytes \<Rightarrow> word32 \<Rightarrow> hash_type \<Rightarrow> mgf_type \<Rightarrow> bytes \<Rightarrow> word32 \<Rightarrow> bytes \<Rightarrow> word32 \<Rightarrow> int option" where
  "wn_CvRsaPss P X spki spkiLen hashType mgf tbs tbsLen sig sigLen =
     cv_hash P X hashType tbs tbsLen \<bind> (\<lambda>(ret, hash).
     if ret \<noteq> WOLFNANO_SUCCESS then Some ret
     else case wc_InitRsaKey X of (r, key) \<Rightarrow>
       if r \<noteq> 0 then Some WOLFNANO_E_CRYPTO
       else
         mem_read spki 0 (unat spkiLen) \<bind> (\<lambda>d.
         case wc_RsaPublicKeyDecode X d key of (r, key) \<Rightarrow>
         if r \<noteq> 0 then Some WOLFNANO_E_BAD_CERT
         else
           mem_read sig 0 (unat sigLen) \<bind> (\<lambda>s.
           mem_read hash 0 (nat (wc_HashGetDigestSize X hashType)) \<bind> (\<lambda>h.
           Some (if wc_RsaPSS_VerifyCheck X s 512 h hashType mgf key < 0 then WOLFNANO_E_BAD_CERT
                 else WOLFNANO_SUCCESS)))))"

definition WN_MLDSA_PARAM :: "'o wcx \<Rightarrow> mldsa_param" where
  "WN_MLDSA_PARAM X =
     (if WOLFNANO_MLDSA_LEVEL X = 2 then WC_ML_DSA_44
      else if WOLFNANO_MLDSA_LEVEL X = 3 then WC_ML_DSA_65 else WC_ML_DSA_87)"

definition wn_CvMlDsa :: "'o wcx \<Rightarrow> bytes \<Rightarrow> word32 \<Rightarrow> bytes \<Rightarrow> word32 \<Rightarrow> bytes \<Rightarrow> word32 \<Rightarrow> int option" where
  "wn_CvMlDsa X spki spkiLen tbs tbsLen sig sigLen =
     (case wc_MlDsaKey_Init X of (r, key) \<Rightarrow>
      if r \<noteq> 0 then Some WOLFNANO_E_CRYPTO
      else case wc_MlDsaKey_SetParams X key (WN_MLDSA_PARAM X) of (r, key) \<Rightarrow>
      if r \<noteq> 0 then Some WOLFNANO_E_CRYPTO
      else
        mem_read spki 0 (unat spkiLen) \<bind> (\<lambda>d.
        case wc_MlDsaKey_PublicKeyDecode X key d of (r, key) \<Rightarrow>
        if r \<noteq> 0 then Some WOLFNANO_E_BAD_CERT
        else
          mem_read sig 0 (unat sigLen) \<bind> (\<lambda>s.
          mem_read tbs 0 (unat tbsLen) \<bind> (\<lambda>m.
          case wc_MlDsaKey_VerifyCtx X key s [] m of (r, res) \<Rightarrow>
          Some (if r \<noteq> 0 \<or> res \<noteq> 1 then WOLFNANO_E_BAD_CERT else WOLFNANO_SUCCESS)))))"

definition wn_CertVerify ::
    "'o wc \<Rightarrow> 'o wcx \<Rightarrow> word16 \<Rightarrow> bytes \<Rightarrow> word32 \<Rightarrow> bytes \<Rightarrow> word32 \<Rightarrow> bytes \<Rightarrow> word32 \<Rightarrow> int option" where
  "wn_CertVerify P X scheme spki spkiLen th thLen sig sigLen =
     wn_BuildCvTbs (replicate (64 + 33 + 1 + WC_MAX_DIGEST_SIZE P) 0) th thLen \<bind> (\<lambda>(tbs, tbsLen).
     if scheme = 0x0403
     then wn_CvEcdsa P X spki spkiLen WC_HASH_TYPE_SHA256 32 tbs tbsLen sig sigLen
     else if HAVE_ECC384 P \<and> WOLFSSL_SHA384 P \<and> scheme = 0x0503
     then wn_CvEcdsa P X spki spkiLen WC_HASH_TYPE_SHA384 48 tbs tbsLen sig sigLen
     else if HAVE_ED25519 P \<and> scheme = 0x0807
     then wn_CvEd25519 X spki spkiLen tbs tbsLen sig sigLen
     else if \<not> NO_RSA P \<and> scheme = 0x0804
     then wn_CvRsaPss P X spki spkiLen WC_HASH_TYPE_SHA256 WC_MGF1SHA256 tbs tbsLen sig sigLen
     else if \<not> NO_RSA P \<and> WOLFSSL_SHA384 P \<and> scheme = 0x0805
     then wn_CvRsaPss P X spki spkiLen WC_HASH_TYPE_SHA384 WC_MGF1SHA384 tbs tbsLen sig sigLen
     else if \<not> NO_RSA P \<and> WOLFSSL_SHA512 P \<and> scheme = 0x0806
     then wn_CvRsaPss P X spki spkiLen WC_HASH_TYPE_SHA512 WC_MGF1SHA512 tbs tbsLen sig sigLen
     else if WOLFSSL_HAVE_MLDSA P \<and> scheme = WN_MLDSA_SCHEME P
     then wn_CvMlDsa X spki spkiLen tbs tbsLen sig sigLen
     else Some WOLFNANO_E_UNSUPPORTED)"

section \<open>The identity of the leaf\<close>

definition wn_CheckKeyPin :: "'o wc \<Rightarrow> DecodedCert option \<Rightarrow> bytes option \<Rightarrow> word32 \<Rightarrow> int option" where
  "wn_CheckKeyPin P leaf pin pinLen =
     (case (leaf, pin) of
        (Some leaf, Some pin) \<Rightarrow>
          if pinLen > 0 \<and> pinLen = pubKeySize leaf
          then
            mem_read (publicKey leaf) 0 (unat pinLen) \<bind> (\<lambda>a. mem_read pin 0 (unat pinLen) \<bind> (\<lambda>b.
            Some (if ConstantCompare P a b = 0 then WOLFNANO_SUCCESS else WOLFNANO_E_BAD_CERT)))
          else Some WOLFNANO_E_BAD_CERT
      | _ \<Rightarrow> Some WOLFNANO_E_BAD_CERT)"

text \<open>Characters are bytes; only those from A to Z change.\<close>

definition wn_AsciiLower :: "byte \<Rightarrow> byte" where
  "wn_AsciiLower c = (if 65 \<le> c \<and> c \<le> 90 then c - 65 + 97 else c)"

fun dns_case_eq_loop :: "bytes \<Rightarrow> bytes \<Rightarrow> nat \<Rightarrow> nat \<Rightarrow> bool \<Rightarrow> bool option" where
  "dns_case_eq_loop a b i 0 eq = Some eq"
| "dns_case_eq_loop a b i (Suc n) eq =
     mem_get a i \<bind> (\<lambda>x. mem_get b i \<bind> (\<lambda>y.
     dns_case_eq_loop a b (Suc i) n (if wn_AsciiLower x \<noteq> wn_AsciiLower y then False else eq)))"

definition wn_DnsCaseEq :: "bytes \<Rightarrow> bytes \<Rightarrow> int \<Rightarrow> bool option" where
  "wn_DnsCaseEq a b len = dns_case_eq_loop a b 0 (nat len) True"

text \<open>The end of the first label of \<open>host\<close>, searched from \<open>k\<close> on in the \<open>n\<close> characters left.\<close>

fun dns_label :: "bytes \<Rightarrow> nat \<Rightarrow> nat \<Rightarrow> nat option" where
  "dns_label host k 0 = Some k"
| "dns_label host k (Suc n) = mem_get host k \<bind> (\<lambda>c. if c \<noteq> 46 then dns_label host (Suc k) n else Some k)"

definition wn_DnsNameMatch :: "bytes option \<Rightarrow> int \<Rightarrow> bytes option \<Rightarrow> int \<Rightarrow> int option" where
  "wn_DnsNameMatch pat patLen host hostLen =
     (case (pat, host) of
        (Some pat, Some host) \<Rightarrow>
          if patLen \<le> 0 \<or> hostLen \<le> 0 then Some WOLFNANO_E_BAD_CERT
          else
            (if patLen > 2 then mem_get pat 0 \<bind> (\<lambda>c. if c = 42 then mem_get pat 1 \<bind> (\<lambda>d. Some (d = 46)) else Some False)
             else Some False) \<bind> (\<lambda>wild.
            if wild then
              dns_label host 0 (nat hostLen) \<bind> (\<lambda>k.
              (if 0 < k \<and> int k < hostLen \<and> patLen - 1 = hostLen - int k
               then wn_DnsCaseEq (drop 1 pat) (drop k host) (patLen - 1) else Some False) \<bind> (\<lambda>eq.
              Some (if eq then WOLFNANO_SUCCESS else WOLFNANO_E_BAD_CERT)))
            else
              (if patLen = hostLen then wn_DnsCaseEq pat host patLen else Some False) \<bind> (\<lambda>eq.
              Some (if eq then WOLFNANO_SUCCESS else WOLFNANO_E_BAD_CERT)))
      | _ \<Rightarrow> Some WOLFNANO_E_BAD_CERT)"

text \<open>The loop over the alternative names; the state is \<open>sawDns\<close> and \<open>ret\<close>.\<close>

fun server_name_loop :: "DNS_entry list \<Rightarrow> bytes \<Rightarrow> int \<Rightarrow> bool \<Rightarrow> int \<Rightarrow> (bool \<times> int) option" where
  "server_name_loop [] host hostLen sawDns ret = Some (sawDns, ret)"
| "server_name_loop (e # es) host hostLen sawDns ret =
     (if dns_type e = ASN_DNS_TYPE
      then wn_DnsNameMatch (dns_name e) (dns_len e) (Some host) hostLen \<bind> (\<lambda>r.
        server_name_loop es host hostLen True (if r = WOLFNANO_SUCCESS then WOLFNANO_SUCCESS else ret))
      else server_name_loop es host hostLen sawDns ret)"

text \<open>\<open>host\<close> holds the characters before the terminating zero; their number is cast to \<open>int\<close>.\<close>

definition wn_CheckServerName :: "DecodedCert option \<Rightarrow> bytes option \<Rightarrow> int option" where
  "wn_CheckServerName leaf host =
     (case (leaf, host) of
        (Some leaf, Some host) \<Rightarrow>
          let hostLen = sint (word_of_nat (length host) :: word32) in
          server_name_loop (altNames leaf) host hostLen False WOLFNANO_E_BAD_CERT \<bind> (\<lambda>(sawDns, ret).
          if \<not> sawDns \<and> subjectCN leaf \<noteq> None
          then wn_DnsNameMatch (subjectCN leaf) (subjectCNLen leaf) (Some host) hostLen \<bind> (\<lambda>r.
            Some (if r = WOLFNANO_SUCCESS then WOLFNANO_SUCCESS else ret))
          else Some ret)
      | _ \<Rightarrow> Some WOLFNANO_E_BAD_CERT)"

section \<open>Validity and the chain\<close>

definition cert_date_ok :: "'o wcx \<Rightarrow> date_check \<Rightarrow> bytes \<Rightarrow> int \<Rightarrow> int \<Rightarrow> int" where
  "cert_date_ok X chk date len now =
     (case wc_GetDateInfo X date len of (r, d, fmt, dlen) \<Rightarrow>
      if r \<noteq> 0 then WOLFNANO_E_BAD_CERT
      else if wc_ValidateDateWithTime X d fmt chk now dlen \<noteq> 1 then WOLFNANO_E_BAD_CERT
      else WOLFNANO_SUCCESS)"

definition wn_CertTimeValid :: "'o wcx \<Rightarrow> DecodedCert \<Rightarrow> int \<Rightarrow> int" where
  "wn_CertTimeValid X cert now =
     (case (beforeDate cert, afterDate cert) of
        (Some b, Some a) \<Rightarrow>
          let ret = cert_date_ok X ASN_BEFORE b (beforeDateLen cert) now in
          if ret = WOLFNANO_SUCCESS then cert_date_ok X ASN_AFTER a (afterDateLen cert) now else ret
      | _ \<Rightarrow> WOLFNANO_E_BAD_CERT)"

definition list_get :: "'a list \<Rightarrow> nat \<Rightarrow> 'a option" where
  "list_get xs i = (if i < length xs then Some (xs ! i) else None)"

text \<open>
  One turn of the loop: the certificate \<open>i\<close> is checked under the key of its issuer, the next
  certificate or the anchor. A certificate is a pointer and a length.
\<close>

definition chain_link ::
    "'o wc \<Rightarrow> 'o wcx \<Rightarrow> bytes list \<Rightarrow> word32 list \<Rightarrow> nat \<Rightarrow> bytes \<Rightarrow> word32 \<Rightarrow> int \<Rightarrow> nat \<Rightarrow> int option" where
  "chain_link P X certs certLens n anchor anchorLen now i =
     (if i + 1 < n
      then list_get certs (i + 1) \<bind> (\<lambda>d. list_get certLens (i + 1) \<bind> (\<lambda>l. Some (d, l)))
      else Some (anchor, anchorLen)) \<bind> (\<lambda>(issuerDer, issuerLen).
     mem_read issuerDer 0 (unat issuerLen) \<bind> (\<lambda>der.
     case wc_ParseCert X der of (r, issuer) \<Rightarrow>
     if r \<noteq> 0 then Some WOLFNANO_E_BAD_CERT
     else
       list_get certs i \<bind> (\<lambda>c. list_get certLens i \<bind> (\<lambda>l. mem_read c 0 (unat l) \<bind> (\<lambda>cert.
       mem_read (publicKey issuer) 0 (unat (pubKeySize issuer)) \<bind> (\<lambda>key.
       if CheckCertSignaturePubKey X cert key (keyOID issuer) \<noteq> 0 then Some WOLFNANO_E_BAD_CERT
       else if i + 1 < n \<and> \<not> isCA issuer then Some WOLFNANO_E_BAD_CERT
       else if NO_ASN_TIME X \<or> \<not> i + 1 < n then Some WOLFNANO_SUCCESS
       else
         (if issuerLen \<noteq> anchorLen then Some True
          else mem_read anchor 0 (unat anchorLen) \<bind> (\<lambda>a. Some (ConstantCompare P der a \<noteq> 0))) \<bind> (\<lambda>timed.
         Some (if timed then wn_CertTimeValid X issuer now else WOLFNANO_SUCCESS))))))))"

fun chain_loop :: "(nat \<Rightarrow> int option) \<Rightarrow> nat \<Rightarrow> nat \<Rightarrow> int option" where
  "chain_loop link i 0 = Some WOLFNANO_SUCCESS"
| "chain_loop link i (Suc m) =
     link i \<bind> (\<lambda>ret. if ret = WOLFNANO_SUCCESS then chain_loop link (Suc i) m else Some ret)"

text \<open>The checks of the leaf, after its key has been copied out.\<close>

definition leaf_checks :: "'o wc \<Rightarrow> 'o wcx \<Rightarrow> DecodedCert \<Rightarrow> bytes option \<Rightarrow> bytes option \<Rightarrow> word32 \<Rightarrow> int \<Rightarrow> int option" where
  "leaf_checks P X leaf serverName pinnedKey pinnedKeyLen now =
     (if extKeyUsageSet leaf \<and> extKeyUsage leaf AND KEYUSE_DIGITAL_SIG X = 0 then Some WOLFNANO_E_BAD_CERT
      else if extExtKeyUsageSet leaf \<and> extExtKeyUsage leaf AND EXTKEYUSE_SERVER_AUTH X = 0 then Some WOLFNANO_E_BAD_CERT
      else
        (if pinnedKey \<noteq> None then wn_CheckKeyPin P (Some leaf) pinnedKey pinnedKeyLen else Some WOLFNANO_SUCCESS) \<bind> (\<lambda>ret.
        if ret \<noteq> WOLFNANO_SUCCESS then Some ret
        else
          (if serverName \<noteq> None
           then if WOLFNANO_X509_HOSTNAME X then wn_CheckServerName (Some leaf) serverName
                else Some WOLFNANO_E_UNSUPPORTED
           else Some WOLFNANO_SUCCESS) \<bind> (\<lambda>ret.
          Some (if ret = WOLFNANO_SUCCESS \<and> \<not> NO_ASN_TIME X then wn_CertTimeValid X leaf now else ret))))"

definition wn_VerifyChain ::
    "'o wc \<Rightarrow> 'o wcx \<Rightarrow> bytes list \<Rightarrow> word32 list \<Rightarrow> nat \<Rightarrow> bytes \<Rightarrow> word32 \<Rightarrow> bytes \<Rightarrow> word32 \<Rightarrow> bytes option \<Rightarrow>
     bytes option \<Rightarrow> word32 \<Rightarrow> int \<Rightarrow> (int \<times> bytes \<times> word32) option" where
  "wn_VerifyChain P X certs certLens n anchor anchorLen spki spkiLen serverName pinnedKey pinnedKeyLen now =
     (if n < 1 then Some (WOLFNANO_E_INVALID_ARG, spki, spkiLen)
      else
        chain_loop (chain_link P X certs certLens n anchor anchorLen now) 0 n \<bind> (\<lambda>ret.
        if ret \<noteq> WOLFNANO_SUCCESS then Some (ret, spki, spkiLen)
        else
          list_get certs 0 \<bind> (\<lambda>c. list_get certLens 0 \<bind> (\<lambda>l. mem_read c 0 (unat l) \<bind> (\<lambda>der.
          case wc_ParseCert X der of (r, leaf) \<Rightarrow>
          if r \<noteq> 0 then Some (WOLFNANO_E_BAD_CERT, spki, spkiLen)
          else if pubKeySize leaf > spkiLen then Some (WOLFNANO_E_CRYPTO, spki, spkiLen)
          else
            mem_read (publicKey leaf) 0 (unat (pubKeySize leaf)) \<bind> (\<lambda>k.
            mem_write spki 0 k \<bind> (\<lambda>spki.
            leaf_checks P X leaf serverName pinnedKey pinnedKeyLen now \<bind> (\<lambda>ret.
            Some (ret, spki, pubKeySize leaf)))))))))"

end
