(* ===== verification/Wn_ConnectCert.thy ===== *)
theory Wn_ConnectCert
  imports Wn_Handshake Wn_X509 Wn_Flight
begin

text \<open>
  The certificate driver of \<open>src/src/wn_connect.c\<close>, \<open>wn_connect_cert_impl\<close>, and the four functions
  around it. The caller's scratch is partitioned as in the code: records are received and
  decrypted in its first \<open>ioCap\<close> bytes, the flight is reassembled in the \<open>WN_HS_ACC_SZ\<close> bytes after
  them, and the key of the leaf lies behind those. A record is decrypted in place: the model reads
  the record first and then stores the plaintext behind the header, which is what decryption in
  place does, since the record is not read again.
\<close>

section \<open>Sizes\<close>

definition WN_HS_ACC_SZ :: "'o wc \<Rightarrow> 'o wcx \<Rightarrow> word32" where
  "WN_HS_ACC_SZ P X =
     (if WOLFSSL_HAVE_MLDSA P \<and> WOLFNANO_MLDSA_LEVEL X = 5 then 10240
      else if WOLFSSL_HAVE_MLDSA P then 8192 else 6144)"

definition WN_LEAF_SPKI_SZ :: "'o wc \<Rightarrow> 'o wcx \<Rightarrow> word32" where
  "WN_LEAF_SPKI_SZ P X =
     (if WOLFSSL_HAVE_MLDSA P \<and> WOLFNANO_MLDSA_LEVEL X = 5 then 3072
      else if WOLFSSL_HAVE_MLDSA P then 2048 else 1024)"

definition WN_CERT_IO_MIN :: "'o wc \<Rightarrow> 'o wcx \<Rightarrow> word32" where
  "WN_CERT_IO_MIN P X = (if WOLFSSL_HAVE_MLDSA P \<and> WOLFNANO_MLDSA_LEVEL X = 5 then 8192 else 4096)"

definition WN_CERT_SCRATCH_MIN :: "'o wc \<Rightarrow> 'o wcx \<Rightarrow> word32" where
  "WN_CERT_SCRATCH_MIN P X = WN_CERT_IO_MIN P X + WN_HS_ACC_SZ P X + WN_LEAF_SPKI_SZ P X"

abbreviation (input) WN_MAX_CHAIN :: nat where "WN_MAX_CHAIN \<equiv> 4"
abbreviation (input) WN_HS_CERTIFICATE :: byte where "WN_HS_CERTIFICATE \<equiv> 11"
abbreviation (input) WN_HS_CERT_VERIFY :: byte where "WN_HS_CERT_VERIFY \<equiv> 15"

section \<open>The driver's locals and arguments\<close>

record ('o, 'io) cert_locals = "('o, 'io) hs_locals" +
  c_thCert :: bytes
  c_ioCap :: word32
  c_spkiLen :: word32
  c_off :: word32
  c_flight :: flight
  c_keysReady :: bool
  c_cHsSeq :: word64

record cert_args =
  a_anchor :: bytes
  a_anchorLen :: word32
  a_serverName :: "bytes option"
  a_pinnedKey :: "bytes option"
  a_pinnedKeyLen :: word32
  a_scratchLen :: word32

type_synonym ('o, 'io) cert_phase = "('o, 'io) cert_locals \<Rightarrow> (int \<times> ('o, 'io) cert_locals) option"

text \<open>The regions of the scratch, as offsets: \<open>hsacc\<close>, and \<open>leafSpki\<close> behind it.\<close>

definition hsacc_at :: "('o, 'io) cert_locals \<Rightarrow> word32 \<Rightarrow> nat" where
  "hsacc_at s i = unat (c_ioCap s) + unat i"

definition leafSpki_at :: "'o wc \<Rightarrow> 'o wcx \<Rightarrow> ('o, 'io) cert_locals \<Rightarrow> nat" where
  "leafSpki_at P X s = unat (c_ioCap s) + unat (WN_HS_ACC_SZ P X)"

section \<open>Up to the handshake keys\<close>

text \<open>The three calls are short-circuited.\<close>

definition cert_start :: "'o wc \<Rightarrow> ('o, 'io) cert_phase" where
  "cert_start P s =
     (case wc_Sha256Hash P [] of (r, h) \<Rightarrow>
      mem_write (l_emptyHash s) 0 h \<bind> (\<lambda>e.
      Some (if r \<noteq> 0 then WOLFNANO_E_CRYPTO else WOLFNANO_SUCCESS, s\<lparr>l_emptyHash := e\<rparr>))) \<bind>
     ok (\<lambda>s.
       case wc_RNG_GenerateBlock P (l_rng s) 32 of (r, b, rng) \<Rightarrow>
       mem_write (l_random32 s) 0 b \<bind> (\<lambda>rnd.
       Some (if r \<noteq> 0 then WOLFNANO_E_CRYPTO else WOLFNANO_SUCCESS, s\<lparr>l_rng := rng, l_random32 := rnd\<rparr>))) \<bind>
     ok (\<lambda>s.
       case wc_RNG_GenerateBlock P (l_rng s) 32 of (r, b, rng) \<Rightarrow>
       mem_write (l_sid s) 0 b \<bind> (\<lambda>sid.
       Some (if r \<noteq> 0 then WOLFNANO_E_CRYPTO else WOLFNANO_SUCCESS, s\<lparr>l_rng := rng, l_sid := sid\<rparr>)))"

definition cert_hello :: "'o wc \<Rightarrow> 'io wn_IoSend \<Rightarrow> cert_args \<Rightarrow> ('o, 'io) cert_phase" where
  "cert_hello P send a s =
     wn_ClientHello_Build_ex P (Some (l_scratch s)) (Some (l_chLen s)) (a_scratchLen a) (Some (l_random32 s))
       (Some (l_sid s)) 32 (Some (l_cliPub s)) (l_pubLen s) (a_serverName a) \<bind> (\<lambda>(ret, scr, n).
       n \<bind> (\<lambda>n. Some (ret, s\<lparr>l_scratch := scr, l_chLen := n\<rparr>))) \<bind>
     ok (hs_send_hello P send)"

definition cert_server_hello :: "'o wc \<Rightarrow> 'io wn_IoRecv \<Rightarrow> ('o, 'io) cert_phase" where
  "cert_server_hello P recv s = hs_server_hello P recv (c_ioCap s) (- 1) s"

text \<open>All three calls run; their error codes are combined with a bitwise or.\<close>

definition cert_keys :: "'o wc \<Rightarrow> ('o, 'io) cert_phase" where
  "cert_keys P s =
     hs_get_hash P s \<bind> (\<lambda>(r1, s).
     wn_Tls13_Extract P (Some (l_early s)) None 0 (Some (replicate 32 0)) 32 WC_SHA256 \<bind> (\<lambda>(r2, early).
     hs_derive P (s\<lparr>l_early := early\<rparr>) \<bind> (\<lambda>(r3, s).
     let ret = r1 OR r2 OR r3 in
     Some (ret, if WOLFNANO_SEND_ALERTS P \<and> ret = WOLFNANO_SUCCESS then s\<lparr>c_keysReady := True\<rparr> else s))))"

section \<open>The messages of the flight\<close>

text \<open>
  The entries of a Certificate message: where each certificate starts in the message body, and its
  length. The loop stops after \<open>WN_MAX_CHAIN\<close> entries.
\<close>

partial_function (option) cert_entries ::
    "word32 \<Rightarrow> (word32 \<times> word32) list \<Rightarrow> wn_Reader \<Rightarrow> ((word32 \<times> word32) list \<times> wn_Reader) option" where
  "cert_entries listEnd es r =
     (if r_pos r < listEnd \<and> length es < WN_MAX_CHAIN \<and> r_err r = 0
      then
        wn_Read_U24 r \<bind> (\<lambda>(cl, r).
        let es = es @ [(r_pos r, cl)] in
        case wn_Read_Bytes r cl of (_, r) \<Rightarrow>
        wn_Read_U16 r \<bind> (\<lambda>(extl, r).
        case wn_Read_Bytes r (ucast extl) of (_, r) \<Rightarrow>
        cert_entries listEnd es r))
      else Some (es, r))"

text \<open>The framing of the message and its entries; \<open>body\<close> is the message without its header.\<close>

definition cert_list :: "bytes \<Rightarrow> word32 \<Rightarrow> (int \<times> (word32 \<times> word32) list) option" where
  "cert_list body mLen =
     wn_Read_U8 (wn_Reader_Init body mLen) \<bind> (\<lambda>(ctxLen, r).
     case wn_Read_Bytes r (ucast ctxLen) of (_, r) \<Rightarrow>
     wn_Read_U24 r \<bind> (\<lambda>(listLen, r).
     let listEnd = r_pos r + listLen in
     if r_err r \<noteq> 0 \<or> ctxLen \<noteq> 0 \<or> listEnd \<noteq> mLen then Some (WOLFNANO_E_DECODE, [])
     else
       cert_entries listEnd [] r \<bind> (\<lambda>(es, r).
       Some (if r_err r \<noteq> 0 then WOLFNANO_E_DECODE else WOLFNANO_SUCCESS, es))))"

definition cert_certificate :: "'o wc \<Rightarrow> 'o wcx \<Rightarrow> cert_args \<Rightarrow> word32 \<Rightarrow> ('o, 'io) cert_phase" where
  "cert_certificate P X a mLen s =
     (let body = hsacc_at s (c_off s + 4) in
      cert_list (drop body (l_scratch s)) mLen \<bind> (\<lambda>(ret, es).
      let s = s\<lparr>c_spkiLen := WN_LEAF_SPKI_SZ P X\<rparr> in
      ok (\<lambda>s.
        wn_VerifyChain P X (map (\<lambda>(p, _). drop (body + unat p) (l_scratch s)) es) (map snd es) (length es)
          (a_anchor a) (a_anchorLen a) (drop (leafSpki_at P X s) (l_scratch s)) (c_spkiLen s) (a_serverName a)
          (a_pinnedKey a) (a_pinnedKeyLen a) (XTIME X) \<bind> (\<lambda>(ret, spki, spkiLen).
        Some (ret, s\<lparr>l_scratch := take (leafSpki_at P X s) (l_scratch s) @ spki, c_spkiLen := spkiLen\<rparr>))) (ret, s)))"

definition cert_verify :: "'o wc \<Rightarrow> 'o wcx \<Rightarrow> word32 \<Rightarrow> ('o, 'io) cert_phase" where
  "cert_verify P X mLen s =
     (let body = hsacc_at s (c_off s + 4) in
      wn_Read_U16 (wn_Reader_Init (drop body (l_scratch s)) mLen) \<bind> (\<lambda>(scheme, r).
      wn_Read_U16 r \<bind> (\<lambda>(cvLen, r).
      if r_err r \<noteq> 0 \<or> gotCert (c_flight s) = 0 \<or> r_pos r + ucast cvLen \<noteq> mLen then Some (WOLFNANO_E_DECODE, s)
      else
        wn_CertVerify P X scheme (drop (leafSpki_at P X s) (l_scratch s)) (c_spkiLen s) (c_thCert s) 32
          (drop (body + unat (r_pos r)) (l_scratch s)) (ucast cvLen) \<bind> (\<lambda>ret. Some (ret, s)))))"

definition cert_finished :: "'o wc \<Rightarrow> word32 \<Rightarrow> ('o, 'io) cert_phase" where
  "cert_finished P mLen s =
     fail_if (gotCv (c_flight s) = 0) WOLFNANO_E_UNEXPECTED_MSG s \<bind>
     ok (\<lambda>s. hs_finished_mac P (l_sHs s) s) \<bind>
     ok (\<lambda>s.
       (if mLen \<noteq> 32 then Some True
        else
          mem_read (l_mac s) 0 32 \<bind> (\<lambda>m.
          mem_read (l_scratch s) (hsacc_at s (c_off s + 4)) 32 \<bind> (\<lambda>v.
          Some (ConstantCompare P m v \<noteq> 0)))) \<bind> (\<lambda>bad.
       if bad then Some (WOLFNANO_E_BAD_MAC, s) else Some (WOLFNANO_SUCCESS, s\<lparr>l_done := True\<rparr>)))"

definition cert_th_hash :: "'o wc \<Rightarrow> ('o, 'io) cert_phase" where
  "cert_th_hash P s =
     wn_Transcript_GetHash P (Some (l_tc s)) (Some (c_thCert s)) (Some 0) \<bind> (\<lambda>(ret, tc, th, _).
     tc \<bind> (\<lambda>tc. Some (ret, s\<lparr>l_tc := tc, c_thCert := th\<rparr>)))"

text \<open>A step that only one type of message takes.\<close>

definition for_type :: "bool \<Rightarrow> ('s \<Rightarrow> (int \<times> 's) option) \<Rightarrow> 's \<Rightarrow> (int \<times> 's) option" where
  "for_type c f s = (if c then f s else Some (WOLFNANO_SUCCESS, s))"

text \<open>What happens to a complete message, in the order of the code; the offset moves on in any case.\<close>

definition cert_handle :: "'o wc \<Rightarrow> 'o wcx \<Rightarrow> cert_args \<Rightarrow> byte \<Rightarrow> word32 \<Rightarrow> ('o, 'io) cert_phase" where
  "cert_handle P X a mType mLen s =
     (case wn_FlightOrder mType (c_flight s) of (ret, f) \<Rightarrow> Some (ret, s\<lparr>c_flight := f\<rparr>)) \<bind>
     ok (for_type (mType = 8) (\<lambda>s.
       wn_CheckEncExt (drop (hsacc_at s (c_off s + 4)) (l_scratch s)) mLen
         (case a_serverName a of None \<Rightarrow> False | Some n \<Rightarrow> n \<noteq> []) \<bind> (\<lambda>ret. Some (ret, s)))) \<bind>
     ok (for_type (mType = WN_HS_CERT_VERIFY) (cert_th_hash P)) \<bind>
     ok (for_type (mType = 20) (hs_get_hash P)) \<bind>
     ok (\<lambda>s. hs_update P (drop (hsacc_at s (c_off s)) (l_scratch s)) (mLen + 4) s) \<bind>
     ok (for_type (mType = WN_HS_CERTIFICATE) (cert_certificate P X a mLen)) \<bind>
     ok (for_type (mType = WN_HS_CERT_VERIFY) (cert_verify P X mLen)) \<bind>
     ok (for_type (mType = 20) (cert_finished P mLen)) \<bind> (\<lambda>(ret, s).
     Some (ret, s\<lparr>c_off := c_off s + (4 + mLen)\<rparr>))"

definition cert_msg :: "'o wc \<Rightarrow> 'o wcx \<Rightarrow> cert_args \<Rightarrow> ('o, 'io) cert_locals \<Rightarrow> (int \<times> bool \<times> ('o, 'io) cert_locals) option" where
  "cert_msg P X a s =
     mem_get (l_scratch s) (hsacc_at s (c_off s)) \<bind> (\<lambda>mType.
     mem_get (l_scratch s) (hsacc_at s (c_off s + 1)) \<bind> (\<lambda>b1.
     mem_get (l_scratch s) (hsacc_at s (c_off s + 2)) \<bind> (\<lambda>b2.
     mem_get (l_scratch s) (hsacc_at s (c_off s + 3)) \<bind> (\<lambda>b3.
     let mLen = push_bit 16 (ucast b1) OR push_bit 8 (ucast b2) OR ucast b3 :: word32 in
     if c_off s + 4 + mLen > l_accLen s then Some (WOLFNANO_SUCCESS, True, s)
     else cert_handle P X a mType mLen s \<bind> (\<lambda>(ret, s). Some (ret, False, s))))))"

partial_function (option) cert_msgs ::
    "'o wc \<Rightarrow> 'o wcx \<Rightarrow> cert_args \<Rightarrow> ('o, 'io) cert_locals \<Rightarrow> (int \<times> ('o, 'io) cert_locals) option" where
  "cert_msgs P X a s =
     (if \<not> l_done s \<and> l_accLen s - c_off s \<ge> 4
      then cert_msg P X a s \<bind> (\<lambda>(ret, brk, s).
        if brk \<or> ret \<noteq> WOLFNANO_SUCCESS then Some (ret, s) else cert_msgs P X a s)
      else Some (WOLFNANO_SUCCESS, s))"

text \<open>A record is opened in place, and its content appended to the flight.\<close>

definition cert_open :: "'o wc \<Rightarrow> word32 \<Rightarrow> ('o, 'io) cert_phase" where
  "cert_open P recLen s =
     wn_Record_Unprotect P (Some (drop 5 (l_scratch s))) (Some (l_plainLen s)) (Some (l_ctype s))
       (Some (l_sKey s)) 16 (Some (l_sIv s)) (l_sSeq s) (Some (l_scratch s)) recLen \<bind> (\<lambda>(ret, pl, n, ct).
     n \<bind> (\<lambda>n. ct \<bind> (\<lambda>ct.
     Some (ret, s\<lparr>l_scratch := take 5 (l_scratch s) @ pl, l_plainLen := n, l_ctype := ct, l_sSeq := l_sSeq s + 1\<rparr>))))"

definition cert_collect :: "'o wc \<Rightarrow> 'o wcx \<Rightarrow> ('o, 'io) cert_phase" where
  "cert_collect P X s =
     (if l_accLen s + l_plainLen s > WN_HS_ACC_SZ P X then Some (WOLFNANO_E_DECODE, s)
      else
        mem_read (l_scratch s) 5 (unat (l_plainLen s)) \<bind> (\<lambda>d.
        mem_write (l_scratch s) (hsacc_at s (l_accLen s)) d \<bind> (\<lambda>scr.
        Some (WOLFNANO_SUCCESS, s\<lparr>l_scratch := scr, l_accLen := l_accLen s + l_plainLen s\<rparr>))))"

definition cert_record :: "'o wc \<Rightarrow> 'o wcx \<Rightarrow> 'io wn_IoRecv \<Rightarrow> cert_args \<Rightarrow> ('o, 'io) cert_phase" where
  "cert_record P X recv a s =
     wn_RecvRecord recv (l_io s) (l_scratch s) (c_ioCap s) (l_rtype s) (l_recLen s) \<bind>
       (\<lambda>(ret, scr, rtype, recLen, io).
     let s = s\<lparr>l_scratch := scr, l_rtype := rtype, l_recLen := recLen, l_io := io\<rparr> in
     if ret = WOLFNANO_SUCCESS \<and> rtype = WN_REC_CHANGE_CIPHER then Some (WOLFNANO_SUCCESS, s)
     else
       ok (\<lambda>s. fail_if (rtype \<noteq> WN_REC_APPDATA) WOLFNANO_E_UNEXPECTED_MSG s) (ret, s) \<bind>
       ok (cert_open P recLen) \<bind>
       ok (\<lambda>s. fail_if (l_ctype s \<noteq> WN_REC_HANDSHAKE) WOLFNANO_E_UNEXPECTED_MSG s) \<bind>
       ok (cert_collect P X) \<bind>
       ok (cert_msgs P X a))"

partial_function (option) cert_flight ::
    "'o wc \<Rightarrow> 'o wcx \<Rightarrow> 'io wn_IoRecv \<Rightarrow> cert_args \<Rightarrow> ('o, 'io) cert_locals \<Rightarrow> (int \<times> ('o, 'io) cert_locals) option" where
  "cert_flight P X recv a s =
     (if l_done s then Some (WOLFNANO_SUCCESS, s)
      else cert_record P X recv a s \<bind> (\<lambda>(ret, s).
        if ret \<noteq> WOLFNANO_SUCCESS then Some (ret, s) else cert_flight P X recv a s))"

section \<open>The whole handshake\<close>

definition cert_client_finished :: "'o wc \<Rightarrow> 'io wn_IoSend \<Rightarrow> ('o, 'io) cert_phase" where
  "cert_client_finished P send s =
     hs_get_hash P s \<bind>
     ok (\<lambda>s. hs_finished_mac P (l_cHs s) s) \<bind>
     ok (\<lambda>s. hs_send_finished P send (if WOLFNANO_SEND_ALERTS P then s\<lparr>c_cHsSeq := 1\<rparr> else s))"

definition cert_run ::
    "'o wc \<Rightarrow> 'o wcx \<Rightarrow> 'io wn_IoSend \<Rightarrow> 'io wn_IoRecv \<Rightarrow> nat \<Rightarrow> cert_args \<Rightarrow> ('o, 'io) cert_phase" where
  "cert_run P X send recv ctx a s =
     cert_start P s \<bind>
     ok (hs_key_share P) \<bind>
     ok (cert_hello P send a) \<bind>
     ok (cert_server_hello P recv) \<bind>
     ok (cert_keys P) \<bind>
     ok (cert_flight P X recv a) \<bind>
     ok (cert_client_finished P send) \<bind>
     ok (hs_establish P send recv ctx (a_scratchLen a))"

definition cert_alert :: "'o wc \<Rightarrow> 'io wn_IoSend \<Rightarrow> int \<Rightarrow> ('o, 'io) cert_locals \<Rightarrow> ('o, 'io) cert_locals option" where
  "cert_alert P send ret s =
     (if WOLFNANO_SEND_ALERTS P \<and> ret < 0 \<and> c_keysReady s
      then wn_SendAlert P send (l_io s) (l_cKey s) (l_cIv s) (c_cHsSeq s) ret \<bind> (\<lambda>io. Some (s\<lparr>l_io := io\<rparr>))
      else Some s)"

text \<open>
  The secrets are wiped, and the flight in \<open>hsacc\<close>. The session's pointer, when it is set, is to the
  same scratch.
\<close>

definition cert_wipe :: "'o wc \<Rightarrow> ('o, 'io) cert_locals \<Rightarrow> ('o, 'io) cert_locals option" where
  "cert_wipe P s = do {
     s \<leftarrow> hs_wipe P s;
     scr \<leftarrow> (if l_accLen s > 0 then force_zero (l_scratch s) (unat (c_ioCap s)) (unat (l_accLen s)) else Some (l_scratch s));
     Some (s\<lparr>l_scratch := scr, l_sess := (l_sess s)\<lparr>scratch := map_option (\<lambda>_. scr) (scratch (l_sess s))\<rparr>\<rparr>)
   }"

definition cert_init ::
    "'o wc \<Rightarrow> 'o wcx \<Rightarrow> 'o \<Rightarrow> 'io \<Rightarrow> bytes \<Rightarrow> cert_args \<Rightarrow> ('o, 'io) cert_locals" where
  "cert_init P X rng io scr a =
     hs_locals.extend (init_locals P zero_session rng io scr)
       \<lparr>c_thCert = replicate 32 0, c_ioCap = a_scratchLen a - (WN_HS_ACC_SZ P X + WN_LEAF_SPKI_SZ P X), c_spkiLen = 0,
        c_off = 0, c_flight = flight_init, c_keysReady = False, c_cHsSeq = 0\<rparr>"

text \<open>The call with valid arguments, returning the locals as it leaves them on the stack.\<close>

definition cert_driver ::
    "'o wc \<Rightarrow> 'o wcx \<Rightarrow> 'o \<Rightarrow> 'io wn_IoSend \<Rightarrow> 'io wn_IoRecv \<Rightarrow> nat \<Rightarrow> 'io \<Rightarrow> cert_args \<Rightarrow> bytes \<Rightarrow>
     (int \<times> ('o, 'io) cert_locals) option" where
  "cert_driver P X rng send recv ctx io a scr =
     cert_run P X send recv ctx a (cert_init P X rng io scr a) \<bind> (\<lambda>(ret, s).
     cert_alert P send ret s \<bind> (\<lambda>s.
     cert_wipe P s \<bind> (\<lambda>s. Some (ret, s))))"

definition wn_connect_cert_impl ::
    "'o wc \<Rightarrow> 'o wcx \<Rightarrow> 'io wn_Session option \<Rightarrow> 'o option \<Rightarrow> 'io wn_IoSend option \<Rightarrow> 'io wn_IoRecv option \<Rightarrow> nat \<Rightarrow> 'io \<Rightarrow>
     bytes option \<Rightarrow> word32 \<Rightarrow> bytes option \<Rightarrow> word32 \<Rightarrow> bytes option \<Rightarrow> bytes option \<Rightarrow> word32 \<Rightarrow>
     (int \<times> 'io wn_Session option \<times> 'o option \<times> 'io \<times> bytes) option" where
  "wn_connect_cert_impl P X sess rng send recv ctx io anchor anchorLen scr scratchLen' serverName pinnedKey pinnedKeyLen =
     (case (sess, rng, send, recv, anchor, scr) of
        (Some _, Some g, Some snd', Some rcv, Some anc, Some b) \<Rightarrow>
          if scratchLen' < WN_CERT_SCRATCH_MIN P X
          then Some (WOLFNANO_E_INVALID_ARG, sess, rng, io, b)
          else
            cert_driver P X g snd' rcv ctx io
              \<lparr>a_anchor = anc, a_anchorLen = anchorLen, a_serverName = serverName, a_pinnedKey = pinnedKey,
               a_pinnedKeyLen = pinnedKeyLen, a_scratchLen = scratchLen'\<rparr> b \<bind> (\<lambda>(ret, s).
            Some (ret, Some (l_sess s), Some (l_rng s), l_io s, l_scratch s))
      | _ \<Rightarrow> Some (WOLFNANO_E_INVALID_ARG, sess, rng, io, buf scr))"

section \<open>The interface\<close>

definition wn_Connect_Cert_ex ::
    "'o wc \<Rightarrow> 'o wcx \<Rightarrow> 'io wn_Session option \<Rightarrow> 'o option \<Rightarrow> 'io wn_IoSend option \<Rightarrow> 'io wn_IoRecv option \<Rightarrow> nat \<Rightarrow> 'io \<Rightarrow>
     bytes option \<Rightarrow> word32 \<Rightarrow> bytes option \<Rightarrow> word32 \<Rightarrow>
     (int \<times> 'io wn_Session option \<times> 'o option \<times> 'io \<times> bytes) option" where
  "wn_Connect_Cert_ex P X sess rng send recv ctx io anchor anchorLen scr scratchLen' =
     wn_connect_cert_impl P X sess rng send recv ctx io anchor anchorLen scr scratchLen' None None 0"

definition wn_Connect_CertName_ex ::
    "'o wc \<Rightarrow> 'o wcx \<Rightarrow> 'io wn_Session option \<Rightarrow> 'o option \<Rightarrow> 'io wn_IoSend option \<Rightarrow> 'io wn_IoRecv option \<Rightarrow> nat \<Rightarrow> 'io \<Rightarrow>
     bytes option \<Rightarrow> word32 \<Rightarrow> bytes option \<Rightarrow> bytes option \<Rightarrow> word32 \<Rightarrow> bytes option \<Rightarrow> word32 \<Rightarrow>
     (int \<times> 'io wn_Session option \<times> 'o option \<times> 'io \<times> bytes) option" where
  "wn_Connect_CertName_ex P X sess rng send recv ctx io anchor anchorLen serverName pinnedKey pinnedKeyLen scr scratchLen' =
     (if serverName = None \<and> pinnedKey = None then Some (WOLFNANO_E_INVALID_ARG, sess, rng, io, buf scr)
      else
        wn_connect_cert_impl P X sess rng send recv ctx io anchor anchorLen scr scratchLen' serverName pinnedKey
          pinnedKeyLen)"

text \<open>The handshake-only forms wipe their local session.\<close>

definition wn_Connect_Cert ::
    "'o wc \<Rightarrow> 'o wcx \<Rightarrow> 'o option \<Rightarrow> 'io wn_IoSend option \<Rightarrow> 'io wn_IoRecv option \<Rightarrow> nat \<Rightarrow> 'io \<Rightarrow> bytes option \<Rightarrow> word32 \<Rightarrow>
     bytes option \<Rightarrow> word32 \<Rightarrow> (int \<times> 'o option \<times> 'io \<times> bytes) option" where
  "wn_Connect_Cert P X rng send recv ctx io anchor anchorLen scr scratchLen' =
     wn_Connect_Cert_ex P X (Some zero_session) rng send recv ctx io anchor anchorLen scr scratchLen' \<bind>
       (\<lambda>(ret, sess, rng, io, b). Some (ret, rng, io, b))"

definition wn_Connect_CertName ::
    "'o wc \<Rightarrow> 'o wcx \<Rightarrow> 'o option \<Rightarrow> 'io wn_IoSend option \<Rightarrow> 'io wn_IoRecv option \<Rightarrow> nat \<Rightarrow> 'io \<Rightarrow> bytes option \<Rightarrow> word32 \<Rightarrow>
     bytes option \<Rightarrow> bytes option \<Rightarrow> word32 \<Rightarrow> bytes option \<Rightarrow> word32 \<Rightarrow> (int \<times> 'o option \<times> 'io \<times> bytes) option" where
  "wn_Connect_CertName P X rng send recv ctx io anchor anchorLen serverName pinnedKey pinnedKeyLen scr scratchLen' =
     wn_Connect_CertName_ex P X (Some zero_session) rng send recv ctx io anchor anchorLen serverName pinnedKey pinnedKeyLen
       scr scratchLen' \<bind> (\<lambda>(ret, sess, rng, io, b). Some (ret, rng, io, b))"

end
