(* ===== verification/Wn_X509Spec.thy ===== *)
theory Wn_X509Spec
  imports Wn_X509 Wn_ClientHello
begin

text \<open>
  What the certificate checks accept: names as in RFC 6125, chains link by link up to the anchor,
  and leaves by key usage, pin, name and validity.
\<close>

section \<open>Names\<close>

text \<open>ASCII letters match in either case.\<close>

definition same_char :: "byte \<Rightarrow> byte \<Rightarrow> bool" where
  "same_char x y \<longleftrightarrow> x = y \<or> (65 \<le> x \<and> x \<le> 90 \<and> y = x + 32) \<or> (65 \<le> y \<and> y \<le> 90 \<and> x = y + 32)"

definition same_name :: "bytes \<Rightarrow> bytes \<Rightarrow> bool" where
  "same_name a b \<longleftrightarrow> list_all2 same_char a b"

text \<open>
  A pattern \<open>*.d\<close> stands for the hosts \<open>l.d'\<close> with one non-empty label \<open>l\<close> before a domain equal
  to \<open>d\<close>; every other pattern for the hosts equal to it.
\<close>

definition name_matches :: "bytes \<Rightarrow> bytes \<Rightarrow> bool" where
  "name_matches pat host \<longleftrightarrow>
     (if \<exists>d. pat = 42 # 46 # d \<and> d \<noteq> []
      then \<exists>l d. host = l @ 46 # d \<and> l \<noteq> [] \<and> 46 \<notin> set l \<and> same_name (drop 2 pat) d
      else same_name pat host)"

lemma lower_eq: "wn_AsciiLower x = wn_AsciiLower y \<longleftrightarrow> same_char x y"
  unfolding wn_AsciiLower_def same_char_def by (auto simp: word_le_nat_alt; unat_arith)

lemma case_eq_loop:
  assumes "i + n \<le> length a" and "i + n \<le> length b"
  shows "dns_case_eq_loop a b i n eq = Some (eq \<and> same_name (take n (drop i a)) (take n (drop i b)))"
  using assms
proof (induction n arbitrary: i eq)
  case (Suc n)
  then have "take (Suc n) (drop i a) = a ! i # take n (drop (Suc i) a)"
    and "take (Suc n) (drop i b) = b ! i # take n (drop (Suc i) b)"
    by (simp_all add: take_Suc_conv_app_nth Cons_nth_drop_Suc [symmetric])
  then show ?case
    using Suc by (auto simp: mem_get_in lower_eq same_name_def)
qed (simp add: same_name_def)

lemma DnsCaseEq_spec:
  "length a = n \<Longrightarrow> length b = n \<Longrightarrow> wn_DnsCaseEq a b (int n) = Some (same_name a b)"
  using case_eq_loop [of 0 n a b True] by (simp add: wn_DnsCaseEq_def)

lemma dns_label_spec:
  "k + n = length host \<Longrightarrow> dns_label host k n = Some (k + length (takeWhile (\<lambda>c. c \<noteq> 46) (drop k host)))"
proof (induction n arbitrary: k)
  case (Suc n)
  then show ?case
    by (simp add: mem_get_in Cons_nth_drop_Suc [symmetric])
qed simp

lemma label_split:
  assumes "k = length (takeWhile (\<lambda>c. c \<noteq> 46) host)" and "k < length host"
  shows "host = take k host @ 46 # drop (Suc k) host" and "46 \<notin> set (take k host)" and "drop k host = 46 # drop (Suc k) host"
proof -
  have t: "take k host = takeWhile (\<lambda>c. c \<noteq> 46) host"
    by (metis assms(1) takeWhile_eq_take)
  have h: "host ! k = 46"
    using assms nth_length_takeWhile [of "\<lambda>c. c \<noteq> 46" host] by simp
  show d: "drop k host = 46 # drop (Suc k) host"
    using Cons_nth_drop_Suc [OF assms(2)] h by simp
  show "host = take k host @ 46 # drop (Suc k) host"
    using append_take_drop_id [of k host] unfolding d by (rule sym)
  show "46 \<notin> set (take k host)"
    unfolding t by (auto dest: set_takeWhileD)
qed

lemma DnsNameMatch_spec:
  assumes "pat \<noteq> []" and "host \<noteq> []"
  shows "wn_DnsNameMatch (Some pat) (int (length pat)) (Some host) (int (length host)) =
    Some (if name_matches pat host then WOLFNANO_SUCCESS else WOLFNANO_E_BAD_CERT)"
proof (cases "\<exists>d. pat = 42 # 46 # d \<and> d \<noteq> []")
  case True
  then obtain d where d: "pat = 42 # 46 # d" "d \<noteq> []" by blast
  then have long: "int (length pat) > 2" "\<not> int (length pat) \<le> 0" "\<not> int (length host) \<le> 0"
    using assms by (auto simp: Suc_lessI)
  define k where "k = length (takeWhile (\<lambda>c. c \<noteq> 46) host)"
  have lab: "dns_label host 0 (length host) = Some k"
    using dns_label_spec [of 0 "length host" host] by (simp add: k_def)
  have wild: "(if int (length pat) > 2 then mem_get pat 0 \<bind> (\<lambda>c. if c = 42 then mem_get pat 1 \<bind> (\<lambda>d. Some (d = 46))
      else Some False) else Some False) = Some True"
    using long by (simp add: d mem_get_in)
  let ?sized = "0 < k \<and> k < length host \<and> length pat - 1 = length host - k"
  have eq: "wn_DnsCaseEq (drop 1 pat) (drop k host) (int (length pat) - 1) =
      Some (same_name (drop 1 pat) (drop k host))" if ?sized
  proof -
    have "length (drop 1 pat) = length pat - 1" and "length (drop k host) = length pat - 1"
      and "int (length pat - 1) = int (length pat) - 1"
      using that long(1) by auto
    then show ?thesis
      using DnsCaseEq_spec by metis
  qed
  have m: "name_matches pat host \<longleftrightarrow> ?sized \<and> same_name (drop 1 pat) (drop k host)"
  proof
    assume "name_matches pat host"
    then obtain l e where le: "host = l @ 46 # e" "l \<noteq> []" "46 \<notin> set l" "same_name d e"
      using True by (auto simp: name_matches_def d)
    have "k = length l"
      unfolding k_def le(1) using le(3) by (simp add: takeWhile_append)
    moreover have "length d = length e"
      using le(4) by (simp add: same_name_def list_all2_lengthD)
    ultimately show "?sized \<and> same_name (drop 1 pat) (drop k host)"
      using le by (simp add: d same_name_def same_char_def)
  next
    assume r: "?sized \<and> same_name (drop 1 pat) (drop k host)"
    have kl: "k < length host"
      using r by simp
    note sp = label_split [OF k_def kl]
    have "same_name d (drop (Suc k) host)"
      using r unfolding sp(3) by (simp add: d same_name_def)
    moreover have "take k host \<noteq> []"
      using r by auto
    ultimately have "\<exists>l e. host = l @ 46 # e \<and> l \<noteq> [] \<and> 46 \<notin> set l \<and> same_name (drop 2 pat) e"
      using sp(1,2) unfolding d(1) by (intro exI [of _ "take k host"] exI [of _ "drop (Suc k) host"]) simp
    then show "name_matches pat host"
      using True unfolding name_matches_def by simp
  qed
  have s: "0 < k \<and> int k < int (length host) \<and> int (length pat) - 1 = int (length host) - int k \<longleftrightarrow> ?sized"
    using long by auto
  have g: "(int (length pat) \<le> 0 \<or> int (length host) \<le> 0) = False"
    using long by simp
  show ?thesis
    unfolding wn_DnsNameMatch_def prod.case option.case g if_False wild Option.bind.bind_lunit if_True nat_int lab s m
    using eq by (cases ?sized) simp_all
next
  case False
  have nw: "(if int (length pat) > 2 then mem_get pat 0 \<bind> (\<lambda>c. if c = 42 then mem_get pat 1 \<bind> (\<lambda>d. Some (d = 46))
      else Some False) else Some False) = Some False"
  proof (cases pat rule: list.exhaust)
    case (Cons x xs)
    then show ?thesis
      using False by (cases xs) (auto simp: mem_get_in)
  qed (use assms in simp)
  have eq: "wn_DnsCaseEq pat host (int (length pat)) = Some (same_name pat host)" if "length pat = length host"
    by (rule DnsCaseEq_spec) (simp_all add: that)
  have m: "name_matches pat host \<longleftrightarrow> length pat = length host \<and> same_name pat host"
    using False by (auto simp: name_matches_def same_name_def dest: list_all2_lengthD)
  have g: "(int (length pat) \<le> 0 \<or> int (length host) \<le> 0) = False"
    using assms by simp
  show ?thesis
    unfolding wn_DnsNameMatch_def prod.case option.case g if_False nw Option.bind.bind_lunit of_nat_eq_iff m
    using eq by (cases "length pat = length host") simp_all
qed

text \<open>
  The names of a certificate: \<open>accepts\<close> is the match of one name, and the subject's common name
  counts only when the certificate has no DNS name.
\<close>

definition accepts :: "bytes option \<Rightarrow> bytes \<Rightarrow> bool" where
  "accepts p host \<longleftrightarrow> (case p of None \<Rightarrow> False | Some n \<Rightarrow> n \<noteq> [] \<and> host \<noteq> [] \<and> name_matches n host)"

lemma accepts_None [simp]: "\<not> accepts None host"
  by (simp add: accepts_def)

definition leaf_named :: "DecodedCert \<Rightarrow> bytes \<Rightarrow> bool" where
  "leaf_named leaf host \<longleftrightarrow>
     (let dns = filter (\<lambda>e. dns_type e = ASN_DNS_TYPE) (altNames leaf) in
      if dns = [] then accepts (subjectCN leaf) host else \<exists>e \<in> set dns. accepts (dns_name e) host)"

text \<open>The parser's strings come with their lengths.\<close>

definition wf_name :: "bytes option \<Rightarrow> int \<Rightarrow> bool" where
  "wf_name p len \<longleftrightarrow> (case p of None \<Rightarrow> True | Some n \<Rightarrow> len = int (length n))"

definition wf_cert :: "DecodedCert \<Rightarrow> bool" where
  "wf_cert c \<longleftrightarrow> length (publicKey c) = unat (pubKeySize c) \<and> wf_name (subjectCN c) (subjectCNLen c) \<and>
     (\<forall>e \<in> set (altNames c). wf_name (dns_name e) (dns_len e))"

lemma NameMatch_accepts:
  assumes "wf_name p len"
  shows "wn_DnsNameMatch p len (Some host) (int (length host)) =
    Some (if accepts p host then WOLFNANO_SUCCESS else WOLFNANO_E_BAD_CERT)"
proof (cases "\<exists>n. p = Some n \<and> n \<noteq> [] \<and> host \<noteq> []")
  case True
  then show ?thesis
    using assms DnsNameMatch_spec by (auto simp: wf_name_def accepts_def)
next
  case False
  then show ?thesis
    using assms by (auto simp: wn_DnsNameMatch_def wf_name_def accepts_def split: option.splits)
qed

lemma server_name_loop_spec:
  assumes "\<forall>e \<in> set es. wf_name (dns_name e) (dns_len e)"
  defines "dns \<equiv> filter (\<lambda>e. dns_type e = ASN_DNS_TYPE) es"
  shows "server_name_loop es host (int (length host)) saw ret =
    Some (saw \<or> dns \<noteq> [], if \<exists>e \<in> set dns. accepts (dns_name e) host then WOLFNANO_SUCCESS else ret)"
  using assms(1) unfolding dns_def
  by (induction es arbitrary: saw ret) (auto simp: NameMatch_accepts)

lemma CheckServerName_spec:
  assumes "wf_cert leaf" and "length host < 2 ^ 31"
  shows "wn_CheckServerName (Some leaf) (Some host) =
    Some (if leaf_named leaf host then WOLFNANO_SUCCESS else WOLFNANO_E_BAD_CERT)"
proof -
  let ?w = "word_of_nat (length host) :: word32"
  have "uint ?w = int (length host)"
    using assms(2) by (simp add: unsigned_of_nat take_bit_nat_eq_self flip: uint_nat)
  then have h: "sint ?w = int (length host)"
    using assms(2) by (simp add: sint_uint signed_take_bit_int_eq_self)
  have es: "\<forall>e \<in> set (altNames leaf). wf_name (dns_name e) (dns_len e)" and cn: "wf_name (subjectCN leaf) (subjectCNLen leaf)"
    using assms(1) by (simp_all add: wf_cert_def)
  show ?thesis
    unfolding wn_CheckServerName_def leaf_named_def Let_def prod.case option.case h server_name_loop_spec [OF es]
      Option.bind.bind_lunit NameMatch_accepts [OF cn]
    by (cases "filter (\<lambda>e. dns_type e = ASN_DNS_TYPE) (altNames leaf) = []"; cases "subjectCN leaf") auto
qed

section \<open>Chains\<close>

text \<open>
  \<open>signed_by\<close>: the issuer's certificate parses, and its key verifies the certificate. An
  issuer that was sent must be a CA within its validity, unless it is the anchor itself.
\<close>

definition signed_by :: "'o wcx \<Rightarrow> bytes \<Rightarrow> bytes \<Rightarrow> bool" where
  "signed_by X cert issuer \<longleftrightarrow>
     (case wc_ParseCert X issuer of (r, c) \<Rightarrow> r = 0 \<and> CheckCertSignaturePubKey X cert (publicKey c) (keyOID c) = 0)"

definition sent_issuer_ok :: "'o wcx \<Rightarrow> bytes \<Rightarrow> int \<Rightarrow> bytes \<Rightarrow> bool" where
  "sent_issuer_ok X anchor now issuer \<longleftrightarrow>
     isCA (snd (wc_ParseCert X issuer)) \<and>
     (NO_ASN_TIME X \<or> issuer = anchor \<or> wn_CertTimeValid X (snd (wc_ParseCert X issuer)) now = WOLFNANO_SUCCESS)"

fun chain_ok :: "'o wcx \<Rightarrow> bytes \<Rightarrow> int \<Rightarrow> bytes list \<Rightarrow> bool" where
  "chain_ok X anchor now [] = False"
| "chain_ok X anchor now [c] = signed_by X c anchor"
| "chain_ok X anchor now (c # d # cs) =
     (signed_by X c d \<and> sent_issuer_ok X anchor now d \<and> chain_ok X anchor now (d # cs))"

definition leaf_ok :: "'o wcx \<Rightarrow> DecodedCert \<Rightarrow> bytes option \<Rightarrow> bytes option \<Rightarrow> int \<Rightarrow> bool" where
  "leaf_ok X leaf host pin now \<longleftrightarrow>
     (extKeyUsageSet leaf \<longrightarrow> extKeyUsage leaf AND KEYUSE_DIGITAL_SIG X \<noteq> 0) \<and>
     (extExtKeyUsageSet leaf \<longrightarrow> extExtKeyUsage leaf AND EXTKEYUSE_SERVER_AUTH X \<noteq> 0) \<and>
     (\<forall>k. pin = Some k \<longrightarrow> k \<noteq> [] \<and> publicKey leaf = k) \<and>
     (\<forall>h. host = Some h \<longrightarrow> WOLFNANO_X509_HOSTNAME X \<and> leaf_named leaf h) \<and>
     (NO_ASN_TIME X \<or> wn_CertTimeValid X leaf now = WOLFNANO_SUCCESS)"

text \<open>The parser describes every certificate it accepts consistently.\<close>

definition parse_ok :: "'o wcx \<Rightarrow> bool" where
  "parse_ok X \<longleftrightarrow> (\<forall>der c. wc_ParseCert X der = (0, c) \<longrightarrow> wf_cert c)"

text \<open>A pointer and a length that denote the bytes of a certificate.\<close>

definition denotes :: "bytes \<Rightarrow> word32 \<Rightarrow> bytes \<Rightarrow> bool" where
  "denotes p n d \<longleftrightarrow> unat n \<le> length p \<and> take (unat n) p = d"

lemma read_denotes: "denotes p n d \<Longrightarrow> mem_read p 0 (unat n) = Some d"
  by (simp add: denotes_def mem_read_in)

lemma denotes_length: "denotes p n d \<Longrightarrow> length d = unat n"
  by (auto simp: denotes_def)

lemma CheckKeyPin_spec:
  assumes "compare_ok P" and "wf_cert leaf" and "denotes p n k"
  shows "wn_CheckKeyPin P (Some leaf) (Some p) n =
    Some (if k \<noteq> [] \<and> publicKey leaf = k then WOLFNANO_SUCCESS else WOLFNANO_E_BAD_CERT)"
proof -
  have k: "length k = unat n"
    using assms(3) by (auto simp: denotes_def)
  have l: "length (publicKey leaf) = unat (pubKeySize leaf)"
    using assms(2) by (simp add: wf_cert_def)
  have z: "k \<noteq> [] \<longleftrightarrow> n > 0"
    using k by (metis length_0_conv unat_eq_0 word_gt_0)
  show ?thesis
  proof (cases "n > 0 \<and> n = pubKeySize leaf")
    case True
    then have "mem_read (publicKey leaf) 0 (unat n) = Some (publicKey leaf)"
      using l by (simp add: mem_read_in)
    moreover have "ConstantCompare P (publicKey leaf) k = 0 \<longleftrightarrow> publicKey leaf = k"
      using assms(1) True k l by (simp add: compare_ok_def)
    ultimately show ?thesis
      using True z read_denotes [OF assms(3)] by (simp add: wn_CheckKeyPin_def)
  next
    case False
    then have "\<not> (k \<noteq> [] \<and> publicKey leaf = k)"
      using z k l by (metis word_unat_eq_iff)
    with False show ?thesis
      by (auto simp: wn_CheckKeyPin_def)
  qed
qed

lemma leaf_checks_spec:
  assumes "compare_ok P" and "wf_cert leaf"
    and "\<And>h. host = Some h \<Longrightarrow> length h < 2 ^ 31" and "\<And>p. pinp = Some p \<Longrightarrow> \<exists>k. pin = Some k \<and> denotes p n k"
    and "pinp = None \<Longrightarrow> pin = None"
  shows "\<exists>ret. leaf_checks P X leaf host pinp n now = Some ret \<and> (ret = WOLFNANO_SUCCESS \<longleftrightarrow> leaf_ok X leaf host pin now)"
proof -
  have p: "(if pinp \<noteq> None then wn_CheckKeyPin P (Some leaf) pinp n else Some WOLFNANO_SUCCESS) =
      Some (if \<forall>k. pin = Some k \<longrightarrow> k \<noteq> [] \<and> publicKey leaf = k then WOLFNANO_SUCCESS else WOLFNANO_E_BAD_CERT)"
    using assms(4,5) CheckKeyPin_spec [OF assms(1,2)] by (cases pinp) auto
  have h: "(if host \<noteq> None then if WOLFNANO_X509_HOSTNAME X then wn_CheckServerName (Some leaf) host
        else Some WOLFNANO_E_UNSUPPORTED else Some WOLFNANO_SUCCESS) =
      Some (case host of None \<Rightarrow> WOLFNANO_SUCCESS | Some h \<Rightarrow> if \<not> WOLFNANO_X509_HOSTNAME X then WOLFNANO_E_UNSUPPORTED
        else if leaf_named leaf h then WOLFNANO_SUCCESS else WOLFNANO_E_BAD_CERT)"
    using CheckServerName_spec [OF assms(2)] assms(3) by (cases host) auto
  show ?thesis
    unfolding leaf_checks_def p h Option.bind.bind_lunit leaf_ok_def
    by (auto split: option.splits)
qed

lemma list_get_in [simp]: "i < length xs \<Longrightarrow> list_get xs i = Some (xs ! i)"
  by (simp add: list_get_def)

lemma parse_key:
  assumes "parse_ok X" and "wc_ParseCert X der = (0, c)"
  shows "mem_read (publicKey c) 0 (unat (pubKeySize c)) = Some (publicKey c)"
  using assms by (simp add: parse_ok_def wf_cert_def mem_read_in)

text \<open>The list of pointers and lengths, and what the certificates are.\<close>

definition denote_all :: "bytes list \<Rightarrow> word32 list \<Rightarrow> bytes list \<Rightarrow> bool" where
  "denote_all ps ns ds \<longleftrightarrow> length ps = length ds \<and> length ns = length ds \<and> (\<forall>i < length ds. denotes (ps ! i) (ns ! i) (ds ! i))"

lemma chain_link_spec:
  assumes "compare_ok P" and "parse_ok X" and "denote_all certs lens ds" and "denotes anchor anchorLen a"
    and "i < length ds"
  shows "\<exists>ret. chain_link P X certs lens (length ds) anchor anchorLen now i = Some ret \<and>
    (ret = WOLFNANO_SUCCESS \<longleftrightarrow>
      (if Suc i < length ds then signed_by X (ds ! i) (ds ! Suc i) \<and> sent_issuer_ok X a now (ds ! Suc i)
       else signed_by X (ds ! i) a))"
proof -
  have c: "mem_read (certs ! i) 0 (unat (lens ! i)) = Some (ds ! i)"
    using assms(3,5) by (auto simp: denote_all_def intro: read_denotes)
  have l: "i < length certs" "i < length lens" "Suc i < length ds \<Longrightarrow> Suc i < length certs"
      "Suc i < length ds \<Longrightarrow> Suc i < length lens"
    using assms(3,5) by (simp_all add: denote_all_def)
  obtain r issuer where pc: "wc_ParseCert X (if Suc i < length ds then ds ! Suc i else a) = (r, issuer)"
    by fastforce
  have key: "r = 0 \<Longrightarrow> mem_read (publicKey issuer) 0 (unat (pubKeySize issuer)) = Some (publicKey issuer)"
    using parse_key [OF assms(2)] pc by simp
  show ?thesis
  proof (cases "Suc i < length ds")
    case True
    have d: "denotes (certs ! Suc i) (lens ! Suc i) (ds ! Suc i)"
      using assms(3) True by (simp add: denote_all_def)
    have same: "ConstantCompare P (ds ! Suc i) a = 0 \<longleftrightarrow> ds ! Suc i = a" if "lens ! Suc i = anchorLen"
    proof -
      have "length (ds ! Suc i) = length a"
        by (simp add: denotes_length [OF assms(4)] denotes_length [OF d] that)
      then show ?thesis
        using assms(1) by (simp add: compare_ok_def)
    qed
    have other: "lens ! Suc i \<noteq> anchorLen \<Longrightarrow> ds ! Suc i \<noteq> a"
      using denotes_length [OF assms(4)] denotes_length [OF d] by (metis word_unat_eq_iff)
    show ?thesis
      using True pc key c l same other read_denotes [OF d] read_denotes [OF assms(4)]
      by (auto simp: chain_link_def signed_by_def sent_issuer_ok_def)
  next
    case False
    then show ?thesis
      using pc key c l read_denotes [OF assms(4)] by (auto simp: chain_link_def signed_by_def)
  qed
qed

lemma chain_ok_drop:
  "i < length ds \<Longrightarrow> chain_ok X a now (drop i ds) \<longleftrightarrow>
    (if Suc i < length ds then signed_by X (ds ! i) (ds ! Suc i) \<and> sent_issuer_ok X a now (ds ! Suc i) \<and>
       chain_ok X a now (drop (Suc i) ds)
     else signed_by X (ds ! i) a)"
  by (cases "drop (Suc i) ds") (auto simp: Cons_nth_drop_Suc [symmetric])

lemma chain_loop_spec:
  assumes "compare_ok P" and "parse_ok X" and "denote_all certs lens ds" and "denotes anchor anchorLen a"
    and "i + m = length ds"
  shows "\<exists>ret. chain_loop (chain_link P X certs lens (length ds) anchor anchorLen now) i m = Some ret \<and>
    (ret = WOLFNANO_SUCCESS \<longleftrightarrow> m = 0 \<or> chain_ok X a now (drop i ds))"
  using assms(5)
proof (induction m arbitrary: i)
  case (Suc m)
  then have i: "i < length ds" and s: "Suc i + m = length ds" by simp_all
  obtain ret where ret: "chain_link P X certs lens (length ds) anchor anchorLen now i = Some ret"
    and good: "ret = WOLFNANO_SUCCESS \<longleftrightarrow>
      (if Suc i < length ds then signed_by X (ds ! i) (ds ! Suc i) \<and> sent_issuer_ok X a now (ds ! Suc i)
       else signed_by X (ds ! i) a)"
    using chain_link_spec [OF assms(1-4) i] by blast
  from Suc.IH [OF s] show ?case
    using ret good i s by (auto simp: chain_ok_drop [OF i])
qed simp

lemma VerifyChain_spec:
  assumes "compare_ok P" and "parse_ok X" and "denote_all certs lens ds" and "denotes anchor anchorLen a"
    and "unat cap \<le> length spki" and "\<And>h. host = Some h \<Longrightarrow> length h < 2 ^ 31"
    and "\<And>p. pinp = Some p \<Longrightarrow> \<exists>k. pin = Some k \<and> denotes p pn k" and "pinp = None \<Longrightarrow> pin = None"
  shows "\<exists>ret spki' n. wn_VerifyChain P X certs lens (length ds) anchor anchorLen spki cap host pinp pn now =
      Some (ret, spki', n) \<and> length spki' = length spki \<and>
    (ret = WOLFNANO_SUCCESS \<longleftrightarrow>
      chain_ok X a now ds \<and> fst (wc_ParseCert X (hd ds)) = 0 \<and> pubKeySize (snd (wc_ParseCert X (hd ds))) \<le> cap \<and>
      leaf_ok X (snd (wc_ParseCert X (hd ds))) host pin now) \<and>
    (ret = WOLFNANO_SUCCESS \<longrightarrow> unat n \<le> length spki' \<and> take (unat n) spki' = publicKey (snd (wc_ParseCert X (hd ds))))"
proof (cases "ds = []")
  case True
  then show ?thesis
    by (simp add: wn_VerifyChain_def)
next
  case False
  then have pos: "0 < length ds" "\<not> length ds < 1" and hd: "ds ! 0 = hd ds"
    by (simp_all add: hd_conv_nth not_less Suc_leI)
  obtain ret where lp: "chain_loop (chain_link P X certs lens (length ds) anchor anchorLen now) 0 (length ds) = Some ret"
    and good: "ret = WOLFNANO_SUCCESS \<longleftrightarrow> chain_ok X a now ds"
    using chain_loop_spec [OF assms(1-4), of 0 "length ds" now] pos by auto
  have c: "list_get certs 0 = Some (certs ! 0)" "list_get lens 0 = Some (lens ! 0)"
    "mem_read (certs ! 0) 0 (unat (lens ! 0)) = Some (hd ds)"
    using assms(3) pos hd by (auto simp: denote_all_def intro!: read_denotes)
  obtain r leaf where pc: "wc_ParseCert X (hd ds) = (r, leaf)" by fastforce
  show ?thesis
  proof (cases "ret = WOLFNANO_SUCCESS \<and> r = 0 \<and> pubKeySize leaf \<le> cap")
    case True
    then have wf: "wf_cert leaf" and key: "mem_read (publicKey leaf) 0 (unat (pubKeySize leaf)) = Some (publicKey leaf)"
      using assms(2) pc parse_key [OF assms(2)] by (auto simp: parse_ok_def)
    have kl: "length (publicKey leaf) \<le> length spki" "length (publicKey leaf) = unat (pubKeySize leaf)"
      using True wf assms(5) by (simp_all add: wf_cert_def word_le_nat_alt)
    obtain ret' where lc: "leaf_checks P X leaf host pinp pn now = Some ret'"
      and lg: "ret' = WOLFNANO_SUCCESS \<longleftrightarrow> leaf_ok X leaf host pin now"
      using leaf_checks_spec [OF assms(1) wf assms(6-8)] by blast
    show ?thesis
      using True pos lp c pc key kl lc lg good
      by (simp add: wn_VerifyChain_def mem_write_in leD)
  next
    case False
    then show ?thesis
      using pos lp c pc good by (auto simp: wn_VerifyChain_def not_less)
  qed
qed

section \<open>CertificateVerify\<close>

text \<open>The content the server signs (RFC 8446, section 4.4.3).\<close>

definition cv_content :: "bytes \<Rightarrow> bytes" where
  "cv_content th = replicate 64 0x20 @ ascii ''TLS 1.3, server CertificateVerify'' @ [0] @ th"

definition ecdsa_ok :: "'o wc \<Rightarrow> 'o wcx \<Rightarrow> hash_type \<Rightarrow> int \<Rightarrow> bytes \<Rightarrow> bytes \<Rightarrow> bytes \<Rightarrow> bool" where
  "ecdsa_ok P X ht curve key m sig \<longleftrightarrow>
     (case (wc_Hash X ht m, wc_EccPublicKeyDecode X key (snd (wc_ecc_init P))) of ((rh, h), (rk, k)) \<Rightarrow>
        rh = 0 \<and> fst (wc_ecc_init P) = 0 \<and> rk = 0 \<and> ecc_dp_size X k = Some curve \<and> wc_ecc_verify_hash X sig h k = (0, 1))"

definition ed25519_ok :: "'o wcx \<Rightarrow> bytes \<Rightarrow> bytes \<Rightarrow> bytes \<Rightarrow> bool" where
  "ed25519_ok X key m sig \<longleftrightarrow> fst (wc_ed25519_init X) = 0 \<and>
     (case (if length key = 32 then wc_ed25519_import_public X key (snd (wc_ed25519_init X))
            else wc_Ed25519PublicKeyDecode X key (snd (wc_ed25519_init X))) of (r, k) \<Rightarrow>
        r = 0 \<and> wc_ed25519_verify_msg X sig m k = (0, 1))"

definition rsa_pss_ok :: "'o wcx \<Rightarrow> hash_type \<Rightarrow> mgf_type \<Rightarrow> bytes \<Rightarrow> bytes \<Rightarrow> bytes \<Rightarrow> bool" where
  "rsa_pss_ok X ht mgf key m sig \<longleftrightarrow>
     (case (wc_Hash X ht m, wc_RsaPublicKeyDecode X key (snd (wc_InitRsaKey X))) of ((rh, h), (rk, k)) \<Rightarrow>
        rh = 0 \<and> fst (wc_InitRsaKey X) = 0 \<and> rk = 0 \<and> 0 \<le> wc_RsaPSS_VerifyCheck X sig 512 h ht mgf k)"

definition mldsa_ok :: "'o wcx \<Rightarrow> bytes \<Rightarrow> bytes \<Rightarrow> bytes \<Rightarrow> bool" where
  "mldsa_ok X key m sig \<longleftrightarrow>
     (case wc_MlDsaKey_SetParams X (snd (wc_MlDsaKey_Init X)) (WN_MLDSA_PARAM X) of (rp, k) \<Rightarrow>
      case wc_MlDsaKey_PublicKeyDecode X k key of (rk, k) \<Rightarrow>
        fst (wc_MlDsaKey_Init X) = 0 \<and> rp = 0 \<and> rk = 0 \<and> wc_MlDsaKey_VerifyCtx X k sig [] m = (0, 1))"

text \<open>The schemes a build verifies, and what each demands of key, content and signature.\<close>

definition scheme_ok :: "'o wc \<Rightarrow> 'o wcx \<Rightarrow> word16 \<Rightarrow> bytes \<Rightarrow> bytes \<Rightarrow> bytes \<Rightarrow> bool" where
  "scheme_ok P X scheme key m sig \<longleftrightarrow>
     (if scheme = 0x0403 then ecdsa_ok P X WC_HASH_TYPE_SHA256 32 key m sig
      else if HAVE_ECC384 P \<and> WOLFSSL_SHA384 P \<and> scheme = 0x0503 then ecdsa_ok P X WC_HASH_TYPE_SHA384 48 key m sig
      else if HAVE_ED25519 P \<and> scheme = 0x0807 then ed25519_ok X key m sig
      else if \<not> NO_RSA P \<and> scheme = 0x0804 then rsa_pss_ok X WC_HASH_TYPE_SHA256 WC_MGF1SHA256 key m sig
      else if \<not> NO_RSA P \<and> WOLFSSL_SHA384 P \<and> scheme = 0x0805 then rsa_pss_ok X WC_HASH_TYPE_SHA384 WC_MGF1SHA384 key m sig
      else if \<not> NO_RSA P \<and> WOLFSSL_SHA512 P \<and> scheme = 0x0806 then rsa_pss_ok X WC_HASH_TYPE_SHA512 WC_MGF1SHA512 key m sig
      else if WOLFSSL_HAVE_MLDSA P \<and> scheme = WN_MLDSA_SCHEME P then mldsa_ok X key m sig
      else False)"

text \<open>Digests have their documented sizes and fit the buffer.\<close>

definition hash_ok :: "'o wc \<Rightarrow> 'o wcx \<Rightarrow> bool" where
  "hash_ok P X \<longleftrightarrow> 32 \<le> WC_MAX_DIGEST_SIZE P \<and>
     (\<forall>ht m. 0 < wc_HashGetDigestSize X ht \<and> int (length (snd (wc_Hash X ht m))) = wc_HashGetDigestSize X ht \<and>
        length (snd (wc_Hash X ht m)) \<le> WC_MAX_DIGEST_SIZE P)"

lemma BuildCvTbs_spec:
  assumes "98 + length th \<le> length b" and "unat n = length th"
  shows "wn_BuildCvTbs b th n = Some (cv_content th @ drop (98 + length th) b, 98 + n)"
proof -
  let ?A = "replicate 64 (0x20 :: byte)" and ?L = "ascii ''TLS 1.3, server CertificateVerify''"
  have L: "length ?L = 33"
    by simp
  have 1: "mem_write b 0 ?A = Some (?A @ drop 64 b)"
    using assms(1) by (simp add: mem_write_in)
  have 2: "mem_write (?A @ drop 64 b) 64 ?L = Some (?A @ ?L @ drop 97 b)"
    using assms(1) by (subst mem_write_in) (simp_all del: length_ascii add: L)
  have d: "drop 97 b = b ! 97 # drop 98 b"
    using assms(1) Cons_nth_drop_Suc [of 97 b] by simp
  have 3: "mem_set (?A @ ?L @ drop 97 b) 97 0 = Some (?A @ ?L @ 0 # drop 98 b)"
    unfolding d using assms(1) by (subst mem_set_in) (simp_all del: length_ascii add: L list_update_append)
  have 4: "mem_write (?A @ ?L @ 0 # drop 98 b) 98 th = Some (?A @ ?L @ 0 # th @ drop (98 + length th) b)"
    using assms(1) by (subst mem_write_in) (simp_all del: length_ascii add: L add.commute)
  show ?thesis
    unfolding wn_BuildCvTbs_def 1 2 3 Option.bind.bind_lunit
    using 4 assms(2) by (simp add: mem_read_in cv_content_def)
qed

lemma length_cv_content: "length (cv_content th) = 98 + length th"
  by (simp add: cv_content_def)

lemma cv_hash_spec:
  assumes "hash_ok P X" and "denotes tbs n m"
  shows "cv_hash P X ht tbs n = Some (if fst (wc_Hash X ht m) = 0 then WOLFNANO_SUCCESS else WOLFNANO_E_CRYPTO,
      snd (wc_Hash X ht m) @ drop (length (snd (wc_Hash X ht m))) (replicate (WC_MAX_DIGEST_SIZE P) 0)) \<and>
    mem_read (snd (wc_Hash X ht m) @ drop (length (snd (wc_Hash X ht m))) (replicate (WC_MAX_DIGEST_SIZE P) 0)) 0
      (nat (wc_HashGetDigestSize X ht)) = Some (snd (wc_Hash X ht m))"
proof -
  obtain r h where e: "wc_Hash X ht m = (r, h)" by fastforce
  have s: "0 < wc_HashGetDigestSize X ht" "int (length h) = wc_HashGetDigestSize X ht" "length h \<le> WC_MAX_DIGEST_SIZE P"
    using assms(1) e by (metis hash_ok_def snd_conv)+
  then have "nat (wc_HashGetDigestSize X ht) = length h"
    by linarith
  then show ?thesis
    using s e read_denotes [OF assms(2)] by (simp add: cv_hash_def Let_def mem_read_in mem_write_in)
qed

lemma CvEcdsa_spec:
  assumes "hash_ok P X" and "denotes tbs n m" and "denotes spki kn key" and "denotes sp sn sig"
  shows "\<exists>ret. wn_CvEcdsa P X spki kn ht curve tbs n sp sn = Some ret \<and> (ret = WOLFNANO_SUCCESS \<longleftrightarrow> ecdsa_ok P X ht curve key m sig)"
  using cv_hash_spec [OF assms(1,2), of ht] read_denotes [OF assms(3)] read_denotes [OF assms(4)]
  by (auto simp: wn_CvEcdsa_def ecdsa_ok_def split: prod.splits)

lemma CvRsaPss_spec:
  assumes "hash_ok P X" and "denotes tbs n m" and "denotes spki kn key" and "denotes sp sn sig"
  shows "\<exists>ret. wn_CvRsaPss P X spki kn ht mgf tbs n sp sn = Some ret \<and> (ret = WOLFNANO_SUCCESS \<longleftrightarrow> rsa_pss_ok X ht mgf key m sig)"
  using cv_hash_spec [OF assms(1,2), of ht] read_denotes [OF assms(3)] read_denotes [OF assms(4)]
  by (auto simp: wn_CvRsaPss_def rsa_pss_ok_def not_less split: prod.splits)

lemma CvEd25519_spec:
  assumes "denotes tbs n m" and "denotes spki kn key" and "denotes sp sn sig"
  shows "\<exists>ret. wn_CvEd25519 X spki kn tbs n sp sn = Some ret \<and> (ret = WOLFNANO_SUCCESS \<longleftrightarrow> ed25519_ok X key m sig)"
proof -
  have "length key = 32 \<longleftrightarrow> kn = 32"
    unfolding denotes_length [OF assms(2)] by (simp add: word_unat_eq_iff)
  then show ?thesis
    using read_denotes [OF assms(1)] read_denotes [OF assms(2)] read_denotes [OF assms(3)]
    by (auto simp: wn_CvEd25519_def ed25519_ok_def split: prod.splits)
qed

lemma CvMlDsa_spec:
  assumes "denotes tbs n m" and "denotes spki kn key" and "denotes sp sn sig"
  shows "\<exists>ret. wn_CvMlDsa X spki kn tbs n sp sn = Some ret \<and> (ret = WOLFNANO_SUCCESS \<longleftrightarrow> mldsa_ok X key m sig)"
  using read_denotes [OF assms(1)] read_denotes [OF assms(2)] read_denotes [OF assms(3)]
  by (auto simp: wn_CvMlDsa_def mldsa_ok_def split: prod.splits)

lemma verdict_if:
  fixes A A' :: "int option"
  assumes "\<exists>r. A = Some r \<and> (r = 0 \<longleftrightarrow> B)" and "\<exists>r. A' = Some r \<and> (r = 0 \<longleftrightarrow> B')"
  shows "\<exists>r. (if c then A else A') = Some r \<and> (r = 0 \<longleftrightarrow> (if c then B else B'))"
  using assms by simp

lemma CertVerify_spec:
  assumes h: "hash_ok P X" and k: "denotes spki kn key" and t: "denotes thp 32 th" and s: "denotes sp sn sig"
  shows "\<exists>ret. wn_CertVerify P X scheme spki kn thp 32 sp sn = Some ret \<and>
    (ret = WOLFNANO_SUCCESS \<longleftrightarrow> scheme_ok P X scheme key (cv_content th) sig)"
proof -
  let ?b = "replicate (64 + 33 + 1 + WC_MAX_DIGEST_SIZE P) (0 :: byte)"
  have l: "length th = 32" and m: "32 \<le> WC_MAX_DIGEST_SIZE P"
    using denotes_length [OF t] h by (simp_all add: hash_ok_def)
  obtain tbs where b: "wn_BuildCvTbs ?b thp 32 = Some (tbs, 98 + 32)" and d: "denotes tbs (98 + 32) (cv_content th)"
  proof
    have "wn_BuildCvTbs ?b thp 32 = wn_BuildCvTbs ?b th 32"
      using t l by (simp add: wn_BuildCvTbs_def mem_read_def denotes_def)
    then show "wn_BuildCvTbs ?b thp 32 = Some (cv_content th @ drop (98 + length th) ?b, 98 + 32)"
      using BuildCvTbs_spec [of th ?b 32] l m by simp
    show "denotes (cv_content th @ drop (98 + length th) ?b) (98 + 32) (cv_content th)"
      using l by (simp add: denotes_def length_cv_content)
  qed
  show ?thesis
    unfolding wn_CertVerify_def b Option.bind.bind_lunit prod.case scheme_ok_def
    by (intro verdict_if CvEcdsa_spec [OF h d k s] CvRsaPss_spec [OF h d k s] CvEd25519_spec [OF d k s] CvMlDsa_spec [OF d k s])
      simp
qed

section \<open>A concrete instance\<close>

text \<open>
  A certificate is its bytes: the first 8 are the key, the second is the number of the key that
  signed it, and the name is \<open>*.b\<close>. A signature is the key it verifies under.
\<close>

definition demo_cert :: "bytes \<Rightarrow> DecodedCert" where
  "demo_cert d = \<lparr>publicKey = take 8 d, pubKeySize = word_of_nat (length (take 8 d)), keyOID = 0, isCA = True,
     altNames = [\<lparr>dns_type = ASN_DNS_TYPE, dns_name = Some [42, 46, 98], dns_len = 3\<rparr>], subjectCN = None, subjectCNLen = 0,
     extKeyUsageSet = True, extKeyUsage = 1, extExtKeyUsageSet = False, extExtKeyUsage = 0,
     beforeDate = Some [], beforeDateLen = 0, afterDate = Some [], afterDateLen = 0\<rparr>"

definition demo_wcx :: "bytes wcx" where
  "demo_wcx = \<lparr>NO_ASN_TIME = False, WOLFNANO_X509_HOSTNAME = True, WOLFNANO_MLDSA_LEVEL = 2, KEYUSE_DIGITAL_SIG = 1,
     EXTKEYUSE_SERVER_AUTH = 2, XTIME = 7, wc_HashGetDigestSize = (\<lambda>t. 32), wc_Hash = (\<lambda>t m. (0, pad 32 m)),
     wc_EccPublicKeyDecode = (\<lambda>k c. (0, k)), ecc_dp_size = (\<lambda>k. Some 32), wc_ecc_verify_hash = (\<lambda>s h k. (0, if s = k then 1 else 0)),
     wc_ed25519_init = (0, []), wc_ed25519_import_public = (\<lambda>k c. (0, k)), wc_Ed25519PublicKeyDecode = (\<lambda>k c. (0, k)),
     wc_ed25519_verify_msg = (\<lambda>s m k. (0, if s = k then 1 else 0)), wc_InitRsaKey = (0, []), wc_RsaPublicKeyDecode = (\<lambda>k c. (0, k)),
     wc_RsaPSS_VerifyCheck = (\<lambda>s n h t g k. if s = k then 0 else - 1), wc_MlDsaKey_Init = (0, []),
     wc_MlDsaKey_SetParams = (\<lambda>c p. (0, c)), wc_MlDsaKey_PublicKeyDecode = (\<lambda>c k. (0, k)),
     wc_MlDsaKey_VerifyCtx = (\<lambda>k s c m. (0, if s = k then 1 else 0)), wc_ParseCert = (\<lambda>d. (0, demo_cert d)),
     CheckCertSignaturePubKey = (\<lambda>c k oid. if take 1 (drop 1 c) = take 1 k then 0 else - 1),
     wc_GetDateInfo = (\<lambda>d n. (0, d, 0, n)), wc_ValidateDateWithTime = (\<lambda>d f c now n. 1)\<rparr>"

lemma demo_parse_ok: "parse_ok demo_wcx"
  by (auto simp: parse_ok_def demo_wcx_def demo_cert_def wf_cert_def wf_name_def)

lemma demo_hash_ok: "hash_ok demo_wc demo_wcx"
  by (simp add: hash_ok_def demo_wcx_def demo_wc_def)

section \<open>Properties\<close>

text \<open>
  C32. The name check is total and exact: it succeeds exactly when a DNS name of the certificate
  matches the host, or, when there is none, the common name does. A name matches when it equals
  the host up to the case of ASCII letters, or is \<open>*.d\<close> and the host is one non-empty label in
  front of \<open>d\<close>; a wildcard never spans a dot, and a zero byte in a name matches nothing.
\<close>

theorem check_server_name_exact:
  assumes "wf_cert leaf" and "length host < 2 ^ 31"
  shows "wn_CheckServerName (Some leaf) (Some host) =
    Some (if leaf_named leaf host then WOLFNANO_SUCCESS else WOLFNANO_E_BAD_CERT)"
  using assms by (rule CheckServerName_spec)

theorem check_server_name_exact_witness:
  "wn_CheckServerName (Some (demo_cert [])) (Some [97, 46, 66]) = Some WOLFNANO_SUCCESS \<and>
   leaf_named (demo_cert []) [97, 46, 66]"
proof -
  have "wf_cert (demo_cert [])"
    by (simp add: wf_cert_def demo_cert_def wf_name_def)
  moreover have "\<exists>l d. [97, 46, 66 :: byte] = l @ 46 # d \<and> l \<noteq> [] \<and> 46 \<notin> set l \<and> same_name [98] d"
    by (intro exI [of _ "[97]"] exI [of _ "[66]"]) (simp add: same_name_def same_char_def)
  then have "leaf_named (demo_cert []) [97, 46, 66]"
    by (simp add: leaf_named_def demo_cert_def accepts_def name_matches_def)
  ultimately show ?thesis
    using check_server_name_exact [of "demo_cert []" "[97, 46, 66]"] by simp
qed

text \<open>
  C31. Chain verification is total and stays in bounds. It succeeds exactly when every certificate
  is signed by the next and the last by the pinned anchor, every issuer that was sent is a CA and
  (unless it is the anchor itself) within its validity, and the leaf passes: key usages, the
  public key pin and the server name where the caller gave them, its validity, and a key that
  fits. Then exactly the key of the leaf is handed on.
\<close>

theorem verify_chain_exact:
  assumes "compare_ok P" and "parse_ok X" and "denote_all certs lens ds" and "denotes anchor anchorLen a"
    and "unat cap \<le> length spki" and "\<And>h. host = Some h \<Longrightarrow> length h < 2 ^ 31"
    and "\<And>p. pinp = Some p \<Longrightarrow> \<exists>k. pin = Some k \<and> denotes p pn k" and "pinp = None \<Longrightarrow> pin = None"
  shows "\<exists>ret spki' n. wn_VerifyChain P X certs lens (length ds) anchor anchorLen spki cap host pinp pn now =
      Some (ret, spki', n) \<and> length spki' = length spki \<and>
    (ret = WOLFNANO_SUCCESS \<longleftrightarrow>
      chain_ok X a now ds \<and> fst (wc_ParseCert X (hd ds)) = 0 \<and> pubKeySize (snd (wc_ParseCert X (hd ds))) \<le> cap \<and>
      leaf_ok X (snd (wc_ParseCert X (hd ds))) host pin now) \<and>
    (ret = WOLFNANO_SUCCESS \<longrightarrow> unat n \<le> length spki' \<and> take (unat n) spki' = publicKey (snd (wc_ParseCert X (hd ds))))"
  by (rule VerifyChain_spec [OF assms])

theorem verify_chain_exact_witness:
  "\<exists>spki n. wn_VerifyChain demo_wc demo_wcx [[1, 2, 9], [2, 3]] [2, 2] 2 [3, 3] 2 (replicate 16 0) 16
     (Some [97, 46, 98]) (Some [1, 2]) 2 7 = Some (WOLFNANO_SUCCESS, spki, n)"
proof -
  have p: "wc_ParseCert demo_wcx d = (0, demo_cert d)" for d
    by (simp add: demo_wcx_def)
  have t: "wn_CertTimeValid demo_wcx (demo_cert d) 7 = WOLFNANO_SUCCESS" for d
    by (simp add: wn_CertTimeValid_def cert_date_ok_def demo_wcx_def demo_cert_def)
  have ch: "chain_ok demo_wcx [3, 3] 7 [[1, 2], [2, 3]]"
    by (simp add: signed_by_def sent_issuer_ok_def p t) (simp add: demo_wcx_def demo_cert_def)
  have "\<exists>l d. [97, 46, 98 :: byte] = l @ 46 # d \<and> l \<noteq> [] \<and> 46 \<notin> set l \<and> same_name [98] d"
    by (intro exI [of _ "[97]"] exI [of _ "[98]"]) (simp add: same_name_def same_char_def)
  then have lf: "leaf_ok demo_wcx (demo_cert [1, 2]) (Some [97, 46, 98]) (Some [1, 2]) 7"
    unfolding leaf_ok_def t by (simp add: leaf_named_def demo_cert_def accepts_def name_matches_def demo_wcx_def)
  have k: "pubKeySize (demo_cert [1, 2]) \<le> 16"
    by (simp add: demo_cert_def)
  have d: "denote_all [[1, 2, 9], [2, 3]] [2, 2] [[1, 2], [2, 3]]" "denotes [3, 3] 2 [3, 3]" "denotes [1, 2] 2 [1, 2]"
    by (auto simp: denote_all_def denotes_def less_Suc_eq)
  have b: "unat (16 :: word32) \<le> length (replicate 16 (0 :: byte))"
    and h: "\<And>h. Some [97, 46, 98 :: byte] = Some h \<Longrightarrow> length h < 2 ^ 31"
    and q: "\<And>p. Some [1, 2 :: byte] = Some p \<Longrightarrow> \<exists>k. Some [1, 2] = Some k \<and> denotes p 2 k"
    and n: "Some [1, 2 :: byte] = None \<Longrightarrow> Some [1, 2 :: byte] = None"
    using d(3) by auto
  have two: "length [[1, 2 :: byte], [2, 3]] = 2" and hd: "hd [[1, 2 :: byte], [2, 3]] = [1, 2]"
    by simp_all
  have good: "chain_ok demo_wcx [3, 3] 7 [[1, 2], [2, 3]] \<and> fst (0 :: int, demo_cert [1, 2]) = 0 \<and>
      pubKeySize (snd (0 :: int, demo_cert [1, 2])) \<le> 16 \<and>
      leaf_ok demo_wcx (snd (0 :: int, demo_cert [1, 2])) (Some [97, 46, 98]) (Some [1, 2]) 7"
    using ch lf k by simp
  show ?thesis
    using verify_chain_exact [OF demo_compare demo_parse_ok d(1,2) b h q n, where now = 7] good unfolding two hd p by blast
qed

text \<open>
  C33. CertificateVerify is accepted exactly when the build supports the scheme and the signature
  verifies under the leaf's key, on the curve the scheme names, over 64 spaces, the context
  string, a zero byte and the transcript hash (RFC 8446, section 4.4.3).
\<close>

theorem cert_verify_exact:
  assumes "hash_ok P X" and "denotes spki kn key" and "denotes thp 32 th" and "denotes sp sn sig"
  shows "\<exists>ret. wn_CertVerify P X scheme spki kn thp 32 sp sn = Some ret \<and>
    (ret = WOLFNANO_SUCCESS \<longleftrightarrow> scheme_ok P X scheme key (cv_content th) sig)"
  using assms by (rule CertVerify_spec)

theorem cert_verify_exact_witness:
  "wn_CertVerify demo_wc demo_wcx 0x0403 [1, 2, 3] 2 (replicate 32 5) 32 [1, 2] 2 = Some WOLFNANO_SUCCESS"
proof -
  have "scheme_ok demo_wc demo_wcx 0x0403 [1, 2] m [1, 2]" for m
    by (simp add: scheme_ok_def ecdsa_ok_def demo_wc_def demo_wcx_def)
  moreover have "denotes [1, 2, 3] 2 [1, 2]" "denotes (replicate 32 5) 32 (replicate 32 5)" "denotes [1, 2] 2 [1, 2]"
    by (simp_all add: denotes_def)
  ultimately show ?thesis
    using cert_verify_exact [OF demo_hash_ok, of "[1, 2, 3]" 2 "[1, 2]" "replicate 32 5" "replicate 32 5" "[1, 2]" 2 "[1, 2]"
        "0x0403"] by auto
qed

text \<open>
  A FIPS build with Ed25519 does not offer scheme 0x0807, but a CertificateVerify under it is
  accepted all the same.
\<close>

lemma cert_verify_unoffered:
  assumes "WOLFNANO_FIPS P" and "HAVE_ED25519 P"
    and "hash_ok P X" and "denotes spki kn key" and "denotes thp 32 th" and "denotes sp sn sig"
    and "ed25519_ok X key (cv_content th) sig"
  shows "0x0807 \<notin> set (offered_schemes P) \<and>
    wn_CertVerify P X 0x0807 spki kn thp 32 sp sn = Some WOLFNANO_SUCCESS"
  using CertVerify_spec [OF assms(3-6), of "0x0807"] assms(1,2,7)
  by (auto simp: scheme_ok_def offered_schemes_def)

text \<open>
  C40. The ClientHello of a build without FIPS and without Ed25519 offers scheme 0x0807, but a
  CertificateVerify under it is refused as unsupported, whatever the key and the signature.
\<close>

theorem offered_unverifiable:
  assumes "\<not> WOLFNANO_FIPS P" and "\<not> HAVE_ED25519 P" and "WOLFSSL_HAVE_MLDSA P \<longrightarrow> WN_MLDSA_SCHEME P \<noteq> 0x0807"
    and "32 \<le> WC_MAX_DIGEST_SIZE P" and "32 \<le> length th"
  shows "0x0807 \<in> set (offered_schemes P) \<and>
    wn_CertVerify P X 0x0807 spki kn th 32 sp sn = Some WOLFNANO_E_UNSUPPORTED"
proof -
  let ?b = "replicate (64 + 33 + 1 + WC_MAX_DIGEST_SIZE P) (0 :: byte)"
  have "wn_BuildCvTbs ?b th 32 = wn_BuildCvTbs ?b (take 32 th) 32"
    using assms(5) by (simp add: wn_BuildCvTbs_def mem_read_def)
  then obtain tbs n where "wn_BuildCvTbs ?b th 32 = Some (tbs, n)"
    using BuildCvTbs_spec [of "take 32 th" ?b 32] assms(4,5) by simp
  then show ?thesis
    using assms(1-3) by (auto simp: wn_CertVerify_def offered_schemes_def)
qed

theorem offered_unverifiable_witness:
  "0x0807 \<in> set (offered_schemes demo_wc) \<and>
   wn_CertVerify demo_wc demo_wcx 0x0807 [1, 2] 2 (replicate 32 5) 32 [1, 2] 2 = Some WOLFNANO_E_UNSUPPORTED"
  using offered_unverifiable [of demo_wc "replicate 32 5" demo_wcx "[1, 2]" 2 "[1, 2]" 2] by (simp add: demo_wc_def)

end
