(* ===== verification/Wn_CertMsgs.thy ===== *)
theory Wn_CertMsgs
  imports Wn_ConnectCert Wn_X509Spec Wn_HandshakeSpec
begin

text \<open>
  The messages only the certificate driver reads: a Certificate message as a list of entries and a
  CertificateVerify as a scheme and a signature, and what the driver's parsers accept of them.
\<close>

section \<open>Certificate\<close>

text \<open>
  The body of a Certificate message (RFC 8446, section 4.4.2): an empty request context and a list
  of entries, each a certificate and its extensions. The driver reads four entries at most; what
  follows the fourth is in the message but is not looked at.
\<close>

definition cert_entry :: "bytes \<times> bytes \<Rightarrow> bytes" where
  "cert_entry e = be_bytes 3 (length (fst e)) @ fst e @ be_bytes 2 (length (snd e)) @ snd e"

definition certificate_body :: "bytes list \<Rightarrow> bytes \<Rightarrow> bool" where
  "certificate_body ds b \<longleftrightarrow> (\<exists>es rest. ds = map fst es \<and> length es \<le> 4 \<and> (length es < 4 \<longrightarrow> rest = []) \<and>
     b = [0] @ be_bytes 3 (length (concat (map cert_entry es) @ rest)) @ concat (map cert_entry es) @ rest)"

text \<open>The driver's list of pointers and lengths, and the certificates it stands for.\<close>

definition entry_at :: "bytes \<Rightarrow> word32 \<times> word32 \<Rightarrow> bytes \<Rightarrow> bool" where
  "entry_at S = (\<lambda>(p, n) c. unat p + unat n \<le> length S \<and> take (unat n) (drop (unat p) S) = c)"

definition read_entry :: "(word32 \<times> word32) list \<Rightarrow> wn_Reader \<Rightarrow> ((word32 \<times> word32) list \<times> wn_Reader) option" where
  "read_entry es r =
     wn_Read_U24 r \<bind> (\<lambda>(cl, r).
     let es = es @ [(r_pos r, cl)] in
     case wn_Read_Bytes r cl of (_, r) \<Rightarrow>
     wn_Read_U16 r \<bind> (\<lambda>(extl, r).
     case wn_Read_Bytes r (ucast extl) of (_, r) \<Rightarrow> Some (es, r)))"

lemma cert_entries_turn:
  "cert_entries listEnd es r =
     (if r_pos r < listEnd \<and> length es < 4 \<and> r_err r = 0
      then read_entry es r \<bind> (\<lambda>(es, r). cert_entries listEnd es r) else Some (es, r))"
  by (subst cert_entries.simps) (simp add: read_entry_def Let_def case_prod_unfold Option.bind_assoc)

lemma u24_small:
  assumes "rdr.got r S d"
    and "\<And>v r'. rdr.got r' S (d @ be_bytes 3 (unat v)) \<Longrightarrow> (r_failed r \<longrightarrow> r_failed r') \<Longrightarrow> unat v < 2 ^ 24 \<Longrightarrow> runs (k (v, r')) Q"
  shows "runs (wn_Read_U24 r \<bind> k) Q"
proof (rule rdr.u24_step)
  show "wf_reader r" using assms(1) by (simp add: rdr.got_def)
  fix v :: word32 and r'
  assume t: "took wf_reader r_src r_at r_failed r 3 r'"
    and v: "unat v = (if r_failed r' then 0 else be_val (take 3 (drop (r_at r) (r_src r))))"
  note g = rdr.got_took [OF assms(1) t]
  have "take 3 (drop (length d) S) = be_bytes 3 (unat v) \<and> length (take 3 (drop (r_at r) (r_src r))) = 3" if "\<not> r_failed r'"
    using g v that assms(1) by (auto simp: rdr.got_def)
  then have "rdr.got r' S (d @ be_bytes 3 (unat v))" and "unat v < 2 ^ 24"
    using g v be_val_lt [of "take 3 (drop (r_at r) (r_src r))"] by (auto simp: rdr.got_def)
  then show "runs (k (v, r')) Q" using g assms(2) by blast
qed

lemma read_entry_runs:
  assumes g: "rdr.got r S d" and nf: "\<not> r_failed r" and sm: "length S + 2 ^ 24 < 2 ^ 32"
  shows "runs (read_entry es r) (\<lambda>(es', r'). length es' = Suc (length es) \<and> (\<not> r_failed r' \<longrightarrow> (\<exists>pn e.
    es' = es @ [pn] \<and> entry_at S pn (fst e) \<and> rdr.got r' S (d @ cert_entry e))))"
  unfolding read_entry_def
proof (rule u24_small [OF g])
  let ?Q = "(\<lambda>(es', r'). length es' = Suc (length es) \<and> (\<not> r_failed r' \<longrightarrow> (\<exists>pn e.
    es' = es @ [pn] \<and> entry_at S pn (fst e) \<and> rdr.got r' S (d @ cert_entry e))))"
  fix cl :: word32 and r1
  let ?d1 = "d @ be_bytes 3 (unat cl)"
  define c where "c = take (unat cl) (drop (length ?d1) S)"
  assume g1: "rdr.got r1 S ?d1" and f1: "r_failed r \<longrightarrow> r_failed r1" and cl: "unat cl < 2 ^ 24"
  have "length S + unat cl < 2 ^ 32" using cl sm by linarith
  then show "runs (case (cl, r1) of (cl, r) \<Rightarrow> let es = es @ [(r_pos r, cl)] in
     case wn_Read_Bytes r cl of (_, r) \<Rightarrow> wn_Read_U16 r \<bind> (\<lambda>(extl, r).
     case wn_Read_Bytes r (ucast extl) of (_, r) \<Rightarrow> Some (es, r))) ?Q"
    unfolding Let_def prod.case
  proof (rule rdr.raw_got [OF g1])
    fix p r2
    assume g2: "rdr.got r2 S (?d1 @ take (unat cl) (drop (length ?d1) S))" and f2: "r_failed r1 \<longrightarrow> r_failed r2"
      and l2: "\<not> r_failed r2 \<longrightarrow> length ?d1 + unat cl \<le> length S"
    show "runs (case (p, r2) of (_, r) \<Rightarrow> wn_Read_U16 r \<bind> (\<lambda>(extl, r).
     case wn_Read_Bytes r (ucast extl) of (_, r) \<Rightarrow> Some (es @ [(r_pos r1, cl)], r))) ?Q"
      unfolding prod.case
    proof (rule rdr.u16_got [OF g2])
      fix extl :: word16 and r3
      let ?d3 = "(?d1 @ take (unat cl) (drop (length ?d1) S)) @ be_bytes 2 (unat extl)"
      define x where "x = take (unat extl) (drop (length ?d3) S)"
      assume g3: "rdr.got r3 S ?d3" and f3: "r_failed r2 \<longrightarrow> r_failed r3"
      have "length S + unat (ucast extl :: word32) < 2 ^ 32" using sm word16_lt [of extl] by (simp del: word16_lt)
      then show "runs (case (extl, r3) of (extl, r) \<Rightarrow>
         case wn_Read_Bytes r (ucast extl) of (_, r) \<Rightarrow> Some (es @ [(r_pos r1, cl)], r)) ?Q"
        unfolding prod.case
      proof (rule rdr.raw_got [OF g3])
        fix p' r4
        assume g4: "rdr.got r4 S (?d3 @ take (unat (ucast extl :: word32)) (drop (length ?d3) S))"
          and f4: "r_failed r3 \<longrightarrow> r_failed r4"
          and l4: "\<not> r_failed r4 \<longrightarrow> length ?d3 + unat (ucast extl :: word32) \<le> length S"
        have "\<exists>e. entry_at S (r_pos r1, cl) (fst e) \<and> rdr.got r4 S (d @ cert_entry e)" if nf4: "\<not> r_failed r4"
        proof -
          have nf: "\<not> r_failed r1" "\<not> r_failed r2" using nf4 f1 f2 f3 f4 by blast+
          have "unat (r_pos r1) = length ?d1" using got_pos [OF g1 nf(1)] by (simp add: r_at_def)
          moreover have "length c = unat cl" and "length x = unat extl"
            using l2 nf(2) l4 nf4 by (simp_all add: c_def x_def)
          ultimately have "entry_at S (r_pos r1, cl) (fst (c, x))" and "rdr.got r4 S (d @ cert_entry (c, x))"
            using g4 l2 nf(2) unfolding c_def [symmetric] x_def [symmetric] by (simp_all add: entry_at_def c_def cert_entry_def x_def)
          then show ?thesis by blast
        qed
        then show "runs (case (p', r4) of (_, r) \<Rightarrow> Some (es @ [(r_pos r1, cl)], r)) ?Q"
          by simp
      qed
    qed
  qed
qed

text \<open>The loop ends after four turns at most.\<close>

definition entries_read :: "bytes \<Rightarrow> bytes \<Rightarrow> (word32 \<times> word32) list \<Rightarrow> wn_Reader \<Rightarrow> (bytes \<times> bytes) list \<Rightarrow> bool" where
  "entries_read S h ps r es \<longleftrightarrow> list_all2 (entry_at S) ps (map fst es) \<and> rdr.got r S (h @ concat (map cert_entry es))"

lemma cert_entries_stop: "r_failed r \<Longrightarrow> cert_entries listEnd ps r = Some (ps, r)"
  by (subst cert_entries_turn) (simp add: r_failed_def)

lemma cert_entries_runs:
  assumes sm: "length S + 2 ^ 24 < 2 ^ 32"
  shows "entries_read S h ps r es \<Longrightarrow> \<not> r_failed r \<Longrightarrow> length ps \<le> 4 \<Longrightarrow>
    runs (cert_entries listEnd ps r) (\<lambda>(ps', r'). \<not> r_failed r' \<longrightarrow> (\<exists>es'. entries_read S h ps' r' es' \<and>
      length ps' \<le> 4 \<and> (length ps' < 4 \<longrightarrow> listEnd \<le> r_pos r')))"
proof (induction "4 - length ps" arbitrary: ps r es rule: less_induct)
  case less
  have e: "r_err r = 0" and g: "rdr.got r S (h @ concat (map cert_entry es))"
    using less.prems by (simp_all add: r_failed_def entries_read_def)
  show ?case
  proof (cases "r_pos r < listEnd \<and> length ps < 4")
    case False
    then have "cert_entries listEnd ps r = Some (ps, r)"
      by (subst cert_entries_turn) auto
    then show ?thesis
      using False less.prems by (auto simp: not_less)
  next
    case True
    obtain ps' r' where st: "read_entry ps r = Some (ps', r')" and l: "length ps' = Suc (length ps)"
      and r: "\<not> r_failed r' \<longrightarrow> (\<exists>pn e. ps' = ps @ [pn] \<and> entry_at S pn (fst e) \<and>
        rdr.got r' S ((h @ concat (map cert_entry es)) @ cert_entry e))"
      by (rule runs2E [OF read_entry_runs [OF g less.prems(2) sm]]) blast
    have turn: "cert_entries listEnd ps r = cert_entries listEnd ps' r'"
      using True e st by (subst cert_entries_turn) simp
    show ?thesis
    proof (cases "r_failed r'")
      case True
      then show ?thesis unfolding turn by (simp add: cert_entries_stop)
    next
      case False
      with r obtain pn e where pe: "ps' = ps @ [pn]" "entry_at S pn (fst e)"
        "rdr.got r' S ((h @ concat (map cert_entry es)) @ cert_entry e)" by blast
      then have "entries_read S h ps' r' (es @ [e])"
        using less.prems(1) by (simp add: entries_read_def list_all2_appendI)
      moreover have "4 - length ps' < 4 - length ps" and "length ps' \<le> 4" using l \<open>r_pos r < listEnd \<and> length ps < 4\<close> by linarith+
      ultimately show ?thesis
        unfolding turn using less.hyps [of ps' r'] False by blast
    qed
  qed
qed

lemma cert_list_spec:
  assumes "unat n \<le> length body" and "unat n < 2 ^ 24"
  shows "runs (cert_list body n) (\<lambda>(ret, ps). ret \<le> 0 \<and> (ret = 0 \<longrightarrow> (\<exists>ds. certificate_body ds (take (unat n) body) \<and>
    list_all2 (entry_at (take (unat n) body)) ps ds)))"
proof -
  define S where "S = take (unat n) body"
  have lS: "length S = unat n" and sm: "length S + 2 ^ 24 < 2 ^ 32" using assms by (simp_all add: S_def)
  have f0: "\<not> r_failed (wn_Reader_Init body n)" by (simp add: wn_Reader_Init_def r_failed_def)
  have g0: "rdr.got (wn_Reader_Init body n) S []"
    unfolding S_def using assms by (intro wf_Reader_Init) simp_all
  let ?Q = "\<lambda>(ret, ps). ret \<le> 0 \<and> (ret = 0 \<longrightarrow> (\<exists>ds. certificate_body ds S \<and> list_all2 (entry_at S) ps ds))"
  have "runs (cert_list body n) ?Q"
    unfolding cert_list_def
  proof (rule rdr.u8_got [OF g0])
    fix ctxLen :: byte and r1
    let ?d1 = "[] @ [ctxLen]"
    assume g1: "rdr.got r1 S ?d1" and f1: "r_failed (wn_Reader_Init body n) \<longrightarrow> r_failed r1"
    have "length S + unat (ucast ctxLen :: word32) < 2 ^ 32" using sm byte_lt_256 [of ctxLen] by (simp del: byte_lt_256 byte_le_255)
    then show "runs (case (ctxLen, r1) of (ctxLen, r) \<Rightarrow> case wn_Read_Bytes r (ucast ctxLen) of (_, r) \<Rightarrow>
       wn_Read_U24 r \<bind> (\<lambda>(listLen, r).
       let listEnd = r_pos r + listLen in
       if r_err r \<noteq> 0 \<or> ctxLen \<noteq> 0 \<or> listEnd \<noteq> n then Some (WOLFNANO_E_DECODE, [])
       else
         cert_entries listEnd [] r \<bind> (\<lambda>(es, r).
         Some (if r_err r \<noteq> 0 then WOLFNANO_E_DECODE else WOLFNANO_SUCCESS, es)))) ?Q"
      unfolding prod.case
    proof (rule rdr.raw_got [OF g1])
      fix p r2
      let ?d2 = "?d1 @ take (unat (ucast ctxLen :: word32)) (drop (length ?d1) S)"
      assume g2: "rdr.got r2 S ?d2" and f2: "r_failed r1 \<longrightarrow> r_failed r2"
      show "runs (case (p, r2) of (_, r) \<Rightarrow> wn_Read_U24 r \<bind> (\<lambda>(listLen, r).
         let listEnd = r_pos r + listLen in
         if r_err r \<noteq> 0 \<or> ctxLen \<noteq> 0 \<or> listEnd \<noteq> n then Some (WOLFNANO_E_DECODE, [])
         else
           cert_entries listEnd [] r \<bind> (\<lambda>(es, r).
           Some (if r_err r \<noteq> 0 then WOLFNANO_E_DECODE else WOLFNANO_SUCCESS, es)))) ?Q"
        unfolding prod.case
      proof (rule u24_small [OF g2])
        fix listLen :: word32 and r3
        assume g3: "rdr.got r3 S (?d2 @ be_bytes 3 (unat listLen))" and f3: "r_failed r2 \<longrightarrow> r_failed r3"
          and small: "unat listLen < 2 ^ 24"
        show "runs (case (listLen, r3) of (listLen, r) \<Rightarrow>
           let listEnd = r_pos r + listLen in
           if r_err r \<noteq> 0 \<or> ctxLen \<noteq> 0 \<or> listEnd \<noteq> n then Some (WOLFNANO_E_DECODE, [])
           else
             cert_entries listEnd [] r \<bind> (\<lambda>(es, r).
             Some (if r_err r \<noteq> 0 then WOLFNANO_E_DECODE else WOLFNANO_SUCCESS, es))) ?Q"
        proof (cases "r_err r3 \<noteq> 0 \<or> ctxLen \<noteq> 0 \<or> r_pos r3 + listLen \<noteq> n")
          case True
          then show ?thesis by auto
        next
          case False
          then have f: "\<not> r_failed r3" "ctxLen = 0" "r_pos r3 + listLen = n" by (simp_all add: r_failed_def)
          let ?h = "[0] @ be_bytes 3 (unat listLen)"
          have g: "rdr.got r3 S ?h" using g3 f(2) by simp
          have "unat (r_pos r3) = 4" using got_pos [OF g f(1)] by (simp add: r_at_def)
          then have n: "unat n = 4 + unat listLen"
            using f(3) small by (subst f(3) [symmetric], subst unat_add_no_wrap) simp_all
          have "entries_read S ?h [] r3 []" using g by (simp add: entries_read_def)
          from cert_entries_runs [OF sm this f(1), of n] obtain ps r'
            where e: "cert_entries n [] r3 = Some (ps, r')" and d: "\<not> r_failed r' \<longrightarrow> (\<exists>es. entries_read S ?h ps r' es \<and>
              length ps \<le> 4 \<and> (length ps < 4 \<longrightarrow> n \<le> r_pos r'))"
            by (auto simp: runs_def)
          have "\<exists>ds. certificate_body ds S \<and> list_all2 (entry_at S) ps ds" if nf: "\<not> r_failed r'"
          proof -
            from d nf obtain es where es: "entries_read S ?h ps r' es" "length ps \<le> 4" "length ps < 4 \<longrightarrow> n \<le> r_pos r'" by blast
            then have a: "list_all2 (entry_at S) ps (map fst es)" and g': "rdr.got r' S (?h @ concat (map cert_entry es))"
              by (simp_all add: entries_read_def)
            have l: "length es = length ps" using list_all2_lengthD [OF a] by simp
            define rest where "rest = drop (length (?h @ concat (map cert_entry es))) S"
            have S: "S = (?h @ concat (map cert_entry es)) @ rest" and "length (?h @ concat (map cert_entry es)) \<le> length S"
              using rdr.got_prefix [OF g' nf] unfolding rest_def by auto
            have "rest = []" if "length es < 4"
              using es(3) that l got_pos [OF g' nf] lS by (simp add: rest_def r_at_def word_le_nat_alt)
            moreover have "unat listLen = length (concat (map cert_entry es) @ rest)"
              using arg_cong [OF S, of length] n lS by simp
            ultimately have "certificate_body (map fst es) S"
              unfolding certificate_body_def using S l es(2) by (intro exI [of _ es] exI [of _ rest]) simp
            with a show ?thesis by blast
          qed
          then show ?thesis
            using False e f(3) by (simp add: r_failed_def)
        qed
      qed
    qed
  qed
  then show ?thesis by (simp add: S_def)
qed

definition certificate_msg :: "bytes list \<Rightarrow> bytes \<Rightarrow> bool" where
  "certificate_msg ds msg \<longleftrightarrow> (\<exists>b. msg = [11] @ be_bytes 3 (length b) @ b \<and> certificate_body ds b)"

section \<open>CertificateVerify\<close>

definition cert_verify_msg :: "word16 \<Rightarrow> bytes \<Rightarrow> bytes \<Rightarrow> bool" where
  "cert_verify_msg scheme sig msg \<longleftrightarrow> length sig < 65536 \<and>
     msg = [15] @ be_bytes 3 (4 + length sig) @ be_bytes 2 (unat scheme) @ be_bytes 2 (length sig) @ sig"

lemma scheme_length_step:
  assumes n: "unat n \<le> length body" "unat n < 2 ^ 24" and S: "S = take (unat n) body"
    and k: "\<And>scheme cvLen r. (r_err r = 0 \<Longrightarrow> r_pos r = 4 \<and> 4 \<le> length S \<and>
      S = be_bytes 2 (unat scheme) @ be_bytes 2 (unat cvLen) @ drop 4 S) \<Longrightarrow> runs (k scheme cvLen r) Q"
  shows "runs (wn_Read_U16 (wn_Reader_Init body n) \<bind> (\<lambda>(scheme, r). wn_Read_U16 r \<bind> (\<lambda>(cvLen, r). k scheme cvLen r))) Q"
proof -
  have "rdr.got (wn_Reader_Init body n) S []"
    unfolding S using n by (intro wf_Reader_Init) simp_all
  then show ?thesis
  proof (rule rdr.u16_got)
    fix scheme :: word16 and r1
    assume "rdr.got r1 S ([] @ be_bytes 2 (unat scheme))"
    then show "runs (case (scheme, r1) of (scheme, r) \<Rightarrow> wn_Read_U16 r \<bind> (\<lambda>(cvLen, r). k scheme cvLen r)) Q"
      unfolding prod.case
    proof (rule rdr.u16_got)
      fix cvLen :: word16 and r2
      assume g: "rdr.got r2 S (([] @ be_bytes 2 (unat scheme)) @ be_bytes 2 (unat cvLen))"
      have "r_pos r2 = 4 \<and> 4 \<le> length S \<and> S = be_bytes 2 (unat scheme) @ be_bytes 2 (unat cvLen) @ drop 4 S" if "r_err r2 = 0"
      proof -
        have nf: "\<not> r_failed r2" using that by (simp add: r_failed_def)
        have "r_pos r2 = 4" using got_pos [OF g nf] by (simp add: r_at_def word_unat_eq_iff)
        then show ?thesis using rdr.got_prefix [OF g nf] by simp
      qed
      then show "runs (case (cvLen, r2) of (cvLen, r) \<Rightarrow> k scheme cvLen r) Q"
        unfolding prod.case by (rule k)
    qed
  qed
qed

section \<open>Return codes\<close>

text \<open>\<open>never_positive m\<close>: if the call returns, its code is 0 or negative. Both checks have this property.\<close>

definition never_positive :: "int option \<Rightarrow> bool" where
  "never_positive m \<longleftrightarrow> (\<forall>ret. m = Some ret \<longrightarrow> ret \<le> 0)"

lemma never_positive_Some: "ret \<le> 0 \<Longrightarrow> never_positive (Some ret)"
  by (simp add: never_positive_def)

lemma never_positive_bind: "(\<And>x. m = Some x \<Longrightarrow> never_positive (k x)) \<Longrightarrow> never_positive (m \<bind> k)"
  by (auto simp: never_positive_def bind_eq_Some_conv)

lemma never_positive_if: "never_positive m \<Longrightarrow> never_positive n \<Longrightarrow> never_positive (if c then m else n)"
  by simp

lemma never_positive_prod: "(\<And>a b. never_positive (f a b)) \<Longrightarrow> never_positive (case p of (a, b) \<Rightarrow> f a b)"
  by (cases p) simp

lemmas never_positive_rules = never_positive_bind never_positive_if never_positive_prod

lemma CertTimeValid_le: "wn_CertTimeValid X c now \<le> 0"
  by (simp add: wn_CertTimeValid_def cert_date_ok_def Let_def split: option.splits prod.splits)

lemma chain_link_le: "never_positive (chain_link P X certs lens n anchor anchorLen now i)"
  unfolding chain_link_def
  by (intro never_positive_rules never_positive_Some) (simp_all add: CertTimeValid_le)

lemma chain_loop_le: "(\<And>i. never_positive (link i)) \<Longrightarrow> never_positive (chain_loop link i m)"
  by (induction m arbitrary: i) (auto simp: never_positive_def bind_eq_Some_conv split: if_splits)

lemma server_name_loop_le:
  "server_name_loop es host n saw ret = Some (saw', ret') \<Longrightarrow> ret \<le> 0 \<Longrightarrow> ret' \<le> 0"
  by (induction es host n saw ret rule: server_name_loop.induct) (auto simp: bind_eq_Some_conv split: if_splits)

lemma CheckServerName_le: "never_positive (wn_CheckServerName leaf host)"
  by (auto simp: never_positive_def wn_CheckServerName_def bind_eq_Some_conv Let_def split: option.splits if_splits
      dest!: server_name_loop_le)

lemma CheckKeyPin_le: "never_positive (wn_CheckKeyPin P leaf pin n)"
  by (auto simp: never_positive_def wn_CheckKeyPin_def bind_eq_Some_conv split: option.splits if_splits)

lemma leaf_checks_le: "never_positive (leaf_checks P X leaf host pin n now)"
  using CheckKeyPin_le [of P "Some leaf" pin n] CheckServerName_le [of "Some leaf" host] CertTimeValid_le [of X leaf now]
  unfolding leaf_checks_def never_positive_def
  by (auto simp: bind_eq_Some_conv split: if_splits)

lemma VerifyChain_le:
  assumes "wn_VerifyChain P X certs lens n anchor anchorLen spki cap host pin pn now = Some (ret, spki', m)"
  shows "ret \<le> 0"
proof -
  have chain: "never_positive (chain_loop (chain_link P X certs lens n anchor anchorLen now) 0 n)"
    by (intro chain_loop_le chain_link_le)
  have "never_positive (map_option fst (wn_VerifyChain P X certs lens n anchor anchorLen spki cap host pin pn now))"
    unfolding wn_VerifyChain_def if_distrib [of "map_option fst"] map_option_bind prod.case_distrib [of "map_option fst"] option.map fst_conv comp_def
    by (intro never_positive_rules never_positive_Some)
      (use chain leaf_checks_le in \<open>auto simp: never_positive_def, blast\<close>)
  then show ?thesis using assms by (auto simp: never_positive_def)
qed

lemma cv_hash_le: "cv_hash P X ht tbs n = Some p \<Longrightarrow> fst p \<le> 0"
  by (auto simp: cv_hash_def Let_def bind_eq_Some_conv case_prod_beta split: if_splits)

lemma never_positive_hash:
  assumes "\<And>ret h. ret \<le> 0 \<Longrightarrow> never_positive (k ret h)"
  shows "never_positive (cv_hash P X ht tbs n \<bind> (\<lambda>(ret, h). k ret h))"
  using cv_hash_le assms by (fastforce intro: never_positive_bind)

lemma never_positive_schemes:
  "never_positive (wn_CvEcdsa P X spki kn ht curve tbs n sp sn)"
  "never_positive (wn_CvRsaPss P X spki kn ht mgf tbs n sp sn)"
  unfolding wn_CvEcdsa_def wn_CvRsaPss_def
  by (rule never_positive_hash, intro never_positive_rules never_positive_Some, simp_all)+

lemma CertVerify_le: "never_positive (wn_CertVerify P X scheme spki kn th thn sp sn)"
  unfolding wn_CertVerify_def wn_CvEd25519_def wn_CvMlDsa_def
  by (intro never_positive_rules never_positive_schemes never_positive_Some) simp_all

end
