(* ===== verification/Wn_CertFlight.thy ===== *)
theory Wn_CertFlight
  imports Wn_CertMsgs
begin

text \<open>
  The certificate driver up to the end of the server's flight: the invariant of its locals, the
  hellos and keys, and what has been accepted when the flight is complete. Every loop ends, and
  no access leaves its region of the scratch.
\<close>

section \<open>The invariant\<close>

definition cert_ok :: "'o wc \<Rightarrow> 'o wcx \<Rightarrow> nat \<Rightarrow> ('o, 'io) cert_locals \<Rightarrow> bool" where
  "cert_ok P X n s \<longleftrightarrow> hs_ok P n s \<and> length (c_thCert s) = 32 \<and> 4096 \<le> unat (c_ioCap s) \<and>
     unat (c_ioCap s) + unat (WN_HS_ACC_SZ P X) + unat (WN_LEAF_SPKI_SZ P X) = n \<and> l_accLen s \<le> WN_HS_ACC_SZ P X"

lemma cert_fields:
  "hs_locals.more s = \<lparr>c_thCert = c_thCert s, c_ioCap = c_ioCap s, c_spkiLen = c_spkiLen s, c_off = c_off s,
     c_flight = c_flight s, c_keysReady = c_keysReady s, c_cHsSeq = c_cHsSeq s, \<dots> = cert_locals.more s\<rparr>"
  by (cases s) (simp only: hs_locals.select_convs cert_locals.select_convs)

lemma cert_more:
  assumes "hs_locals.more s' = hs_locals.more s"
  shows "c_thCert s' = c_thCert s" and "c_ioCap s' = c_ioCap s" and "c_spkiLen s' = c_spkiLen s" and "c_off s' = c_off s"
    and "c_flight s' = c_flight s" and "c_keysReady s' = c_keysReady s" and "c_cHsSeq s' = c_cHsSeq s"
  using assms unfolding cert_fields by simp_all

lemma keeps_cert_ok:
  assumes "hs_keeps P n s s'" and "cert_ok P X n s"
  shows "cert_ok P X n s'"
proof -
  have m: "hs_locals.more s' = hs_locals.more s" and "hs_ok P n s'" "l_accLen s' = l_accLen s"
    using assms(1) by (simp_all add: hs_keeps_def)
  then show ?thesis
    using assms(2) unfolding cert_ok_def cert_more [OF m] by simp
qed

lemma cert_ok_hs: "cert_ok P X n s \<Longrightarrow> hs_ok P n s"
  by (simp add: cert_ok_def)

lemma region_sizes:
  "unat (WN_HS_ACC_SZ P X) \<in> {6144, 8192, 10240}" "unat (WN_LEAF_SPKI_SZ P X) \<in> {1024, 2048, 3072}"
  by (simp_all add: WN_HS_ACC_SZ_def WN_LEAF_SPKI_SZ_def)

definition cert_fresh :: "('o, 'io) cert_locals \<Rightarrow> bool" where
  "cert_fresh s \<longleftrightarrow> \<not> l_done s \<and> l_accLen s = 0 \<and> c_off s = 0 \<and> c_flight s = flight_init"

lemma keeps_cert_fresh:
  assumes "hs_keeps P n s s'" and "cert_fresh s" and "l_done s' = l_done s"
  shows "cert_fresh s'"
proof -
  have m: "hs_locals.more s' = hs_locals.more s" and "l_accLen s' = l_accLen s"
    using assms(1) by (simp_all add: hs_keeps_def)
  then show ?thesis
    using assms(2,3) unfolding cert_fresh_def cert_more [OF m] by simp
qed

section \<open>The hellos and the keys\<close>

text \<open>The arguments the driver gets, as the values its pointers and lengths denote.\<close>

definition cert_args_ok :: "cert_args \<Rightarrow> bool" where
  "cert_args_ok a \<longleftrightarrow> unat (a_anchorLen a) \<le> length (a_anchor a) \<and>
     (\<forall>p. a_pinnedKey a = Some p \<longrightarrow> unat (a_pinnedKeyLen a) \<le> length p) \<and>
     (\<forall>h. a_serverName a = Some h \<longrightarrow> length h < 2 ^ 31) \<and> unat (a_scratchLen a) + 65536 < 2 ^ 32"

definition anchor_of :: "cert_args \<Rightarrow> bytes" where
  "anchor_of a = take (unat (a_anchorLen a)) (a_anchor a)"

definition pin_of :: "cert_args \<Rightarrow> bytes option" where
  "pin_of a = map_option (take (unat (a_pinnedKeyLen a))) (a_pinnedKey a)"

definition name_of :: "cert_args \<Rightarrow> bytes" where
  "name_of a = (case a_serverName a of None \<Rightarrow> [] | Some n \<Rightarrow> n)"

definition cert_client_hello :: "'o wc \<Rightarrow> bytes \<Rightarrow> bytes \<Rightarrow> 'o wn_KeyShare \<Rightarrow> bytes \<Rightarrow> bool" where
  "cert_client_hello P name sid ks ch \<longleftrightarrow> (\<exists>rnd pub. length rnd = 32 \<and> own_share P ks pub \<and>
     ch = encodes (client_hello_wire P rnd sid pub name))"

lemma cert_start_ends:
  assumes c: "hs_crypto P H ab ext exp mac" and ok: "cert_ok P X n s" and "cert_fresh s"
  shows "ends (cert_ok P X n) (\<lambda>s'. l_emptyHash s' = H WC_SHA256 [] \<and> cert_fresh s') (cert_start P s)"
proof -
  obtain r1 b1 g1 where 1: "wc_RNG_GenerateBlock P (l_rng s) 32 = (r1, b1, g1)" by (metis prod.exhaust)
  obtain r2 b2 g2 where 2: "wc_RNG_GenerateBlock P g1 32 = (r2, b2, g2)" by (metis prod.exhaust)
  have l: "length b1 = 32" "length b2 = 32"
    using kex_sizesD(1) [OF hs_cryptoD(6) [OF c] 1] kex_sizesD(1) [OF hs_cryptoD(6) [OF c] 2] by simp_all
  have "length (l_emptyHash s) = 32" "length (l_random32 s) = 32" "length (l_sid s) = 32"
    using ok by (simp_all add: cert_ok_def hs_ok_def)
  then show ?thesis
    using 1 2 l ok assms(3) hs_cryptoD(2,8) [OF c]
    by (simp add: cert_start_def Wn_Handshake.ok_def ends_Some mem_write_in cert_ok_def hs_ok_def cert_fresh_def)
qed

text \<open>The driver has sent a ClientHello, and it is the transcript.\<close>

definition cert_hello_sent ::
    "'o wc \<Rightarrow> (hash_id \<Rightarrow> bytes \<Rightarrow> bytes) \<Rightarrow> (hash_id \<Rightarrow> 'o \<Rightarrow> bytes \<Rightarrow> bool) \<Rightarrow> cert_args \<Rightarrow> ('o, 'io) cert_locals \<Rightarrow> bool" where
  "cert_hello_sent P H ab a s \<longleftrightarrow> l_emptyHash s = H WC_SHA256 [] \<and> cert_fresh s \<and> ks_group (l_ks s) = WN_DEFAULT_GROUP P \<and>
     (\<exists>ch. cert_client_hello P (name_of a) (l_sid s) (l_ks s) ch \<and> said P H ab s ch)"

lemma build_hello_ends:
  fixes s :: "('o, 'io) cert_locals"
  assumes ok: "cert_ok P X n s" and pl: "l_pubLen s = WN_DEFAULT_PUB_SZ P" "own_share P (l_ks s) (l_cliPub s)" and a: "cert_args_ok a" "unat (a_scratchLen a) = n"
  shows "ends (cert_ok P X n) (\<lambda>s'. \<exists>scr m. s' = s\<lparr>l_scratch := scr, l_chLen := m\<rparr> \<and> unat m \<le> n \<and> unat m \<le> length scr \<and>
      cert_client_hello P (name_of a) (l_sid s) (l_ks s) (take (unat m) scr))
    (wn_ClientHello_Build_ex P (Some (l_scratch s)) (Some (l_chLen s)) (a_scratchLen a) (Some (l_random32 s))
       (Some (l_sid s)) 32 (Some (l_cliPub s)) (l_pubLen s) (a_serverName a) \<bind> (\<lambda>(ret, scr, n).
       n \<bind> (\<lambda>n. Some (ret, s\<lparr>l_scratch := scr, l_chLen := n\<rparr>))))"
proof (cases "\<exists>h. a_serverName a = Some h \<and> 255 < length h")
  case True
  then obtain h where h: "a_serverName a = Some h" "255 < length h" by blast
  moreover have "length h < 2 ^ 31" using a(1) h(1) by (simp add: cert_args_ok_def)
  then have "length h < 2 ^ 32" by simp
  ultimately show ?thesis
    using ok unfolding h(1) client_hello_long_name [OF h(2) \<open>length h < 2 ^ 32\<close>] by (simp add: ends_Some cert_ok_def hs_ok_def)
next
  case False
  have l: "length (l_random32 s) = 32" "length (l_sid s) = 32" "length (l_cliPub s) = unat (WN_DEFAULT_PUB_SZ P)" "n \<le> length (l_scratch s)"
    using ok by (simp_all add: cert_ok_def hs_ok_def)
  define e where "e = encodes (client_hello_wire P (l_random32 s) (l_sid s) (l_cliPub s) (name_of a))"
  have e: "encodes (client_hello_wire P (take 32 (l_random32 s)) (take (unat (32 :: word32)) (l_sid s))
      (take (unat (WN_DEFAULT_PUB_SZ P)) (l_cliPub s)) (case a_serverName a of None \<Rightarrow> [] | Some n \<Rightarrow> n)) = e"
    using l by (simp add: e_def name_of_def)
  have nm: "length h \<le> 255" if "a_serverName a = Some h" for h using False that by (auto simp: not_less)
  have big: "unat (a_scratchLen a) + 1216 < 2 ^ 32" using a(1) by (simp add: cert_args_ok_def)
  obtain ret out' ol' where b: "wn_ClientHello_Build_ex P (Some (l_scratch s)) (Some (l_chLen s)) (a_scratchLen a) (Some (l_random32 s))
       (Some (l_sid s)) 32 (Some (l_cliPub s)) (WN_DEFAULT_PUB_SZ P) (a_serverName a) = Some (ret, out', Some ol')"
    and o: "n \<le> length out'"
    and r: "if length e \<le> n then ret = 0 \<and> unat ol' = length e \<and> take (length e) out' = e
      else ret = WOLFNANO_E_INVALID_ARG \<and> ol' = l_chLen s"
    using client_hello_result [of "a_scratchLen a" "l_scratch s" "l_random32 s" 32 "l_sid s" P "l_cliPub s" "a_serverName a" "l_chLen s", unfolded e]
      l a(2) big nm by auto
  have "cert_client_hello P (name_of a) (l_sid s) (l_ks s) e"
    unfolding cert_client_hello_def e_def using l pl(2) by blast
  then have "\<exists>scr m. s\<lparr>l_scratch := out', l_chLen := ol'\<rparr> = s\<lparr>l_scratch := scr, l_chLen := m\<rparr> \<and> unat m \<le> n \<and>
      unat m \<le> length scr \<and> cert_client_hello P (name_of a) (l_sid s) (l_ks s) (take (unat m) scr)" if "ret = 0"
    using r o that by (intro exI [of _ out'] exI [of _ ol']) (auto split: if_splits)
  moreover have "ret \<le> 0" and "cert_ok P X n (s\<lparr>l_scratch := out', l_chLen := ol'\<rparr>)"
    using r o ok by (auto simp: cert_ok_def hs_ok_def split: if_splits)
  ultimately show ?thesis
    unfolding pl(1) b by (simp add: ends_Some)
qed

lemma cert_hello_ends:
  fixes s :: "('o, 'io) cert_locals"
  assumes c: "hs_crypto P H ab ext exp mac" and ok: "cert_ok P X n s" and pl: "l_pubLen s = WN_DEFAULT_PUB_SZ P" "own_share P (l_ks s) (l_cliPub s)"
    and a: "cert_args_ok a" "unat (a_scratchLen a) = n"
    and s: "l_emptyHash s = H WC_SHA256 []" "cert_fresh s" "said P H ab s []"
  shows "ends (cert_ok P X n) (cert_hello_sent P H ab a) (cert_hello P send a s)"
  unfolding cert_hello_def
proof (rule ends_ok [OF build_hello_ends [OF ok pl a]])
  fix s1 :: "('o, 'io) cert_locals"
  assume ok1: "cert_ok P X n s1" and "\<exists>scr m. s1 = s\<lparr>l_scratch := scr, l_chLen := m\<rparr> \<and> unat m \<le> n \<and> unat m \<le> length scr \<and>
      cert_client_hello P (name_of a) (l_sid s) (l_ks s) (take (unat m) scr)"
  then obtain scr m where s1: "s1 = s\<lparr>l_scratch := scr, l_chLen := m\<rparr>" "unat m \<le> n"
    and ch: "cert_client_hello P (name_of a) (l_sid s) (l_ks s) (take (unat m) scr)" by blast
  have sd: "said P H ab s1 []" and l: "unat (l_chLen s1) \<le> n" using s(3) s1 by (simp_all add: said_def)
  from send_hello_ends [OF sd cert_ok_hs [OF ok1] l, of send] show "ends (cert_ok P X n) (cert_hello_sent P H ab a) (hs_send_hello P send s1)"
  proof (rule ends_mono, goal_cases)
    case (1 s')
    then show ?case using keeps_cert_ok ok1 by blast
  next
    case (2 s')
    then obtain tc io' where s': "s' = s1\<lparr>l_tc := tc, l_io := io'\<rparr>" and "said P H ab s' (take (unat (l_chLen s1)) (l_scratch s1))"
      by auto
    then show ?case using s s1 ch pl(2) by (auto simp: cert_hello_sent_def cert_fresh_def own_share_def)
  qed
qed

text \<open>The ServerHello answers it without a pre-shared key, and the two have agreed on a secret.\<close>

definition cert_hellos :: "'o wc \<Rightarrow> cert_args \<Rightarrow> 'o wn_KeyShare \<Rightarrow> bytes \<Rightarrow> server_hello \<Rightarrow> bytes \<Rightarrow> bool" where
  "cert_hellos P a ks ch m share \<longleftrightarrow> (\<exists>sid. cert_client_hello P (name_of a) sid ks ch \<and> server_answer P (- 1) sid m share)"

definition cert_agreed ::
    "'o wc \<Rightarrow> (hash_id \<Rightarrow> bytes \<Rightarrow> bytes) \<Rightarrow> (hash_id \<Rightarrow> 'o \<Rightarrow> bytes \<Rightarrow> bool) \<Rightarrow> cert_args \<Rightarrow> ('o, 'io) cert_locals \<Rightarrow> bool" where
  "cert_agreed P H ab a s \<longleftrightarrow> l_emptyHash s = H WC_SHA256 [] \<and> cert_fresh s \<and> l_ssLen s = WN_DEFAULT_SECRET_SZ P \<and>
     (\<exists>ch m share ks. cert_hellos P a ks ch m share \<and> l_ecdhe s = share_secret P ks share \<and> said P H ab s (ch @ enc_sh m))"

lemma cert_server_hello_ends:
  fixes s :: "('o, 'io) cert_locals"
  assumes c: "hs_crypto P H ab ext exp mac" and io: "io_ok send recv avail" and ok: "cert_ok P X n s"
    and hs: "cert_hello_sent P H ab a s"
  shows "ends (cert_ok P X n) (cert_agreed P H ab a) (cert_server_hello P recv s)"
proof -
  obtain ch where ch: "cert_client_hello P (name_of a) (l_sid s) (l_ks s) ch" "said P H ab s ch"
    and g: "ks_group (l_ks s) = WN_DEFAULT_GROUP P" using hs unfolding cert_hello_sent_def by blast
  have n: "5 \<le> n" "unat (c_ioCap s) \<le> n" and z: "(- 1 :: int) \<le> 0" using ok by (simp_all add: cert_ok_def)
  from server_hello_ends [OF c io cert_ok_hs [OF ok] n g ch(2) z] show ?thesis
    unfolding cert_server_hello_def
  proof (rule ends_mono, goal_cases)
    case (1 s')
    then show ?case using keeps_cert_ok ok by blast
  next
    case (2 s')
    then have fr: "cert_fresh s'" using keeps_cert_fresh [of P n s s'] hs by (simp add: cert_hello_sent_def same_hello_def)
    obtain m share where ms: "server_answer P (- 1) (l_sid s) m share" "said P H ab s' (ch @ enc_sh m)"
      "l_ecdhe s' = share_secret P (l_ks s) share" "l_ssLen s' = WN_DEFAULT_SECRET_SZ P" using 2(2) by blast
    then have "cert_hellos P a (l_ks s) ch m share" using ch(1) unfolding cert_hellos_def by blast
    then show ?case
      using 2(2) ms fr hs unfolding cert_agreed_def cert_hello_sent_def same_hello_def by metis
  qed
qed

text \<open>Without a pre-shared key the early secret is that of 32 zero bytes.\<close>

definition cert_early :: "hkdf_extract \<Rightarrow> bytes" where
  "cert_early ext = ext WC_SHA256 (replicate 32 0) (replicate 32 0)"

lemma cert_keys_eq:
  fixes s :: "('o, 'io) cert_locals"
  assumes c: "hs_crypto P H ab ext exp mac" and ok: "cert_ok P X n s" and "l_ssLen s = WN_DEFAULT_SECRET_SZ P"
    and sd: "said P H ab s m0" and fr: "cert_fresh s"
    and Hs: "Hs = next_stage ext exp (l_emptyHash s) (cert_early ext) (l_ecdhe s)"
    and S: "S = traffic_secret exp Hs ''s hs traffic'' (H WC_SHA256 m0)"
  shows "\<exists>s'. cert_keys P s = Some (0, s') \<and> cert_ok P X n s' \<and> cert_fresh s' \<and> l_emptyHash s' = l_emptyHash s \<and>
    l_hs s' = Hs \<and> l_sHs s' = S \<and> said P H ab s' m0"
proof -
  note u = hs_cryptoD(3) [OF c]
  have "length (l_th s) = 32" and el: "length (l_early s) = 32" using ok by (simp_all add: cert_ok_def hs_ok_def)
  from get_hash_said [OF sd this(1)] obtain tc where g: "hs_get_hash P s = Some (0, s\<lparr>l_tc := tc, l_th := H WC_SHA256 m0\<rparr>)"
    and sd': "said P H ab (s\<lparr>l_tc := tc, l_th := H WC_SHA256 m0\<rparr>) m0" by blast
  let ?e = "cert_early ext"
  have e: "wn_Tls13_Extract P (Some (l_early s)) None 0 (Some (replicate 32 0)) 32 WC_SHA256 = Some (0, ?e)"
    using Extract_spec [OF u, of "l_early s" 0 None 32 "replicate 32 0"] el
    by (simp add: digest_size_def zeros_if_null_def cert_early_def)
  have "length ?e = 32"
    using usable_extract_length [OF u, of "replicate 32 0" "replicate 32 0"] by (simp add: cert_early_def digest_size_def)
  let ?s = "s\<lparr>l_tc := tc, l_th := H WC_SHA256 m0, l_early := ?e\<rparr>"
  have ok': "hs_ok P n ?s" using ok \<open>length ?e = 32\<close> hs_cryptoD(8) [OF c] by (simp add: cert_ok_def hs_ok_def)
  have l: "l_ssLen ?s = WN_DEFAULT_SECRET_SZ P" using assms(3) by simp
  have Hs': "Hs = next_stage ext exp (l_emptyHash ?s) (l_early ?s) (l_ecdhe ?s)" using Hs by simp
  have S': "S = traffic_secret exp Hs ''s hs traffic'' (l_th ?s)" using S by simp
  note d = derive_eq [OF c ok' l Hs' refl S']
  show ?thesis
    using g e d sd' ok fr by (simp add: cert_keys_def hs_keeps_def said_def cert_ok_def hs_ok_def cert_fresh_def Let_def)
qed

section \<open>The server's flight\<close>

definition leaf_of :: "'o wcx \<Rightarrow> bytes list \<Rightarrow> DecodedCert" where
  "leaf_of X ds = snd (wc_ParseCert X (hd ds))"

text \<open>A Certificate message the driver accepts, and a CertificateVerify after the messages \<open>m\<close>.\<close>

definition cert_accepted :: "'o wcx \<Rightarrow> cert_args \<Rightarrow> bytes list \<Rightarrow> bytes \<Rightarrow> bool" where
  "cert_accepted X a ds ct \<longleftrightarrow> certificate_msg ds ct \<and> chain_ok X (anchor_of a) (XTIME X) ds \<and>
     leaf_ok X (leaf_of X ds) (a_serverName a) (pin_of a) (XTIME X)"

definition cv_accepted :: "'o wc \<Rightarrow> 'o wcx \<Rightarrow> (hash_id \<Rightarrow> bytes \<Rightarrow> bytes) \<Rightarrow> bytes list \<Rightarrow> bytes \<Rightarrow> bytes \<Rightarrow> bool" where
  "cv_accepted P X H ds m cv \<longleftrightarrow> (\<exists>scheme sig. cert_verify_msg scheme sig cv \<and>
     scheme_ok P X scheme (publicKey (leaf_of X ds)) (cv_content (H WC_SHA256 m)) sig)"

definition key_held :: "'o wc \<Rightarrow> 'o wcx \<Rightarrow> ('o, 'io) cert_locals \<Rightarrow> bytes \<Rightarrow> bool" where
  "key_held P X s k \<longleftrightarrow> denotes (drop (leafSpki_at P X s) (l_scratch s)) (c_spkiLen s) k"

text \<open>
  What the flags say: after the hellos \<open>m0\<close>, the transcript holds exactly the messages they name,
  and each of them has been accepted.
\<close>

definition cert_progress ::
    "'o wc \<Rightarrow> 'o wcx \<Rightarrow> (hash_id \<Rightarrow> bytes \<Rightarrow> bytes) \<Rightarrow> (hash_id \<Rightarrow> 'o \<Rightarrow> bytes \<Rightarrow> bool) \<Rightarrow> hkdf_expand \<Rightarrow>
     (hash_id \<Rightarrow> bytes \<Rightarrow> bytes \<Rightarrow> bytes) \<Rightarrow> cert_args \<Rightarrow> bytes \<Rightarrow> ('o, 'io) cert_locals \<Rightarrow> bool" where
  "cert_progress P X H ab exp mac a m0 s \<longleftrightarrow>
     (if l_done s then \<exists>ee ct ds cv. enc_ext_msg (name_of a \<noteq> []) ee \<and> cert_accepted X a ds ct \<and> cv_accepted P X H ds (m0 @ ee @ ct) cv \<and>
        said P H ab s (m0 @ ee @ ct @ cv @ finished_msg H exp mac (l_sHs s) (m0 @ ee @ ct @ cv))
      else if gotCv (c_flight s) \<noteq> 0 then \<exists>ee ct ds cv. enc_ext_msg (name_of a \<noteq> []) ee \<and> cert_accepted X a ds ct \<and>
        cv_accepted P X H ds (m0 @ ee @ ct) cv \<and> said P H ab s (m0 @ ee @ ct @ cv)
      else if gotCert (c_flight s) \<noteq> 0 then \<exists>ee ct ds. enc_ext_msg (name_of a \<noteq> []) ee \<and> cert_accepted X a ds ct \<and>
        key_held P X s (publicKey (leaf_of X ds)) \<and> said P H ab s (m0 @ ee @ ct)
      else if gotEE (c_flight s) \<noteq> 0 then \<exists>ee. enc_ext_msg (name_of a \<noteq> []) ee \<and> said P H ab s (m0 @ ee)
      else said P H ab s m0)"

definition cert_flight_inv ::
    "'o wc \<Rightarrow> 'o wcx \<Rightarrow> (hash_id \<Rightarrow> bytes \<Rightarrow> bytes) \<Rightarrow> (hash_id \<Rightarrow> 'o \<Rightarrow> bytes \<Rightarrow> bool) \<Rightarrow> hkdf_expand \<Rightarrow>
     (hash_id \<Rightarrow> bytes \<Rightarrow> bytes \<Rightarrow> bytes) \<Rightarrow> cert_args \<Rightarrow> nat \<Rightarrow> bytes \<Rightarrow> ('o, 'io) cert_locals \<Rightarrow> ('o, 'io) cert_locals \<Rightarrow> bool" where
  "cert_flight_inv P X H ab exp mac a n m0 s0 s \<longleftrightarrow> cert_ok P X n s \<and> c_off s \<le> l_accLen s \<and> flight_ok (c_flight s) \<and>
     l_sHs s = l_sHs s0 \<and> l_hs s = l_hs s0 \<and> l_emptyHash s = l_emptyHash s0 \<and> cert_progress P X H ab exp mac a m0 s"

lemma cert_progress_cong:
  assumes "cert_progress P X H ab exp mac a m0 s" and "l_done s' = l_done s" and "c_flight s' = c_flight s" and "l_tc s' = l_tc s"
    and "l_sHs s' = l_sHs s" and "\<And>k. key_held P X s k \<Longrightarrow> key_held P X s' k"
  shows "cert_progress P X H ab exp mac a m0 s'"
  using assms(1,6) unfolding cert_progress_def assms(2-5) said_def
  by (cases "l_done s"; cases "gotCv (c_flight s) = 0"; cases "gotCert (c_flight s) = 0"; simp) blast

text \<open>A complete message of the given type and length at the offset.\<close>

definition msg_at :: "('o, 'io) cert_locals \<Rightarrow> byte \<Rightarrow> word32 \<Rightarrow> bool" where
  "msg_at s mType mLen \<longleftrightarrow> unat (c_off s) + 4 + unat mLen \<le> unat (l_accLen s) \<and> unat mLen < 2 ^ 24 \<and>
     take (unat mLen + 4) (drop (hsacc_at s (c_off s)) (l_scratch s)) =
       [mType] @ be_bytes 3 (unat mLen) @ take (unat mLen) (drop (hsacc_at s (c_off s + 4)) (l_scratch s))"

lemma msg_at_bounds:
  assumes "msg_at s mType mLen" and ok: "cert_ok P X n s"
  shows "hsacc_at s (c_off s + 4) = hsacc_at s (c_off s) + 4"
    and "hsacc_at s (c_off s) + 4 + unat mLen \<le> leafSpki_at P X s"
    and "leafSpki_at P X s + unat (WN_LEAF_SPKI_SZ P X) \<le> length (l_scratch s)"
    and "unat (mLen + 4) = unat mLen + 4" and "unat (c_off s + (4 + mLen)) = unat (c_off s) + 4 + unat mLen"
    and "c_off s + (4 + mLen) \<le> l_accLen s"
proof -
  have l: "unat (c_off s) + 4 + unat mLen \<le> unat (l_accLen s)" and m: "unat mLen < 2 ^ 24"
    using assms(1) by (simp_all add: msg_at_def)
  have a: "unat (l_accLen s) \<le> unat (WN_HS_ACC_SZ P X)" "unat (WN_HS_ACC_SZ P X) \<le> 10240"
    using ok region_sizes(1) [of P X] by (auto simp: cert_ok_def word_le_nat_alt)
  have "unat (c_off s + 4) = unat (c_off s) + 4" using l a by (simp add: unat_add_no_wrap)
  then show "hsacc_at s (c_off s + 4) = hsacc_at s (c_off s) + 4" by (simp add: hsacc_at_def)
  show "hsacc_at s (c_off s) + 4 + unat mLen \<le> leafSpki_at P X s"
    using l a by (simp add: hsacc_at_def leafSpki_at_def)
  show "leafSpki_at P X s + unat (WN_LEAF_SPKI_SZ P X) \<le> length (l_scratch s)"
    using ok by (simp add: cert_ok_def hs_ok_def leafSpki_at_def)
  show "unat (mLen + 4) = unat mLen + 4" using m by (simp add: unat_add_no_wrap)
  have "unat (4 + mLen) = 4 + unat mLen" using m by (simp add: unat_add_no_wrap)
  then show u: "unat (c_off s + (4 + mLen)) = unat (c_off s) + 4 + unat mLen"
    using l a by (simp add: unat_add_no_wrap)
  then show "c_off s + (4 + mLen) \<le> l_accLen s" using l by (simp add: word_le_nat_alt)
qed

text \<open>The bytes of the message, and the step that adds it to the transcript.\<close>

definition msg_bytes :: "('o, 'io) cert_locals \<Rightarrow> byte \<Rightarrow> word32 \<Rightarrow> bytes" where
  "msg_bytes s mType mLen = [mType] @ be_bytes 3 (unat mLen) @ take (unat mLen) (drop (hsacc_at s (c_off s + 4)) (l_scratch s))"

lemma update_msg:
  assumes "said P H ab s m" and "msg_at s mType mLen" and "cert_ok P X n s"
  shows "\<exists>tc. hs_update P (drop (hsacc_at s (c_off s)) (l_scratch s)) (mLen + 4) s = Some (0, s\<lparr>l_tc := tc\<rparr>) \<and>
    said P H ab (s\<lparr>l_tc := tc\<rparr>) (m @ msg_bytes s mType mLen)"
proof -
  note b = msg_at_bounds [OF assms(2,3)]
  have "unat (mLen + 4) \<le> length (drop (hsacc_at s (c_off s)) (l_scratch s))" using b by simp
  from update_said [OF assms(1) this] show ?thesis
    using assms(2) unfolding b(4) msg_at_def msg_bytes_def by simp
qed

text \<open>What a handler leaves behind when the message was accepted.\<close>

definition cert_step ::
    "'o wc \<Rightarrow> 'o wcx \<Rightarrow> (hash_id \<Rightarrow> bytes \<Rightarrow> bytes) \<Rightarrow> (hash_id \<Rightarrow> 'o \<Rightarrow> bytes \<Rightarrow> bool) \<Rightarrow> hkdf_expand \<Rightarrow>
     (hash_id \<Rightarrow> bytes \<Rightarrow> bytes \<Rightarrow> bytes) \<Rightarrow> cert_args \<Rightarrow> bytes \<Rightarrow> ('o, 'io) cert_locals \<Rightarrow> ('o, 'io) cert_locals \<Rightarrow> bool" where
  "cert_step P X H ab exp mac a m0 s s' \<longleftrightarrow> flight_ok (c_flight s') \<and> l_sHs s' = l_sHs s \<and> l_hs s' = l_hs s \<and>
     l_emptyHash s' = l_emptyHash s \<and> c_off s' = c_off s \<and> l_accLen s' = l_accLen s \<and> l_io s' = l_io s \<and>
     cert_progress P X H ab exp mac a m0 s'"

lemma handled_ends:
  assumes "ends (cert_ok P X n) (cert_step P X H ab exp mac a m0 s) m" and inv: "cert_flight_inv P X H ab exp mac a n m0 s0 s"
    and "msg_at s mType mLen"
  shows "ends (cert_ok P X n) (\<lambda>s'. cert_flight_inv P X H ab exp mac a n m0 s0 s' \<and> c_off s' = c_off s + (4 + mLen) \<and>
      l_accLen s' = l_accLen s \<and> l_io s' = l_io s)
    (m \<bind> (\<lambda>(ret, s). Some (ret, s\<lparr>c_off := c_off s + (4 + mLen)\<rparr>)))"
proof -
  obtain ret s1 where e: "m = Some (ret, s1)" and r: "ret \<le> 0" "cert_ok P X n s1"
    and st: "ret = 0 \<longrightarrow> cert_step P X H ab exp mac a m0 s s1"
    using assms(1) unfolding ends_def by (rule runs2E) blast
  let ?s = "s1\<lparr>c_off := c_off s1 + (4 + mLen)\<rparr>"
  have ok: "cert_ok P X n ?s" using r(2) by (simp add: cert_ok_def hs_ok_def)
  have "cert_ok P X n s" using inv by (simp add: cert_flight_inv_def)
  note le = msg_at_bounds(6) [OF assms(3) this]
  have "cert_flight_inv P X H ab exp mac a n m0 s0 ?s \<and> c_off ?s = c_off s + (4 + mLen) \<and> l_accLen ?s = l_accLen s \<and> l_io ?s = l_io s"
    if "ret = 0"
  proof -
    have d: "cert_step P X H ab exp mac a m0 s s1" using st that by blast
    have "cert_progress P X H ab exp mac a m0 ?s"
      by (rule cert_progress_cong [of P X H ab exp mac a m0 s1]) (use d in \<open>simp_all add: cert_step_def key_held_def leafSpki_at_def\<close>)
    then show ?thesis
      using d inv ok le unfolding cert_flight_inv_def cert_step_def by simp
  qed
  then show ?thesis
    unfolding e Option.bind.bind_lunit prod.case ends_Some using r ok by blast
qed

lemma for_type_simps:
  "m \<bind> ok (for_type False f) = m" "for_type True f = f"
  by (cases m) (auto simp: Wn_Handshake.ok_def for_type_def)

lemma type_tests:
  "((8 :: byte) = 8) = True" "((8 :: byte) = 11) = False" "((8 :: byte) = 15) = False" "((8 :: byte) = 20) = False"
  "((11 :: byte) = 8) = False" "((11 :: byte) = 11) = True" "((11 :: byte) = 15) = False" "((11 :: byte) = 20) = False"
  "((15 :: byte) = 8) = False" "((15 :: byte) = 11) = False" "((15 :: byte) = 15) = True" "((15 :: byte) = 20) = False"
  "((20 :: byte) = 8) = False" "((20 :: byte) = 11) = False" "((20 :: byte) = 15) = False" "((20 :: byte) = 20) = True"
  by simp_all

lemma handle_enc_ext:
  assumes inv: "cert_flight_inv P X H ab exp mac a n m0 s0 s" and nd: "\<not> l_done s" and msg: "msg_at s 8 mLen"
  shows "ends (cert_ok P X n) (\<lambda>s'. cert_flight_inv P X H ab exp mac a n m0 s0 s' \<and> c_off s' = c_off s + (4 + mLen) \<and>
      l_accLen s' = l_accLen s \<and> l_io s' = l_io s) (cert_handle P X a 8 mLen s)"
  unfolding cert_handle_def type_tests for_type_simps
proof (rule handled_ends [OF _ inv msg])
  let ?f = "c_flight s" and ?s = "s\<lparr>c_flight := (c_flight s)\<lparr>gotEE := 1\<rparr>\<rparr>"
  have ok: "cert_ok P X n s" and fl: "flight_ok ?f" and pr: "cert_progress P X H ab exp mac a m0 s"
    using inv by (simp_all add: cert_flight_inv_def)
  have ok1: "cert_ok P X n ?s" using ok by (simp add: cert_ok_def hs_ok_def)
  note b = msg_at_bounds [OF msg ok]
  have m24: "unat mLen < 2 ^ 24" using msg by (simp add: msg_at_def)
  let ?body = "drop (hsacc_at s (c_off s + 4)) (l_scratch s)"
  have "unat mLen \<le> length ?body" using b by simp
  from CheckEncExt_msg [OF this m24, of "name_of a \<noteq> []"] obtain ret
    where ck: "wn_CheckEncExt ?body mLen (name_of a \<noteq> []) = Some ret" "ret \<le> 0"
      and good: "ret = 0 \<longrightarrow> enc_ext_msg (name_of a \<noteq> []) (msg_bytes s 8 mLen)"
    unfolding msg_bytes_def by blast
  have sni: "(case a_serverName a of None \<Rightarrow> False | Some n \<Rightarrow> n \<noteq> []) \<longleftrightarrow> name_of a \<noteq> []"
    by (simp add: name_of_def split: option.splits)
  show "ends (cert_ok P X n) (cert_step P X H ab exp mac a m0 s)
    ((case wn_FlightOrder 8 (c_flight s) of (ret, f) \<Rightarrow> Some (ret, s\<lparr>c_flight := f\<rparr>)) \<bind>
     ok (\<lambda>s. wn_CheckEncExt (drop (hsacc_at s (c_off s + 4)) (l_scratch s)) mLen
         (case a_serverName a of None \<Rightarrow> False | Some n \<Rightarrow> n \<noteq> []) \<bind> (\<lambda>ret. Some (ret, s))) \<bind>
     ok (\<lambda>s. hs_update P (drop (hsacc_at s (c_off s)) (l_scratch s)) (mLen + 4) s))"
  proof (cases "gotEE ?f = 0 \<and> ret = 0")
    case False
    then show ?thesis
      using ok1 ck unfolding sni by (auto simp: wn_FlightOrder_def Wn_Handshake.ok_def ends_Some hsacc_at_def)
  next
    case True
    then have none: "gotCert ?f = 0" "gotCv ?f = 0" using fl by (auto simp: flight_ok_def)
    then have "said P H ab ?s m0" using pr nd True by (simp add: cert_progress_def said_def)
    moreover have "msg_at ?s 8 mLen" using msg by (simp add: msg_at_def hsacc_at_def)
    ultimately obtain tc where up: "hs_update P (drop (hsacc_at ?s (c_off ?s)) (l_scratch ?s)) (mLen + 4) ?s = Some (0, ?s\<lparr>l_tc := tc\<rparr>)"
      and sd: "said P H ab (?s\<lparr>l_tc := tc\<rparr>) (m0 @ msg_bytes ?s 8 mLen)"
      using update_msg [OF _ _ ok1] by blast
    have "msg_bytes ?s 8 mLen = msg_bytes s 8 mLen" by (simp add: msg_bytes_def hsacc_at_def)
    then have "cert_progress P X H ab exp mac a m0 (?s\<lparr>l_tc := tc\<rparr>)"
      using sd good True none nd by (auto simp: cert_progress_def)
    then have "cert_step P X H ab exp mac a m0 s (?s\<lparr>l_tc := tc\<rparr>)"
      using none by (simp add: cert_step_def flight_ok_def)
    moreover have "cert_ok P X n (?s\<lparr>l_tc := tc\<rparr>)" using ok1 by (simp add: cert_ok_def hs_ok_def)
    ultimately show ?thesis
      using True ck up unfolding sni by (simp add: wn_FlightOrder_def Wn_Handshake.ok_def ends_Some hsacc_at_def)
  qed
qed

text \<open>The list of pointers denotes the certificates of the message.\<close>

lemma entries_denote:
  assumes "list_all2 (entry_at S) ps ds" and S: "S = take n (drop body scr)" and "n \<le> length (drop body scr)"
  shows "denote_all (map (\<lambda>(p, _). drop (body + unat p) scr) ps) (map snd ps) ds"
proof -
  have l: "length ps = length ds" using assms(1) by (rule list_all2_lengthD)
  have "denotes (drop (body + unat p) scr) k (ds ! i)" if "i < length ds" and e: "ps ! i = (p, k)" for i p k
  proof -
    have "unat p + unat k \<le> length S" and "take (unat k) (drop (unat p) S) = ds ! i"
      using list_all2_nthD2 [OF assms(1) that(1)] by (simp_all add: entry_at_def e)
    then have k: "unat p + unat k \<le> n" "unat p + unat k \<le> length scr - body"
      and "take (min (unat k) (n - unat p)) (drop (unat p + body) scr) = ds ! i"
      unfolding S by (simp_all add: drop_take take_take)
    moreover have "min (unat k) (n - unat p) = unat k" and "unat k \<le> length scr - (unat p + body)" using k by linarith+
    ultimately show ?thesis
      by (simp add: denotes_def add.commute)
  qed
  then show ?thesis
    using l by (simp add: denote_all_def case_prod_beta)
qed

lemma cert_certificate_ends:
  fixes s :: "('o, 'io) cert_locals"
  assumes co: "compare_ok P" and px: "parse_ok X" and a: "cert_args_ok a" and ok: "cert_ok P X n s" and m24: "unat mLen < 2 ^ 24"
    and b: "hsacc_at s (c_off s + 4) + unat mLen \<le> leafSpki_at P X s"
  shows "ends (cert_ok P X n) (\<lambda>s'. \<exists>scr k ds. s' = s\<lparr>l_scratch := scr, c_spkiLen := k\<rparr> \<and> key_held P X s' (publicKey (leaf_of X ds)) \<and>
      cert_accepted X a ds ([11] @ be_bytes 3 (unat mLen) @ take (unat mLen) (drop (hsacc_at s (c_off s + 4)) (l_scratch s))))
    (cert_certificate P X a mLen s)"
proof -
  let ?body = "hsacc_at s (c_off s + 4)" and ?leaf = "leafSpki_at P X s" and ?scr = "l_scratch s"
  let ?S = "take (unat mLen) (drop (hsacc_at s (c_off s + 4)) (l_scratch s))"
  have ls: "?leaf + unat (WN_LEAF_SPKI_SZ P X) \<le> length ?scr"
    using ok by (simp add: cert_ok_def hs_ok_def leafSpki_at_def)
  have bl: "unat mLen \<le> length (drop ?body ?scr)" using b ls by simp
  obtain ret ps where cl: "cert_list (drop ?body ?scr) mLen = Some (ret, ps)" and "ret \<le> 0"
    and d: "ret = 0 \<longrightarrow> (\<exists>ds. certificate_body ds ?S \<and> list_all2 (entry_at ?S) ps ds)"
    by (rule runs2E [OF cert_list_spec [OF bl m24]]) blast
  let ?s = "s\<lparr>c_spkiLen := WN_LEAF_SPKI_SZ P X\<rparr>"
  have ok1: "cert_ok P X n ?s" using ok by (simp add: cert_ok_def hs_ok_def)
  have start: "cert_certificate P X a mLen s = ok (\<lambda>s.
        wn_VerifyChain P X (map (\<lambda>(p, _). drop (?body + unat p) (l_scratch s)) ps) (map snd ps) (length ps)
          (a_anchor a) (a_anchorLen a) (drop (leafSpki_at P X s) (l_scratch s)) (c_spkiLen s) (a_serverName a)
          (a_pinnedKey a) (a_pinnedKeyLen a) (XTIME X) \<bind> (\<lambda>(ret, spki, spkiLen).
        Some (ret, s\<lparr>l_scratch := take (leafSpki_at P X s) (l_scratch s) @ spki, c_spkiLen := spkiLen\<rparr>))) (ret, ?s)"
    unfolding cert_certificate_def by (simp add: cl)
  show ?thesis
  proof (cases "ret = 0")
    case False
    then show ?thesis unfolding start using ok1 \<open>ret \<le> 0\<close> by (simp add: Wn_Handshake.ok_def ends_Some)
  next
    case True
    with d obtain ds where ds: "certificate_body ds ?S" "list_all2 (entry_at ?S) ps ds" by blast
    have len: "length ps = length ds" using ds(2) by (rule list_all2_lengthD)
    note den = entries_denote [OF ds(2) refl bl]
    have anc: "denotes (a_anchor a) (a_anchorLen a) (anchor_of a)"
      using a by (simp add: cert_args_ok_def denotes_def anchor_of_def)
    have cap: "unat (WN_LEAF_SPKI_SZ P X) \<le> length (drop ?leaf ?scr)" using ls by simp
    have host: "\<And>h. a_serverName a = Some h \<Longrightarrow> length h < 2 ^ 31" using a by (simp add: cert_args_ok_def)
    have pin: "\<exists>k. pin_of a = Some k \<and> denotes p (a_pinnedKeyLen a) k" if "a_pinnedKey a = Some p" for p
      using a that by (simp add: cert_args_ok_def denotes_def pin_of_def)
    have nopin: "a_pinnedKey a = None \<Longrightarrow> pin_of a = None" by (simp add: pin_of_def)
    obtain ret' spki k where v: "wn_VerifyChain P X (map (\<lambda>(p, _). drop (?body + unat p) ?scr) ps) (map snd ps) (length ds)
          (a_anchor a) (a_anchorLen a) (drop ?leaf ?scr) (WN_LEAF_SPKI_SZ P X) (a_serverName a)
          (a_pinnedKey a) (a_pinnedKeyLen a) (XTIME X) = Some (ret', spki, k)" and sl: "length spki = length (drop ?leaf ?scr)"
      and acc: "ret' = 0 \<longleftrightarrow> chain_ok X (anchor_of a) (XTIME X) ds \<and> fst (wc_ParseCert X (hd ds)) = 0 \<and>
        pubKeySize (snd (wc_ParseCert X (hd ds))) \<le> WN_LEAF_SPKI_SZ P X \<and>
        leaf_ok X (snd (wc_ParseCert X (hd ds))) (a_serverName a) (pin_of a) (XTIME X)"
      and key: "ret' = 0 \<longrightarrow> unat k \<le> length spki \<and> take (unat k) spki = publicKey (snd (wc_ParseCert X (hd ds)))"
      using VerifyChain_spec [OF co px den anc cap host pin nopin, of "a_serverName a" "a_pinnedKey a" "XTIME X"] by auto
    let ?s2 = "s\<lparr>l_scratch := take ?leaf ?scr @ spki, c_spkiLen := k\<rparr>"
    have "length (take ?leaf ?scr @ spki) = length ?scr" using sl ls by simp
    then have ok2: "cert_ok P X n ?s2" using ok by (simp add: cert_ok_def hs_ok_def)
    have run: "cert_certificate P X a mLen s = Some (ret', ?s2)"
      unfolding start using True v len by (simp add: Wn_Handshake.ok_def leafSpki_at_def)
    have "key_held P X ?s2 (publicKey (leaf_of X ds)) \<and> cert_accepted X a ds ([11] @ be_bytes 3 (unat mLen) @ ?S)" if "ret' = 0"
    proof
      have "min (length ?scr) ?leaf = ?leaf" using ls by simp
      then show "key_held P X ?s2 (publicKey (leaf_of X ds))"
        using key that unfolding key_held_def denotes_def leaf_of_def by (simp add: leafSpki_at_def)
      have "length ?S = unat mLen" using bl by simp
      then have "certificate_msg ds ([11] @ be_bytes 3 (unat mLen) @ ?S)"
        unfolding certificate_msg_def using ds(1) by metis
      then show "cert_accepted X a ds ([11] @ be_bytes 3 (unat mLen) @ ?S)"
        using acc that by (simp add: cert_accepted_def leaf_of_def)
    qed
    moreover have "ret' \<le> 0" using v by (rule VerifyChain_le)
    ultimately show ?thesis
      unfolding run ends_Some using ok2 by blast
  qed
qed

lemma handle_certificate:
  fixes s :: "('o, 'io) cert_locals"
  assumes co: "compare_ok P" and px: "parse_ok X" and a: "cert_args_ok a"
    and inv: "cert_flight_inv P X H ab exp mac a n m0 s0 s" and nd: "\<not> l_done s" and msg: "msg_at s 11 mLen"
  shows "ends (cert_ok P X n) (\<lambda>s'. cert_flight_inv P X H ab exp mac a n m0 s0 s' \<and> c_off s' = c_off s + (4 + mLen) \<and>
      l_accLen s' = l_accLen s \<and> l_io s' = l_io s) (cert_handle P X a 11 mLen s)"
  unfolding cert_handle_def type_tests for_type_simps
proof (rule handled_ends [OF _ inv msg])
  let ?f = "c_flight s" and ?s = "s\<lparr>c_flight := (c_flight s)\<lparr>gotCert := 1\<rparr>\<rparr>"
  have ok: "cert_ok P X n s" and fl: "flight_ok ?f" and pr: "cert_progress P X H ab exp mac a m0 s"
    using inv by (simp_all add: cert_flight_inv_def)
  have ok1: "cert_ok P X n ?s" using ok by (simp add: cert_ok_def hs_ok_def)
  note b = msg_at_bounds [OF msg ok]
  have m24: "unat mLen < 2 ^ 24" using msg by (simp add: msg_at_def)
  show "ends (cert_ok P X n) (cert_step P X H ab exp mac a m0 s)
    ((case wn_FlightOrder 11 (c_flight s) of (ret, f) \<Rightarrow> Some (ret, s\<lparr>c_flight := f\<rparr>)) \<bind>
     ok (\<lambda>s. hs_update P (drop (hsacc_at s (c_off s)) (l_scratch s)) (mLen + 4) s) \<bind>
     ok (cert_certificate P X a mLen))"
  proof (cases "gotEE ?f \<noteq> 0 \<and> gotCert ?f = 0")
    case False
    then show ?thesis
      using ok1 by (auto simp: wn_FlightOrder_def Wn_Handshake.ok_def ends_Some)
  next
    case True
    then have none: "gotCv ?f = 0" using fl by (auto simp: flight_ok_def)
    then obtain ee where ee: "enc_ext_msg (name_of a \<noteq> []) ee" "said P H ab ?s (m0 @ ee)"
      using pr nd True by (auto simp: cert_progress_def said_def)
    have "msg_at ?s 11 mLen" using msg by (simp add: msg_at_def hsacc_at_def)
    then obtain tc where up: "hs_update P (drop (hsacc_at ?s (c_off ?s)) (l_scratch ?s)) (mLen + 4) ?s = Some (0, ?s\<lparr>l_tc := tc\<rparr>)"
      and sd: "said P H ab (?s\<lparr>l_tc := tc\<rparr>) ((m0 @ ee) @ msg_bytes ?s 11 mLen)"
      using update_msg [OF ee(2) _ ok1] by blast
    let ?s1 = "?s\<lparr>l_tc := tc\<rparr>"
    have ok2: "cert_ok P X n ?s1" using ok1 by (simp add: cert_ok_def hs_ok_def)
    have le: "hsacc_at ?s1 (c_off ?s1 + 4) + unat mLen \<le> leafSpki_at P X ?s1" using b(1,2) by (simp add: hsacc_at_def leafSpki_at_def)
    have mb: "[11] @ be_bytes 3 (unat mLen) @ take (unat mLen) (drop (hsacc_at ?s1 (c_off ?s1 + 4)) (l_scratch ?s1)) = msg_bytes ?s 11 mLen"
      by (simp add: msg_bytes_def hsacc_at_def)
    have "ends (cert_ok P X n) (cert_step P X H ab exp mac a m0 s) (cert_certificate P X a mLen ?s1)"
    proof (rule ends_mono [OF cert_certificate_ends [OF co px a ok2 m24 le]], assumption)
      fix s' :: "('o, 'io) cert_locals"
      assume "cert_ok P X n s'" and "\<exists>scr k ds. s' = ?s1\<lparr>l_scratch := scr, c_spkiLen := k\<rparr> \<and> key_held P X s' (publicKey (leaf_of X ds)) \<and>
        cert_accepted X a ds ([11] @ be_bytes 3 (unat mLen) @ take (unat mLen) (drop (hsacc_at ?s1 (c_off ?s1 + 4)) (l_scratch ?s1)))"
      then obtain scr k ds where s': "s' = ?s1\<lparr>l_scratch := scr, c_spkiLen := k\<rparr>" and kh: "key_held P X s' (publicKey (leaf_of X ds))"
        and ca: "cert_accepted X a ds (msg_bytes ?s 11 mLen)" unfolding mb by blast
      have "said P H ab s' (m0 @ ee @ msg_bytes ?s 11 mLen)" using sd by (simp add: s' said_def)
      moreover have "\<not> l_done s'" "gotCv (c_flight s') = 0" "gotCert (c_flight s') \<noteq> 0" using nd none by (simp_all add: s')
      ultimately have "cert_progress P X H ab exp mac a m0 s'"
        unfolding cert_progress_def using ee(1) kh ca by simp blast
      then show "cert_step P X H ab exp mac a m0 s s'"
        using True none by (simp add: s' cert_step_def flight_ok_def)
    qed
    then show ?thesis
      using True up by (simp add: wn_FlightOrder_def Wn_Handshake.ok_def)
  qed
qed

lemma th_hash_said:
  fixes s :: "('o, 'io) cert_locals"
  assumes "said P H ab s m" and "length (c_thCert s) = 32"
  shows "\<exists>tc. cert_th_hash P s = Some (0, s\<lparr>l_tc := tc, c_thCert := H WC_SHA256 m\<rparr>) \<and>
    said P H ab (s\<lparr>l_tc := tc, c_thCert := H WC_SHA256 m\<rparr>) m"
proof -
  obtain t' where u: "wn_Transcript_GetHash P (Some (l_tc s)) (Some (c_thCert s)) (Some 0) = Some (0, t', H WC_SHA256 m, Some 32)"
    and h: "tr_holds P H ab WC_SHA256 t' m"
    using tr_interim [of P H ab WC_SHA256 "Some (l_tc s)" m "c_thCert s" 0] assms
    by (auto simp: said_def digest_size_def)
  then obtain tc where "t' = Some tc"
    by (auto elim: tr_holdsE)
  with u h show ?thesis
    by (auto simp: cert_th_hash_def said_def)
qed

lemma cert_verify_ends:
  fixes s :: "('o, 'io) cert_locals"
  assumes hx: "hash_ok P X" and ok: "cert_ok P X n s" and m24: "unat mLen < 2 ^ 24"
    and b: "hsacc_at s (c_off s + 4) + unat mLen \<le> leafSpki_at P X s" and k: "key_held P X s k" and th: "length (c_thCert s) = 32"
  shows "ends (cert_ok P X n) (\<lambda>s'. s' = s \<and> (\<exists>scheme sig. cert_verify_msg scheme sig
      ([15] @ be_bytes 3 (unat mLen) @ take (unat mLen) (drop (hsacc_at s (c_off s + 4)) (l_scratch s))) \<and>
      scheme_ok P X scheme k (cv_content (c_thCert s)) sig))
    (cert_verify P X mLen s)"
proof -
  let ?body = "hsacc_at s (c_off s + 4)" and ?scr = "l_scratch s"
  let ?S = "take (unat mLen) (drop (hsacc_at s (c_off s + 4)) (l_scratch s))"
  have ls: "leafSpki_at P X s + unat (WN_LEAF_SPKI_SZ P X) \<le> length ?scr"
    using ok by (simp add: cert_ok_def hs_ok_def leafSpki_at_def)
  have bl: "unat mLen \<le> length (drop ?body ?scr)" using b ls by simp
  have lS: "length ?S = unat mLen" using bl by simp
  have dth: "denotes (c_thCert s) 32 (c_thCert s)" using th by (simp add: denotes_def)
  let ?Q = "\<lambda>(ret, s'). ret \<le> 0 \<and> cert_ok P X n s' \<and> (ret = 0 \<longrightarrow> s' = s \<and> (\<exists>scheme sig. cert_verify_msg scheme sig
      ([15] @ be_bytes 3 (unat mLen) @ ?S) \<and> scheme_ok P X scheme k (cv_content (c_thCert s)) sig))"
  have "runs (cert_verify P X mLen s) ?Q"
    unfolding cert_verify_def Let_def
  proof (rule scheme_length_step [OF bl m24 refl])
    fix scheme cvLen :: word16 and r
    assume r: "r_err r = 0 \<Longrightarrow> r_pos r = 4 \<and> 4 \<le> length ?S \<and> ?S = be_bytes 2 (unat scheme) @ be_bytes 2 (unat cvLen) @ drop 4 ?S"
    show "runs (if r_err r \<noteq> 0 \<or> gotCert (c_flight s) = 0 \<or> r_pos r + ucast cvLen \<noteq> mLen then Some (WOLFNANO_E_DECODE, s)
      else wn_CertVerify P X scheme (drop (leafSpki_at P X s) ?scr) (c_spkiLen s) (c_thCert s) 32
          (drop (?body + unat (r_pos r)) ?scr) (ucast cvLen) \<bind> (\<lambda>ret. Some (ret, s))) ?Q"
    proof (cases "r_err r \<noteq> 0 \<or> gotCert (c_flight s) = 0 \<or> r_pos r + ucast cvLen \<noteq> mLen")
      case True
      then show ?thesis using ok by simp
    next
      case False
      then have p: "r_pos r = 4" "4 \<le> length ?S" and S: "?S = be_bytes 2 (unat scheme) @ be_bytes 2 (unat cvLen) @ drop 4 ?S"
        and n: "4 + ucast cvLen = mLen" using r by auto
      have "unat (4 + ucast cvLen :: word32) = 4 + unat cvLen"
        by (subst unat_add_no_wrap) (use word16_lt [of cvLen] in \<open>simp_all del: word16_lt\<close>)
      then have un: "unat mLen = 4 + unat cvLen" unfolding n .
      have p4: "unat (r_pos r) = 4" using p(1) by simp
      have sl: "length (drop 4 ?S) = unat cvLen" using lS un by simp
      have "denotes (drop (?body + unat (r_pos r)) ?scr) (ucast cvLen) (drop 4 ?S)"
        using bl un unfolding p4 by (simp add: denotes_def drop_take add.commute)
      from CertVerify_spec [OF hx k [unfolded key_held_def] dth this, of scheme] obtain ret
        where e: "wn_CertVerify P X scheme (drop (leafSpki_at P X s) ?scr) (c_spkiLen s) (c_thCert s) 32
          (drop (?body + unat (r_pos r)) ?scr) (ucast cvLen) = Some ret"
          and g: "ret = 0 \<longleftrightarrow> scheme_ok P X scheme k (cv_content (c_thCert s)) (drop 4 ?S)" by auto
      have "cert_verify_msg scheme (drop 4 ?S) ([15] @ be_bytes 3 (unat mLen) @ ?S)"
        unfolding cert_verify_msg_def sl un [symmetric] using S word16_lt [of cvLen] by simp
      moreover have "ret \<le> 0" using e CertVerify_le [of P X scheme] by (auto simp: never_positive_def)
      ultimately show ?thesis
        using False e g ok by auto
    qed
  qed
  then show ?thesis unfolding ends_def .
qed

lemma handle_cert_verify:
  fixes s :: "('o, 'io) cert_locals"
  assumes c: "hs_crypto P H ab ext exp mac" and hx: "hash_ok P X"
    and inv: "cert_flight_inv P X H ab exp mac a n m0 s0 s" and nd: "\<not> l_done s" and msg: "msg_at s 15 mLen"
  shows "ends (cert_ok P X n) (\<lambda>s'. cert_flight_inv P X H ab exp mac a n m0 s0 s' \<and> c_off s' = c_off s + (4 + mLen) \<and>
      l_accLen s' = l_accLen s \<and> l_io s' = l_io s) (cert_handle P X a 15 mLen s)"
  unfolding cert_handle_def type_tests for_type_simps
proof (rule handled_ends [OF _ inv msg])
  let ?f = "c_flight s" and ?s = "s\<lparr>c_flight := (c_flight s)\<lparr>gotCv := 1\<rparr>\<rparr>"
  have ok: "cert_ok P X n s" and fl: "flight_ok ?f" and pr: "cert_progress P X H ab exp mac a m0 s"
    using inv by (simp_all add: cert_flight_inv_def)
  have ok1: "cert_ok P X n ?s" using ok by (simp add: cert_ok_def hs_ok_def)
  note b = msg_at_bounds [OF msg ok]
  have m24: "unat mLen < 2 ^ 24" using msg by (simp add: msg_at_def)
  show "ends (cert_ok P X n) (cert_step P X H ab exp mac a m0 s)
    ((case wn_FlightOrder 15 (c_flight s) of (ret, f) \<Rightarrow> Some (ret, s\<lparr>c_flight := f\<rparr>)) \<bind>
     ok (cert_th_hash P) \<bind>
     ok (\<lambda>s. hs_update P (drop (hsacc_at s (c_off s)) (l_scratch s)) (mLen + 4) s) \<bind>
     ok (cert_verify P X mLen))"
  proof (cases "gotCert ?f \<noteq> 0 \<and> gotCv ?f = 0")
    case False
    then show ?thesis
      using ok1 by (auto simp: wn_FlightOrder_def Wn_Handshake.ok_def ends_Some)
  next
    case True
    then obtain ee ct ds where ee: "enc_ext_msg (name_of a \<noteq> []) ee" and ct: "cert_accepted X a ds ct"
      and kh: "key_held P X s (publicKey (leaf_of X ds))" and sd: "said P H ab ?s (m0 @ ee @ ct)"
      using pr nd by (auto simp: cert_progress_def said_def)
    let ?h = "H WC_SHA256 (m0 @ ee @ ct)"
    have "length (c_thCert ?s) = 32" using ok1 by (simp add: cert_ok_def)
    from th_hash_said [OF sd this] obtain tc where g: "cert_th_hash P ?s = Some (0, ?s\<lparr>l_tc := tc, c_thCert := ?h\<rparr>)"
      and sd1: "said P H ab (?s\<lparr>l_tc := tc, c_thCert := ?h\<rparr>) (m0 @ ee @ ct)" by blast
    let ?s1 = "?s\<lparr>l_tc := tc, c_thCert := ?h\<rparr>"
    have hl: "length ?h = 32" by (rule hs_cryptoD(8) [OF c])
    have ok2: "cert_ok P X n ?s1" using ok1 hl by (simp add: cert_ok_def hs_ok_def)
    have "msg_at ?s1 15 mLen" using msg by (simp add: msg_at_def hsacc_at_def)
    from update_msg [OF sd1 this ok2] obtain tc' where
      up: "hs_update P (drop (hsacc_at ?s1 (c_off ?s1)) (l_scratch ?s1)) (mLen + 4) ?s1 = Some (0, ?s1\<lparr>l_tc := tc'\<rparr>)"
      and sd2: "said P H ab (?s1\<lparr>l_tc := tc'\<rparr>) ((m0 @ ee @ ct) @ msg_bytes ?s1 15 mLen)" by blast
    let ?s2 = "?s1\<lparr>l_tc := tc'\<rparr>"
    have ok3: "cert_ok P X n ?s2" using ok2 by (simp add: cert_ok_def hs_ok_def)
    have le: "hsacc_at ?s2 (c_off ?s2 + 4) + unat mLen \<le> leafSpki_at P X ?s2" using b(1,2) by (simp add: hsacc_at_def leafSpki_at_def)
    have kh2: "key_held P X ?s2 (publicKey (leaf_of X ds))" using kh by (simp add: key_held_def leafSpki_at_def)
    have thl: "length (c_thCert ?s2) = 32" using hl by simp
    have mb: "[15] @ be_bytes 3 (unat mLen) @ take (unat mLen) (drop (hsacc_at ?s2 (c_off ?s2 + 4)) (l_scratch ?s2)) = msg_bytes ?s1 15 mLen"
      by (simp add: msg_bytes_def hsacc_at_def)
    have "ends (cert_ok P X n) (cert_step P X H ab exp mac a m0 s) (cert_verify P X mLen ?s2)"
    proof (rule ends_mono [OF cert_verify_ends [OF hx ok3 m24 le kh2 thl, unfolded mb]], assumption)
      fix s' :: "('o, 'io) cert_locals"
      assume "s' = ?s2 \<and> (\<exists>scheme sig. cert_verify_msg scheme sig (msg_bytes ?s1 15 mLen) \<and>
        scheme_ok P X scheme (publicKey (leaf_of X ds)) (cv_content (c_thCert ?s2)) sig)"
      then have s': "s' = ?s2" and cv: "cv_accepted P X H ds (m0 @ ee @ ct) (msg_bytes ?s1 15 mLen)"
        by (auto simp: cv_accepted_def)
      have "said P H ab s' (m0 @ ee @ ct @ msg_bytes ?s1 15 mLen)" using sd2 by (simp add: s')
      moreover have "\<not> l_done s'" "gotCv (c_flight s') \<noteq> 0" using nd by (simp_all add: s')
      ultimately have "cert_progress P X H ab exp mac a m0 s'"
        unfolding cert_progress_def using ee ct cv by simp blast
      then show "cert_step P X H ab exp mac a m0 s s'"
        using True fl by (simp add: s' cert_step_def flight_ok_def)
    qed
    then show ?thesis
      using True g up by (simp add: wn_FlightOrder_def Wn_Handshake.ok_def)
  qed
qed

lemma handle_finished:
  fixes s :: "('o, 'io) cert_locals"
  assumes c: "hs_crypto P H ab ext exp mac" and inv: "cert_flight_inv P X H ab exp mac a n m0 s0 s" and nd: "\<not> l_done s" and msg: "msg_at s 20 mLen"
  shows "ends (cert_ok P X n) (\<lambda>s'. cert_flight_inv P X H ab exp mac a n m0 s0 s' \<and> c_off s' = c_off s + (4 + mLen) \<and>
      l_accLen s' = l_accLen s \<and> l_io s' = l_io s) (cert_handle P X a 20 mLen s)"
  unfolding cert_handle_def type_tests for_type_simps
proof (rule handled_ends [OF _ inv msg])
  let ?f = "c_flight s"
  have ok: "cert_ok P X n s" and fl: "flight_ok ?f" and pr: "cert_progress P X H ab exp mac a m0 s"
    using inv by (simp_all add: cert_flight_inv_def)
  note b = msg_at_bounds [OF msg ok]
  show "ends (cert_ok P X n) (cert_step P X H ab exp mac a m0 s)
    ((case wn_FlightOrder 20 (c_flight s) of (ret, f) \<Rightarrow> Some (ret, s\<lparr>c_flight := f\<rparr>)) \<bind>
     ok (hs_get_hash P) \<bind>
     ok (\<lambda>s. hs_update P (drop (hsacc_at s (c_off s)) (l_scratch s)) (mLen + 4) s) \<bind>
     ok (cert_finished P mLen))"
  proof (cases "gotCv ?f = 0")
    case True
    then show ?thesis
      using ok by (auto simp: wn_FlightOrder_def Wn_Handshake.ok_def ends_Some)
  next
    case cv: False
    then obtain ee ct ds cv where ee: "enc_ext_msg (name_of a \<noteq> []) ee" and ct: "cert_accepted X a ds ct"
      and cva: "cv_accepted P X H ds (m0 @ ee @ ct) cv" and sd: "said P H ab s (m0 @ ee @ ct @ cv)"
      using pr nd by (auto simp: cert_progress_def)
    let ?m = "m0 @ ee @ ct @ cv" and ?h = "H WC_SHA256 (m0 @ ee @ ct @ cv)"
    have len: "length (l_th s) = 32" "length (l_sHs s) = 32" "length (l_mac s) = 32" using ok by (simp_all add: cert_ok_def hs_ok_def)
    from get_hash_said [OF sd len(1)] obtain tc where g: "hs_get_hash P s = Some (0, s\<lparr>l_tc := tc, l_th := ?h\<rparr>)"
      and sd1: "said P H ab (s\<lparr>l_tc := tc, l_th := ?h\<rparr>) ?m" by blast
    let ?s1 = "s\<lparr>l_tc := tc, l_th := ?h\<rparr>"
    have ok1: "cert_ok P X n ?s1" using ok hs_cryptoD(8) [OF c] by (simp add: cert_ok_def hs_ok_def)
    have "msg_at ?s1 20 mLen" using msg by (simp add: msg_at_def hsacc_at_def)
    from update_msg [OF sd1 this ok1] obtain tc' where
      up: "hs_update P (drop (hsacc_at ?s1 (c_off ?s1)) (l_scratch ?s1)) (mLen + 4) ?s1 = Some (0, ?s1\<lparr>l_tc := tc'\<rparr>)"
      and sd2: "said P H ab (?s1\<lparr>l_tc := tc'\<rparr>) (?m @ msg_bytes ?s1 20 mLen)" by blast
    let ?V = "verify_data exp mac (l_sHs s) ?h" and ?s2 = "?s1\<lparr>l_tc := tc'\<rparr>"
    have ok2: "hs_ok P n ?s2" using ok1 by (simp add: cert_ok_def hs_ok_def)
    have fm: "hs_finished_mac P (l_sHs ?s2) ?s2 = Some (0, ?s2\<lparr>l_mac := ?V\<rparr>)"
      using finished_mac_eq [OF c ok2, of "l_sHs s"] len(2) by simp
    have vl: "length ?V = 32" by (rule verify_data_length [OF c])
    let ?s3 = "?s2\<lparr>l_mac := ?V\<rparr>"
    have ok3: "cert_ok P X n ?s3" using ok1 vl by (simp add: cert_ok_def hs_ok_def)
    let ?rm = "take 32 (drop (hsacc_at s (c_off s + 4)) (l_scratch s))"
    define bad where "bad \<longleftrightarrow> mLen \<noteq> 32 \<or> ConstantCompare P ?V ?rm \<noteq> 0"
    have start: "cert_finished P mLen ?s2 = (if bad then Some (WOLFNANO_E_BAD_MAC, ?s3) else Some (WOLFNANO_SUCCESS, ?s3\<lparr>l_done := True\<rparr>))"
    proof (cases "mLen = 32")
      case False
      then show ?thesis using cv fm by (simp add: cert_finished_def fail_if_def Wn_Handshake.ok_def bad_def)
    next
      case True
      then have "hsacc_at s (c_off s + 4) + 32 \<le> length (l_scratch s)" using b by simp
      then show ?thesis using True cv fm vl by (simp add: cert_finished_def fail_if_def Wn_Handshake.ok_def bad_def mem_read_in hsacc_at_def)
    qed
    have "cert_step P X H ab exp mac a m0 s (?s3\<lparr>l_done := True\<rparr>)" if "\<not> bad"
    proof -
      have ml: "mLen = 32" and cmp: "ConstantCompare P ?V ?rm = 0" using that by (simp_all add: bad_def)
      have "length ?rm = 32" using b ml by simp
      then have "?V = ?rm" using hs_cryptoD(7) [OF c] vl cmp unfolding compare_ok_def by metis
      then have "msg_bytes ?s1 20 mLen = finished_msg H exp mac (l_sHs s) ?m"
        using ml by (simp add: msg_bytes_def finished_msg_def hsacc_at_def)
      then have "said P H ab (?s3\<lparr>l_done := True\<rparr>) (m0 @ ee @ ct @ cv @ finished_msg H exp mac (l_sHs s) (m0 @ ee @ ct @ cv))"
        using sd2 by (simp add: said_def)
      then have "cert_progress P X H ab exp mac a m0 (?s3\<lparr>l_done := True\<rparr>)"
        unfolding cert_progress_def using ee ct cva by simp blast
      then show ?thesis using fl by (simp add: cert_step_def)
    qed
    moreover have "cert_ok P X n (?s3\<lparr>l_done := True\<rparr>)" using ok3 by (simp add: cert_ok_def hs_ok_def)
    ultimately have "ends (cert_ok P X n) (cert_step P X H ab exp mac a m0 s) (cert_finished P mLen ?s2)"
      unfolding start using ok3 by (simp add: ends_Some)
    then show ?thesis
      using cv g up by (simp add: wn_FlightOrder_def Wn_Handshake.ok_def)
  qed
qed

lemma handle_other:
  assumes ok: "cert_ok P X n s" and "mType \<notin> {8, 11, 15, 20}"
  shows "ends (cert_ok P X n) (\<lambda>s'. False) (cert_handle P X a mType mLen s)"
proof -
  let ?ret = "if mType = 13 then WOLFNANO_E_UNSUPPORTED else WOLFNANO_E_UNEXPECTED_MSG" and ?f = "c_flight s"
  have e: "wn_FlightOrder mType (c_flight s) = (?ret, ?f)"
    using assms(2) by (auto simp: wn_FlightOrder_def)
  have "cert_ok P X n (s\<lparr>c_flight := ?f, c_off := c_off s + (4 + mLen)\<rparr>)"
    using ok by (simp add: cert_ok_def hs_ok_def)
  then show ?thesis
    using e by (simp add: cert_handle_def Wn_Handshake.ok_def ends_Some)
qed

lemma cert_handle_ends:
  fixes s :: "('o, 'io) cert_locals"
  assumes c: "hs_crypto P H ab ext exp mac" and x: "parse_ok X" "hash_ok P X" and a: "cert_args_ok a"
    and inv: "cert_flight_inv P X H ab exp mac a n m0 s0 s" and nd: "\<not> l_done s" and msg: "msg_at s mType mLen"
  shows "ends (cert_ok P X n) (\<lambda>s'. cert_flight_inv P X H ab exp mac a n m0 s0 s' \<and> c_off s' = c_off s + (4 + mLen) \<and>
      l_accLen s' = l_accLen s \<and> l_io s' = l_io s) (cert_handle P X a mType mLen s)"
proof -
  have ok: "cert_ok P X n s" using inv by (simp add: cert_flight_inv_def)
  consider "mType = 8" | "mType = 11" | "mType = 15" | "mType = 20" | "mType \<notin> {8, 11, 15, 20}" by blast
  then show ?thesis
  proof cases
    case 1
    then show ?thesis using handle_enc_ext [OF inv nd] msg by simp
  next
    case 2
    then show ?thesis using handle_certificate [OF hs_cryptoD(7) [OF c] x(1) a inv nd] msg by simp
  next
    case 3
    then show ?thesis using handle_cert_verify [OF c x(2) inv nd] msg by simp
  next
    case 4
    then show ?thesis using handle_finished [OF c inv nd] msg by simp
  next
    case 5
    from handle_other [OF ok 5] show ?thesis by (rule ends_mono) simp_all
  qed
qed

lemma cert_msg_runs:
  fixes s :: "('o, 'io) cert_locals"
  assumes c: "hs_crypto P H ab ext exp mac" and x: "parse_ok X" "hash_ok P X" and a: "cert_args_ok a"
    and inv: "cert_flight_inv P X H ab exp mac a n m0 s0 s" and nd: "\<not> l_done s" and four: "4 \<le> l_accLen s - c_off s"
  shows "runs (cert_msg P X a s) (\<lambda>(ret, brk, s'). ret \<le> 0 \<and> cert_ok P X n s' \<and> (ret = 0 \<longrightarrow>
    cert_flight_inv P X H ab exp mac a n m0 s0 s' \<and> l_accLen s' = l_accLen s \<and> l_io s' = l_io s \<and> (\<not> brk \<longrightarrow> c_off s < c_off s')))"
proof -
  let ?o = "hsacc_at s (c_off s)" and ?b = "l_scratch s"
  have ok: "cert_ok P X n s" and le: "c_off s \<le> l_accLen s" using inv by (simp_all add: cert_flight_inv_def)
  have acc: "unat (l_accLen s) \<le> unat (WN_HS_ACC_SZ P X)" "unat (WN_HS_ACC_SZ P X) \<le> 10240"
    using ok region_sizes(1) [of P X] by (auto simp: cert_ok_def word_le_nat_alt)
  have o4: "unat (c_off s) + 4 \<le> unat (l_accLen s)"
    using four le by (simp add: word_le_nat_alt unat_sub_no_wrap)
  then have u: "hsacc_at s (c_off s + 1) = ?o + 1" "hsacc_at s (c_off s + 2) = ?o + 2" "hsacc_at s (c_off s + 3) = ?o + 3"
      "hsacc_at s (c_off s + 4) = ?o + 4" "unat (c_off s + 4) = unat (c_off s) + 4"
    using acc by (simp_all add: unat_add_no_wrap hsacc_at_def)
  have bl: "?o + 4 \<le> length ?b"
    using o4 acc ok by (simp add: hsacc_at_def cert_ok_def hs_ok_def)
  define mLen where "mLen = msg_length (?b ! (?o + 1)) (?b ! (?o + 2)) (?b ! (?o + 3))"
  have ml: "unat mLen < 2 ^ 24" unfolding mLen_def by (rule unat_msg_length(3))
  have ue: "unat (c_off s + 4 + mLen) = unat (c_off s) + 4 + unat mLen"
    using o4 acc ml u(5) by (simp add: unat_add_no_wrap)
  have m: "take (unat mLen + 4) (drop ?o ?b) = [?b ! ?o] @ be_bytes 3 (unat mLen) @ take (unat mLen) (drop (?o + 4) ?b)"
    by (rule message_in_buffer [OF bl]) (simp add: mLen_def)
  have start: "cert_msg P X a s = (if c_off s + 4 + mLen > l_accLen s then Some (WOLFNANO_SUCCESS, True, s)
     else cert_handle P X a (?b ! ?o) mLen s \<bind> (\<lambda>(ret, s). Some (ret, False, s)))"
    using bl by (simp add: cert_msg_def mem_get_in u mLen_def msg_length_def Let_def)
  show ?thesis
  proof (cases "c_off s + 4 + mLen > l_accLen s")
    case True
    then show ?thesis unfolding start using ok inv by auto
  next
    case False
    then have "unat (c_off s) + 4 + unat mLen \<le> unat (l_accLen s)"
      unfolding not_less word_le_nat_alt ue .
    then have msg: "msg_at s (?b ! ?o) mLen" using ml m by (simp add: msg_at_def u(4))
    have "c_off s < c_off s + (4 + mLen)"
      using msg_at_bounds(5) [OF msg ok] by (simp add: word_less_nat_alt)
    moreover obtain ret s' where "cert_handle P X a (?b ! ?o) mLen s = Some (ret, s')" "ret \<le> 0" "cert_ok P X n s'"
      "ret = 0 \<longrightarrow> cert_flight_inv P X H ab exp mac a n m0 s0 s' \<and> c_off s' = c_off s + (4 + mLen) \<and>
      l_accLen s' = l_accLen s \<and> l_io s' = l_io s"
      using cert_handle_ends [OF c x a inv nd msg] unfolding ends_def by (rule runs2E) blast
    ultimately show ?thesis unfolding start using False by auto
  qed
qed

lemma cert_msgs_ends:
  fixes s :: "('o, 'io) cert_locals"
  assumes c: "hs_crypto P H ab ext exp mac" and x: "parse_ok X" "hash_ok P X" and a: "cert_args_ok a"
  shows "cert_flight_inv P X H ab exp mac a n m0 s0 s \<Longrightarrow>
    ends (cert_ok P X n) (\<lambda>s'. cert_flight_inv P X H ab exp mac a n m0 s0 s' \<and> l_io s' = l_io s) (cert_msgs P X a s)"
proof (induction "unat (l_accLen s) - unat (c_off s)" arbitrary: s rule: less_induct)
  case less
  have ok: "cert_ok P X n s" using less.prems by (simp add: cert_flight_inv_def)
  show ?case
  proof (cases "\<not> l_done s \<and> l_accLen s - c_off s \<ge> 4")
    case False
    then show ?thesis
      using less.prems ok by (subst cert_msgs.simps) (auto simp: ends_Some)
  next
    case True
    then have nd: "\<not> l_done s" and four: "4 \<le> l_accLen s - c_off s" by simp_all
    obtain ret brk s' where e: "cert_msg P X a s = Some (ret, brk, s')" and r: "ret \<le> 0" "cert_ok P X n s'"
      "ret = 0 \<longrightarrow> cert_flight_inv P X H ab exp mac a n m0 s0 s' \<and> l_accLen s' = l_accLen s \<and> l_io s' = l_io s \<and>
        (\<not> brk \<longrightarrow> c_off s < c_off s')"
      by (rule runs3E [OF cert_msg_runs [OF c x a less.prems nd four]]) blast
    have st: "cert_msgs P X a s = (if brk \<or> ret \<noteq> 0 then Some (ret, s') else cert_msgs P X a s')"
      using True e by (subst cert_msgs.simps) simp
    show ?thesis
    proof (cases "brk \<or> ret \<noteq> 0")
      case True
      then show ?thesis unfolding st using r by (auto simp: ends_Some)
    next
      case False
      with r have i: "cert_flight_inv P X H ab exp mac a n m0 s0 s'" and d: "l_accLen s' = l_accLen s" "c_off s < c_off s'" "l_io s' = l_io s" by auto
      have "c_off s' \<le> l_accLen s'" using i by (simp add: cert_flight_inv_def)
      then have "unat (l_accLen s') - unat (c_off s') < unat (l_accLen s) - unat (c_off s)"
        using d by (simp add: word_less_nat_alt word_le_nat_alt)
      from less.hyps [OF this i] show ?thesis
        unfolding st using False d(3) by simp
    qed
  qed
qed

text \<open>Records are received, opened and copied outside the region of the leaf's key.\<close>

lemma cert_flight_cong:
  fixes s s' :: "('o, 'io) cert_locals"
  assumes inv: "cert_flight_inv P X H ab exp mac a n m0 s0 s" and ok: "cert_ok P X n s'"
    and e: "c_off s' = c_off s" "l_done s' = l_done s" "c_flight s' = c_flight s" "l_tc s' = l_tc s" "l_sHs s' = l_sHs s"
      "l_hs s' = l_hs s" "l_emptyHash s' = l_emptyHash s" "c_ioCap s' = c_ioCap s" "c_spkiLen s' = c_spkiLen s"
    and acc: "l_accLen s \<le> l_accLen s'"
    and key: "drop (leafSpki_at P X s) (l_scratch s') = drop (leafSpki_at P X s) (l_scratch s)"
  shows "cert_flight_inv P X H ab exp mac a n m0 s0 s'"
proof -
  have pr: "cert_progress P X H ab exp mac a m0 s" using inv by (simp add: cert_flight_inv_def)
  have l: "leafSpki_at P X s' = leafSpki_at P X s" using e by (simp add: leafSpki_at_def)
  have "key_held P X s k \<Longrightarrow> key_held P X s' k" for k unfolding key_held_def l key e .
  then have "cert_progress P X H ab exp mac a m0 s'"
    by (intro cert_progress_cong [OF pr]) (simp_all add: e)
  then show ?thesis
    using inv ok acc order_trans unfolding cert_flight_inv_def e by blast
qed

lemma cert_open_ends:
  fixes s :: "('o, 'io) cert_locals"
  assumes c: "hs_crypto P H ab ext exp mac" and inv: "cert_flight_inv P X H ab exp mac a n m0 s0 s"
    and rl: "unat rl \<le> unat (c_ioCap s)" "unat rl \<le> 16645"
  shows "ends (cert_ok P X n) (\<lambda>s'. cert_flight_inv P X H ab exp mac a n m0 s0 s' \<and> l_io s' = l_io s \<and> l_done s' = l_done s \<and>
      unat (l_plainLen s') \<le> 16645 \<and> 5 + unat (l_plainLen s') \<le> length (l_scratch s')) (cert_open P rl s)"
proof -
  have ok: "cert_ok P X n s" using inv by (simp add: cert_flight_inv_def)
  let ?scr = "l_scratch s" and ?leaf = "leafSpki_at P X s"
  have kl: "length (l_sKey s) = 16" "length (l_sIv s) = 12" using ok by (simp_all add: cert_ok_def hs_ok_def)
  have sz: "4096 \<le> unat (c_ioCap s)" "unat (c_ioCap s) \<le> ?leaf" "?leaf \<le> length ?scr"
    using ok by (simp_all add: cert_ok_def hs_ok_def leafSpki_at_def)
  have "unat rl \<le> length ?scr" and "unat rl \<le> length (drop 5 ?scr) + 21" using rl sz by simp_all
  then obtain ret pl cl ct where u: "wn_Record_Unprotect P (Some (drop 5 ?scr)) (Some (l_plainLen s)) (Some (l_ctype s))
       (Some (l_sKey s)) 16 (Some (l_sIv s)) (l_sSeq s) (Some ?scr) rl = Some (ret, pl, cl, ct)"
    and r: "ret \<le> 0" "length pl = length (drop 5 ?scr)" "drop (unat rl - 21) pl = drop (unat rl - 21) (drop 5 ?scr)"
      "\<exists>l t. cl = Some l \<and> ct = Some t \<and> (ret = 0 \<longrightarrow> unat l + 21 < unat rl)"
    by (rule runs4E [OF Unprotect_flight [OF hs_cryptoD(5) [OF c] kl, of rl ?scr "drop 5 ?scr" "l_plainLen s" "l_ctype s" "l_sSeq s"]]) blast+
  from r(4) obtain l t where cl: "cl = Some l" "ct = Some t" "ret = 0 \<longrightarrow> unat l + 21 < unat rl" by blast
  let ?s = "s\<lparr>l_scratch := take 5 ?scr @ pl, l_plainLen := l, l_ctype := t, l_sSeq := l_sSeq s + 1\<rparr>"
  have len: "length (take 5 ?scr @ pl) = length ?scr" using r(2) sz by simp
  have ok': "cert_ok P X n ?s" using ok len by (simp add: cert_ok_def hs_ok_def)
  have "drop (?leaf - 5) pl = drop (?leaf - 5) (drop 5 ?scr)"
    by (rule drop_eq_mono [OF r(3)]) (use rl(1) sz(2) in linarith)
  then have "drop ?leaf (take 5 ?scr @ pl) = drop ?leaf ?scr"
    using sz by simp
  then have "cert_flight_inv P X H ab exp mac a n m0 s0 ?s"
    using ok' by (intro cert_flight_cong [OF inv]) simp_all
  moreover have "5 + unat l \<le> length (take 5 ?scr @ pl)" "unat l \<le> 16645" if "ret = 0"
    unfolding len using cl(3) that rl sz by linarith+
  ultimately show ?thesis
    unfolding cert_open_def u using cl(1,2) r(1) ok' by (simp add: ends_Some)
qed

lemma cert_collect_ends:
  fixes s :: "('o, 'io) cert_locals"
  assumes inv: "cert_flight_inv P X H ab exp mac a n m0 s0 s"
    and l: "unat (l_plainLen s) \<le> 16645" "5 + unat (l_plainLen s) \<le> length (l_scratch s)"
  shows "ends (cert_ok P X n) (\<lambda>s'. cert_flight_inv P X H ab exp mac a n m0 s0 s' \<and> l_io s' = l_io s) (cert_collect P X s)"
proof (cases "l_accLen s + l_plainLen s > WN_HS_ACC_SZ P X")
  case True
  then show ?thesis using inv by (simp add: cert_collect_def ends_Some cert_flight_inv_def)
next
  case False
  have ok: "cert_ok P X n s" using inv by (simp add: cert_flight_inv_def)
  let ?d = "take (unat (l_plainLen s)) (drop 5 (l_scratch s))" and ?leaf = "leafSpki_at P X s"
  have "unat (l_accLen s) \<le> 10240"
    using ok region_sizes(1) [of P X] by (auto simp: cert_ok_def word_le_nat_alt)
  then have u: "unat (l_accLen s + l_plainLen s) = unat (l_accLen s) + unat (l_plainLen s)"
    using l(1) by (simp add: unat_add_no_wrap)
  then have le: "hsacc_at s (l_accLen s) + length ?d \<le> ?leaf" and dl: "length ?d = unat (l_plainLen s)"
    using False l(2) by (simp_all add: hsacc_at_def leafSpki_at_def word_le_nat_alt not_less)
  have ls: "?leaf \<le> length (l_scratch s)"
    using ok by (simp add: cert_ok_def hs_ok_def leafSpki_at_def)
  let ?scr = "take (hsacc_at s (l_accLen s)) (l_scratch s) @ ?d @ drop (hsacc_at s (l_accLen s) + length ?d) (l_scratch s)"
  have w: "mem_write (l_scratch s) (hsacc_at s (l_accLen s)) ?d = Some ?scr"
    using le ls by (intro mem_write_in) linarith
  let ?s = "s\<lparr>l_scratch := ?scr, l_accLen := l_accLen s + l_plainLen s\<rparr>"
  have e: "cert_collect P X s = Some (0, ?s)"
    using False w l(2) by (simp add: cert_collect_def mem_read_in)
  have "length ?scr = length (l_scratch s)" using le ls by simp
  then have ok': "cert_ok P X n ?s" using ok False by (simp add: cert_ok_def hs_ok_def not_less)
  have "drop ?leaf ?scr = drop ?leaf (l_scratch s)" using le ls by simp
  moreover have "l_accLen s \<le> l_accLen s + l_plainLen s" using u by (simp add: word_le_nat_alt)
  ultimately have "cert_flight_inv P X H ab exp mac a n m0 s0 ?s"
    using ok' by (intro cert_flight_cong [OF inv]) simp_all
  then show ?thesis unfolding e using ok' by (simp add: ends_Some)
qed

lemma cert_record_runs:
  fixes s :: "('o, 'io) cert_locals"
  assumes c: "hs_crypto P H ab ext exp mac" and x: "parse_ok X" "hash_ok P X" and a: "cert_args_ok a" and io: "io_ok send recv avail"
    and inv: "cert_flight_inv P X H ab exp mac a n m0 s0 s"
  shows "runs (cert_record P X recv a s) (\<lambda>(ret, s'). ret \<le> 0 \<and> cert_ok P X n s' \<and>
    (ret = 0 \<longrightarrow> cert_flight_inv P X H ab exp mac a n m0 s0 s' \<and> avail (l_io s') < avail (l_io s)))"
proof -
  let ?I = "cert_flight_inv P X H ab exp mac a n m0 s0"
  have ok: "cert_ok P X n s" using inv by (simp add: cert_flight_inv_def)
  have rv: "recv_ok recv" using io by (simp add: io_ok_def)
  have sz: "5 \<le> length (l_scratch s)" "unat (c_ioCap s) \<le> length (l_scratch s)" "max 5 (unat (c_ioCap s)) \<le> leafSpki_at P X s"
    using ok by (simp_all add: cert_ok_def hs_ok_def leafSpki_at_def)
  obtain ret scr ty rl io' where e: "wn_RecvRecord recv (l_io s) (l_scratch s) (c_ioCap s) (l_rtype s) (l_recLen s) = Some (ret, scr, ty, rl, io')"
    and r: "length scr = length (l_scratch s)" "drop (max 5 (unat (c_ioCap s))) scr = drop (max 5 (unat (c_ioCap s))) (l_scratch s)"
      "ret \<in> {0, WOLFNANO_E_CRYPTO, WOLFNANO_E_DECODE}" "ret = 0 \<longrightarrow> unat rl \<le> unat (c_ioCap s) \<and> unat rl \<le> 16645"
    by (rule runs5E [OF RecvRecord_safe [OF rv sz(1,2), of "l_io s" "l_rtype s" "l_recLen s"]]) auto
  have av: "ret = 0 \<Longrightarrow> avail io' < avail (l_io s)" using RecvRecord_avail [OF io e] by simp
  let ?s = "s\<lparr>l_scratch := scr, l_rtype := ty, l_recLen := rl, l_io := io'\<rparr>"
  have ok1: "cert_ok P X n ?s" using ok r(1) by (simp add: cert_ok_def hs_ok_def)
  have key: "drop (leafSpki_at P X s) scr = drop (leafSpki_at P X s) (l_scratch s)"
    by (rule drop_eq_mono [OF r(2) sz(3)])
  have inv1: "?I ?s" by (rule cert_flight_cong [OF inv ok1]) (use key in simp_all)
  let ?rest = "ok (\<lambda>s. fail_if (ty \<noteq> WN_REC_APPDATA) WOLFNANO_E_UNEXPECTED_MSG s) (ret, ?s) \<bind>
       ok (cert_open P rl) \<bind>
       ok (\<lambda>s. fail_if (l_ctype s \<noteq> WN_REC_HANDSHAKE) WOLFNANO_E_UNEXPECTED_MSG s) \<bind>
       ok (cert_collect P X) \<bind> ok (cert_msgs P X a)"
  have start: "cert_record P X recv a s = (if ret = 0 \<and> ty = WN_REC_CHANGE_CIPHER then Some (0, ?s) else ?rest)"
    unfolding cert_record_def e by (simp add: Let_def)
  show ?thesis
  proof (cases "ret = 0 \<and> ty = WN_REC_CHANGE_CIPHER")
    case True
    then show ?thesis unfolding start using ok1 inv1 av by simp
  next
    case no_ccs: False
    show ?thesis
    proof (cases "ret = 0")
      case False
      then show ?thesis
        unfolding start using ok1 r(3) by (auto simp: Wn_Handshake.ok_def)
    next
      case True
      let ?O = "\<lambda>s'. ?I s' \<and> l_io s' = io' \<and> unat (l_plainLen s') \<le> 16645 \<and> 5 + unat (l_plainLen s') \<le> length (l_scratch s')"
      have "ends (cert_ok P X n) (\<lambda>s'. ?I s' \<and> l_io s' = io') ?rest"
      proof (rule ends_ok [where B = "\<lambda>s'. ?I s' \<and> l_io s' = io'"], rule ends_ok [where B = ?O],
          rule ends_ok [where B = ?O], rule ends_ok [where B = "\<lambda>s'. s' = ?s"], goal_cases)
        case 1
        then show ?case using ok1 True by (auto simp: Wn_Handshake.ok_def fail_if_def ends_Some)
      next
        case (2 s')
        have "unat rl \<le> unat (c_ioCap ?s)" "unat rl \<le> 16645" using r(4) True by simp_all
        from cert_open_ends [OF c inv1 this] show ?case
          unfolding 2(2) by (rule ends_mono) auto
      next
        case (3 s')
        then show ?case by (auto intro!: ends_fail_if)
      next
        case (4 s')
        then have i: "?I s'" and l: "unat (l_plainLen s') \<le> 16645" "5 + unat (l_plainLen s') \<le> length (l_scratch s')" by simp_all
        from cert_collect_ends [OF i l] show ?case
          by (rule ends_mono) (use 4 in auto)
      next
        case (5 s')
        then have "?I s'" by simp
        from cert_msgs_ends [OF c x a this] show ?case
          by (rule ends_mono) (use 5 in auto)
      qed
      then have "runs (cert_record P X recv a s) (\<lambda>(ret, s'). ret \<le> 0 \<and> cert_ok P X n s' \<and> (ret = 0 \<longrightarrow> ?I s' \<and> l_io s' = io'))"
        unfolding start ends_def if_not_P [OF no_ccs] .
      then show ?thesis
        using av [OF True] by (auto elim!: runs_mono)
    qed
  qed
qed

lemma cert_flight_ends:
  fixes s :: "('o, 'io) cert_locals"
  assumes c: "hs_crypto P H ab ext exp mac" and x: "parse_ok X" "hash_ok P X" and a: "cert_args_ok a" and io: "io_ok send recv avail"
  shows "cert_flight_inv P X H ab exp mac a n m0 s0 s \<Longrightarrow>
    ends (cert_ok P X n) (\<lambda>s'. cert_flight_inv P X H ab exp mac a n m0 s0 s' \<and> l_done s') (cert_flight P X recv a s)"
proof (induction "avail (l_io s)" arbitrary: s rule: less_induct)
  case less
  show ?case
  proof (cases "l_done s")
    case True
    then show ?thesis
      using less.prems by (subst cert_flight.simps) (simp add: ends_Some cert_flight_inv_def)
  next
    case False
    obtain ret s' where e: "cert_record P X recv a s = Some (ret, s')" and r: "ret \<le> 0" "cert_ok P X n s'"
      "ret = 0 \<longrightarrow> cert_flight_inv P X H ab exp mac a n m0 s0 s' \<and> avail (l_io s') < avail (l_io s)"
      by (rule runs2E [OF cert_record_runs [OF c x a io less.prems]]) blast
    have st: "cert_flight P X recv a s = (if ret \<noteq> 0 then Some (ret, s') else cert_flight P X recv a s')"
      using False e by (subst cert_flight.simps) simp
    show ?thesis
    proof (cases "ret = 0")
      case True
      with r less.hyps [of s'] show ?thesis unfolding st by simp
    next
      case False
      with r show ?thesis unfolding st by (simp add: ends_Some)
    qed
  qed
qed

end
