(* ===== verification/Wn_CertSpec.thy ===== *)
theory Wn_CertSpec
  imports Wn_CertFlight
begin

text \<open>
  The certificate handshake as a whole: it always returns, it never leaves its buffers, it wipes
  its secrets and the flight, and it succeeds only with a server whose certificate chain leads to
  the anchor, whose leaf is acceptable, and which has signed the transcript with the leaf's key.
\<close>

section \<open>The last phases\<close>

lemma cert_client_finished_ends:
  fixes s :: "('o, 'io) cert_locals"
  assumes c: "hs_crypto P H ab ext exp mac" and ok: "cert_ok P X n s" and sd: "said P H ab s m"
  shows "ends (cert_ok P X n) (\<lambda>s'. l_hs s' = l_hs s \<and> l_emptyHash s' = l_emptyHash s \<and> l_th s' = H WC_SHA256 m)
    (cert_client_finished P send s)"
proof -
  have l: "length (l_th s) = 32" "length (l_cHs s) = 32" "58 \<le> n" using ok by (simp_all add: cert_ok_def hs_ok_def)
  from get_hash_said [OF sd l(1)] obtain tc where g: "hs_get_hash P s = Some (0, s\<lparr>l_tc := tc, l_th := H WC_SHA256 m\<rparr>)" by blast
  let ?s = "s\<lparr>l_tc := tc, l_th := H WC_SHA256 m\<rparr>"
  have ok': "hs_ok P n ?s" using ok hs_cryptoD(8) [OF c] by (simp add: cert_ok_def hs_ok_def)
  have f: "hs_finished_mac P (l_cHs ?s) ?s = Some (0, ?s\<lparr>l_mac := verify_data exp mac (l_cHs ?s) (l_th ?s)\<rparr>)"
    by (rule finished_mac_eq [OF c ok']) (simp add: l)
  let ?s1 = "?s\<lparr>l_mac := verify_data exp mac (l_cHs ?s) (l_th ?s)\<rparr>"
  let ?s2 = "if WOLFNANO_SEND_ALERTS P then ?s1\<lparr>c_cHsSeq := 1\<rparr> else ?s1"
  have ok2: "cert_ok P X n ?s2" using ok verify_data_length [OF c] hs_cryptoD(8) [OF c] by (simp add: cert_ok_def hs_ok_def)
  have "cert_client_finished P send s = hs_send_finished P send ?s2"
    using g f by (simp add: cert_client_finished_def Wn_Handshake.ok_def)
  moreover from send_finished_ends [OF c cert_ok_hs [OF ok2] l(3), of send]
  have "ends (cert_ok P X n) (\<lambda>s'. l_hs s' = l_hs s \<and> l_emptyHash s' = l_emptyHash s \<and> l_th s' = H WC_SHA256 m) (hs_send_finished P send ?s2)"
  proof (rule ends_mono, goal_cases)
    case (1 s')
    then show ?case using keeps_cert_ok ok2 by blast
  qed (simp split: if_splits)
  ultimately show ?thesis by simp
qed

text \<open>The alert is best effort; it stays in its buffer of 24 bytes.\<close>

lemma SendAlert_runs:
  assumes "gcm_sizes P" and "length key = 16" and "length iv = 12"
  shows "\<exists>io'. wn_SendAlert P send io key iv seq ret = Some io'"
proof -
  obtain r rec rl where "wn_Record_Protect P (Some (replicate 24 0)) (Some 0) (Some key) 16 (Some iv) seq WN_REC_ALERT
      (Some [2, wn_ErrToAlert ret]) 2 = Some (r, rec, rl)" and "length rec = 24" "r = 0 \<longrightarrow> rl = Some (2 + 22)"
    using Protect_runs [OF assms, of 2 "[2, wn_ErrToAlert ret]" "replicate 24 0" 0 seq WN_REC_ALERT] by (auto elim!: runs3E)
  then show ?thesis
    by (auto simp: wn_SendAlert_def mem_read_in)
qed

lemma ErrToAlert_for: "wn_ErrToAlert err = alert_code (alert_for err)"
  by (simp add: wn_ErrToAlert_def alert_for_def alert_table_def)

lemma SendAlert_sends:
  assumes "channel_ready P key iv"
  shows "\<exists>rec. length rec = 24 \<and> wn_SendAlert P send io key iv seq err = Some (snd (send io rec)) \<and>
    unprotect P key iv seq rec = Some (WN_REC_ALERT, [2, alert_code (alert_for err)])"
proof -
  let ?m = "[2, wn_ErrToAlert err]"
  have m: "fits_record ?m" by (simp add: fits_record_def)
  from Protect_record [OF assms m, where rec = "replicate 24 0" and rl = 0 and n = 2 and content = ?m and ty = WN_REC_ALERT and seq = seq]
  obtain rec where p: "protect P key iv seq WN_REC_ALERT ?m = Some rec" and l: "length rec = 24"
    and e: "wn_Record_Protect P (Some (replicate 24 0)) (Some 0) (Some key) 16 (Some iv) seq WN_REC_ALERT (Some ?m) 2 =
      Some (0, rec, Some 24)" by auto
  have "wn_SendAlert P send io key iv seq err = Some (snd (send io rec))"
    unfolding wn_SendAlert_def e using l by (simp add: mem_read_in)
  moreover have "unprotect P key iv seq rec = Some (WN_REC_ALERT, ?m)"
    by (rule unprotect_protect [OF assms m _ p]) simp
  ultimately show ?thesis
    using l by (auto simp: ErrToAlert_for)
qed

lemma cert_alert_runs:
  assumes "gcm_sizes P" and "cert_ok P X n (s\<lparr>l_sess := zero_session\<rparr>)"
  shows "\<exists>io'. cert_alert P send ret s = Some (s\<lparr>l_io := io'\<rparr>)"
proof -
  have "length (l_cKey s) = 16" "length (l_cIv s) = 12" using assms(2) by (simp_all add: cert_ok_def hs_ok_def)
  from SendAlert_runs [OF assms(1) this, of send "l_io s" "c_cHsSeq s" ret] obtain io'
    where "wn_SendAlert P send (l_io s) (l_cKey s) (l_cIv s) (c_cHsSeq s) ret = Some io'" by blast
  then have "cert_alert P send ret s = Some (s\<lparr>l_io := if WOLFNANO_SEND_ALERTS P \<and> ret < 0 \<and> c_keysReady s then io' else l_io s\<rparr>)"
    by (simp add: cert_alert_def)
  then show ?thesis by (rule exI)
qed

text \<open>The locals after the wipe: the secrets, and the flight in the scratch.\<close>

definition cert_wiped :: "'o wc \<Rightarrow> ('o, 'io) cert_locals \<Rightarrow> bool" where
  "cert_wiped P s \<longleftrightarrow> hs_wiped P s \<and>
     take (unat (l_accLen s)) (drop (unat (c_ioCap s)) (l_scratch s)) = replicate (unat (l_accLen s)) 0"

lemma cert_wipe_runs:
  assumes "cert_ok P X n (s\<lparr>l_sess := zero_session\<rparr>)"
  shows "runs (cert_wipe P s) (\<lambda>s'. cert_wiped P s' \<and> n \<le> length (l_scratch s') \<and>
    l_sess s' = (l_sess s)\<lparr>scratch := map_option (\<lambda>_. l_scratch s') (scratch (l_sess s))\<rparr>)"
proof -
  have h: "hs_ok P n (s\<lparr>l_sess := zero_session\<rparr>)" using assms by (simp add: cert_ok_def)
  obtain s1 where e: "hs_wipe P s = Some s1" and w: "hs_wiped P s1" and m: "hs_locals.more s1 = hs_locals.more s"
    and f: "l_sess s1 = l_sess s" "l_scratch s1 = l_scratch s" "l_accLen s1 = l_accLen s"
    using wipe_runs [OF h] by (auto simp: runs_def)
  have l: "unat (c_ioCap s) + unat (l_accLen s) \<le> length (l_scratch s)" "n \<le> length (l_scratch s)"
    using assms by (simp_all add: cert_ok_def hs_ok_def word_le_nat_alt)
  show ?thesis
  proof (cases "l_accLen s > 0")
    case False
    then have "l_accLen s = 0" by (simp add: word_gt_0)
    then show ?thesis
      using e f w l by (simp add: cert_wipe_def cert_wiped_def hs_wiped_def)
  next
    case True
    then show ?thesis
      using e f w l cert_more(2) [OF m]
      by (simp add: cert_wipe_def cert_wiped_def hs_wiped_def force_zero_def mem_write_in)
  qed
qed

section \<open>The whole handshake\<close>

text \<open>
  What a successful certificate handshake has established: an own ClientHello \<open>ch\<close> with the server's
  name and the share of an own key pair \<open>ks\<close>, a ServerHello that answers it, acceptable EncryptedExtensions, a Certificate whose chain
  leads to the anchor and whose leaf is acceptable, a CertificateVerify with the leaf's key over all
  messages up to the Certificate, and a Finished message that is the MAC over all messages up to
  the CertificateVerify. The session keys are those of the schedule of RFC 8446 over these messages.
\<close>

definition cert_authentic ::
    "'o wc \<Rightarrow> 'o wcx \<Rightarrow> (hash_id \<Rightarrow> bytes \<Rightarrow> bytes) \<Rightarrow> hkdf_extract \<Rightarrow> hkdf_expand \<Rightarrow> (hash_id \<Rightarrow> bytes \<Rightarrow> bytes \<Rightarrow> bytes) \<Rightarrow> cert_args \<Rightarrow>
     'io wn_IoSend \<Rightarrow> 'io wn_IoRecv \<Rightarrow> nat \<Rightarrow> bytes \<Rightarrow> 'io wn_Session \<Rightarrow> bool" where
  "cert_authentic P X H ext exp mac a send recv ctx scr sess \<longleftrightarrow>
     (\<exists>ks ch m share ee ct ds cv. let eh = H WC_SHA256 [];
          Hs = next_stage ext exp eh (cert_early ext) (share_secret P ks share);
          S = traffic_secret exp Hs ''s hs traffic'' (H WC_SHA256 (ch @ enc_sh m));
          fin = finished_msg H exp mac S (ch @ enc_sh m @ ee @ ct @ cv) in
        cert_hellos P a ks ch m share \<and> enc_ext_msg (name_of a \<noteq> []) ee \<and> cert_accepted X a ds ct \<and>
        cv_accepted P X H ds (ch @ enc_sh m @ ee @ ct) cv \<and>
        sess = app_session ext exp eh Hs (H WC_SHA256 (ch @ enc_sh m @ ee @ ct @ cv @ fin)) send recv ctx scr (a_scratchLen a))"

definition cert_done ::
    "'o wc \<Rightarrow> 'o wcx \<Rightarrow> (hash_id \<Rightarrow> bytes \<Rightarrow> bytes) \<Rightarrow> hkdf_extract \<Rightarrow> hkdf_expand \<Rightarrow> (hash_id \<Rightarrow> bytes \<Rightarrow> bytes \<Rightarrow> bytes) \<Rightarrow> cert_args \<Rightarrow>
     ('o, 'io) cert_locals \<Rightarrow> bytes \<Rightarrow> bool" where
  "cert_done P X H ext exp mac a s tr \<longleftrightarrow> l_emptyHash s = H WC_SHA256 [] \<and>
     (\<exists>ks ch m share ee ct ds cv S. cert_hellos P a ks ch m share \<and> enc_ext_msg (name_of a \<noteq> []) ee \<and> cert_accepted X a ds ct \<and>
       cv_accepted P X H ds (ch @ enc_sh m @ ee @ ct) cv \<and>
       l_hs s = next_stage ext exp (H WC_SHA256 []) (cert_early ext) (share_secret P ks share) \<and>
       S = traffic_secret exp (l_hs s) ''s hs traffic'' (H WC_SHA256 (ch @ enc_sh m)) \<and>
       tr = ch @ enc_sh m @ ee @ ct @ cv @ finished_msg H exp mac S (ch @ enc_sh m @ ee @ ct @ cv))"

lemma cert_doneI:
  assumes "l_emptyHash s = H WC_SHA256 []" and "cert_hellos P a ks ch m share" and "enc_ext_msg (name_of a \<noteq> []) ee"
    and "cert_accepted X a ds ct" and "cv_accepted P X H ds (ch @ enc_sh m @ ee @ ct) cv"
    and "l_hs s = next_stage ext exp (H WC_SHA256 []) (cert_early ext) (share_secret P ks share)"
    and "S = traffic_secret exp (l_hs s) ''s hs traffic'' (H WC_SHA256 (ch @ enc_sh m))"
  shows "cert_done P X H ext exp mac a s (ch @ enc_sh m @ ee @ ct @ cv @ finished_msg H exp mac S (ch @ enc_sh m @ ee @ ct @ cv))"
  using assms unfolding cert_done_def by blast

lemma cert_done_authentic:
  assumes "cert_done P X H ext exp mac a s tr" and "th = H WC_SHA256 tr"
  shows "cert_authentic P X H ext exp mac a send recv ctx scr
    (app_session ext exp (l_emptyHash s) (l_hs s) th send recv ctx scr (a_scratchLen a))"
  using assms unfolding cert_done_def cert_authentic_def Let_def by fastforce

text \<open>Wiping the flight changes the scratch behind the session, and nothing else of it.\<close>

lemma cert_authentic_scratch:
  assumes "cert_authentic P X H ext exp mac a send recv ctx scr sess"
  shows "cert_authentic P X H ext exp mac a send recv ctx scr' (sess\<lparr>scratch := map_option (\<lambda>_. scr') (scratch sess)\<rparr>)"
proof -
  have "(app_session ext exp eh hs th send recv ctx scr n)\<lparr>scratch := map_option (\<lambda>_. scr') (scratch (app_session ext exp eh hs th send recv ctx scr n))\<rparr> =
      app_session ext exp eh hs th send recv ctx scr' n" for eh hs th n
    by (simp add: app_session_def Let_def)
  then show ?thesis
    using assms unfolding cert_authentic_def Let_def by metis
qed

lemma cert_keys_flight_ends:
  fixes s :: "('o, 'io) cert_locals"
  assumes c: "hs_crypto P H ab ext exp mac" and x: "parse_ok X" "hash_ok P X" and a: "cert_args_ok a" and io: "io_ok send recv avail"
    and ok: "cert_ok P X n s" and ag: "cert_agreed P H ab a s"
  shows "ends (cert_ok P X n) (\<lambda>s'. \<exists>tr. cert_done P X H ext exp mac a s' tr \<and> said P H ab s' tr)
    (cert_keys P s \<bind> ok (cert_flight P X recv a))"
proof -
  obtain ch m share ks where hl: "cert_hellos P a ks ch m share"
    and e: "l_ecdhe s = share_secret P ks share" and sd: "said P H ab s (ch @ enc_sh m)"
    using ag unfolding cert_agreed_def by blast
  have g: "l_emptyHash s = H WC_SHA256 []" "cert_fresh s" "l_ssLen s = WN_DEFAULT_SECRET_SZ P"
    using ag unfolding cert_agreed_def by blast+
  define Hs where "Hs = next_stage ext exp (l_emptyHash s) (cert_early ext) (l_ecdhe s)"
  define S where "S = traffic_secret exp Hs ''s hs traffic'' (H WC_SHA256 (ch @ enc_sh m))"
  obtain s1 where k: "cert_keys P s = Some (0, s1)" and ok1: "cert_ok P X n s1" and fr: "cert_fresh s1"
    and eh: "l_emptyHash s1 = l_emptyHash s" and s1: "l_hs s1 = Hs" "l_sHs s1 = S" and sd1: "said P H ab s1 (ch @ enc_sh m)"
    using cert_keys_eq [OF c ok g(3) sd g(2) Hs_def S_def] by blast
  have "cert_flight_inv P X H ab exp mac a n (ch @ enc_sh m) s1 s1"
    using ok1 fr sd1 by (simp add: cert_flight_inv_def cert_progress_def cert_fresh_def flight_init_def flight_ok_def)
  from cert_flight_ends [OF c x a io this] show ?thesis
    unfolding k ok_eq [OF refl]
  proof (rule ends_mono, goal_cases)
    case (2 s')
    then have pr: "cert_progress P X H ab exp mac a (ch @ enc_sh m) s'" and d: "l_done s'"
      and f: "l_sHs s' = S" "l_hs s' = Hs" "l_emptyHash s' = H WC_SHA256 []"
      using s1 eh g(1) by (simp_all add: cert_flight_inv_def)
    obtain ee ct ds cv where v: "enc_ext_msg (name_of a \<noteq> []) ee" "cert_accepted X a ds ct" "cv_accepted P X H ds (ch @ enc_sh m @ ee @ ct) cv"
      and "said P H ab s' (ch @ enc_sh m @ ee @ ct @ cv @ finished_msg H exp mac S (ch @ enc_sh m @ ee @ ct @ cv))"
      using pr d f(1) unfolding cert_progress_def by auto
    moreover have "cert_done P X H ext exp mac a s' (ch @ enc_sh m @ ee @ ct @ cv @ finished_msg H exp mac S (ch @ enc_sh m @ ee @ ct @ cv))"
      by (rule cert_doneI [OF f(3) hl v]) (use f g(1) e in \<open>simp_all add: Hs_def S_def\<close>)
    ultimately show ?case by blast
  qed
qed

lemma cert_hellos_ends:
  fixes s :: "('o, 'io) cert_locals"
  assumes c: "hs_crypto P H ab ext exp mac" and io: "io_ok send recv avail" and a: "cert_args_ok a" "unat (a_scratchLen a) = n"
    and ok: "cert_ok P X n s" and fr: "cert_fresh s"
  shows "ends (cert_ok P X n) (cert_agreed P H ab a)
    (cert_start P s \<bind> ok (hs_key_share P) \<bind> ok (cert_hello P send a) \<bind> ok (cert_server_hello P recv))"
proof (rule ends_ok [where B = "cert_hello_sent P H ab a"],
    rule ends_ok [where B = "\<lambda>s. l_emptyHash s = H WC_SHA256 [] \<and> cert_fresh s \<and> own_share P (l_ks s) (l_cliPub s) \<and>
      l_pubLen s = WN_DEFAULT_PUB_SZ P \<and> said P H ab s []"],
    rule ends_ok [where B = "\<lambda>s. l_emptyHash s = H WC_SHA256 [] \<and> cert_fresh s"], goal_cases)
  case 1
  show ?case by (rule cert_start_ends [OF c ok fr])
next
  case (2 s)
  from key_share_ends [OF c cert_ok_hs [OF 2(1)]] show ?case
  proof (rule ends_mono, goal_cases)
    case (1 s')
    then show ?case using keeps_cert_ok 2(1) by blast
  next
    case (2 s')
    then have "cert_fresh s'" using keeps_cert_fresh [of P n s s'] \<open>l_emptyHash s = H WC_SHA256 [] \<and> cert_fresh s\<close> by simp
    with 2 show ?case using \<open>l_emptyHash s = H WC_SHA256 [] \<and> cert_fresh s\<close> by simp
  qed
next
  case (3 s)
  then show ?case using cert_hello_ends [OF c 3(1) _ _ a] by blast
next
  case (4 s)
  then show ?case using cert_server_hello_ends [OF c io] by blast
qed

lemma cert_run_result:
  fixes s :: "('o, 'io) cert_locals"
  assumes c: "hs_crypto P H ab ext exp mac" and x: "parse_ok X" "hash_ok P X" and io: "io_ok send recv avail"
    and a: "cert_args_ok a" "unat (a_scratchLen a) = n" and ok: "cert_ok P X n s" and fr: "cert_fresh s"
  shows "\<exists>ret s'. cert_run P X send recv ctx a s = Some (ret, s') \<and> ret \<le> 0 \<and> cert_ok P X n (s'\<lparr>l_sess := zero_session\<rparr>) \<and>
    (if ret = 0 then cert_authentic P X H ext exp mac a send recv ctx (l_scratch s') (l_sess s') else l_sess s' = zero_session)"
proof -
  let ?R = "cert_start P s \<bind> ok (hs_key_share P) \<bind> ok (cert_hello P send a) \<bind> ok (cert_server_hello P recv) \<bind>
     ok (cert_keys P) \<bind> ok (cert_flight P X recv a) \<bind> ok (cert_client_finished P send)"
  have "ends (cert_ok P X n) (\<lambda>s. \<exists>tr. cert_done P X H ext exp mac a s tr \<and> l_th s = H WC_SHA256 tr) ?R"
  proof (rule ends_ok [where B = "\<lambda>s. \<exists>tr. cert_done P X H ext exp mac a s tr \<and> said P H ab s tr"])
    show "ends (cert_ok P X n) (\<lambda>s. \<exists>tr. cert_done P X H ext exp mac a s tr \<and> said P H ab s tr)
     (cert_start P s \<bind> ok (hs_key_share P) \<bind> ok (cert_hello P send a) \<bind> ok (cert_server_hello P recv) \<bind>
      ok (cert_keys P) \<bind> ok (cert_flight P X recv a))"
      unfolding ok_assoc [of _ "cert_keys P"]
      by (rule ends_ok [OF cert_hellos_ends [OF c io a ok fr] cert_keys_flight_ends [OF c x a(1) io]])
  next
    fix s1 :: "('o, 'io) cert_locals"
    assume ok1: "cert_ok P X n s1" and "\<exists>tr. cert_done P X H ext exp mac a s1 tr \<and> said P H ab s1 tr"
    then obtain tr where d: "cert_done P X H ext exp mac a s1 tr" and sd: "said P H ab s1 tr" by blast
    from cert_client_finished_ends [OF c ok1 sd, of send]
    show "ends (cert_ok P X n) (\<lambda>s. \<exists>tr. cert_done P X H ext exp mac a s tr \<and> l_th s = H WC_SHA256 tr) (cert_client_finished P send s1)"
    proof (rule ends_mono, goal_cases)
      case (2 s')
      then have "cert_done P X H ext exp mac a s' tr" using d unfolding cert_done_def by simp
      with 2 show ?case by blast
    qed
  qed
  then obtain ret s1 where e: "?R = Some (ret, s1)" and r: "ret \<le> 0" "cert_ok P X n s1"
    "ret = 0 \<longrightarrow> (\<exists>tr. cert_done P X H ext exp mac a s1 tr \<and> l_th s1 = H WC_SHA256 tr)"
    unfolding ends_def by (rule runs2E) blast
  have run: "cert_run P X send recv ctx a s = ok (hs_establish P send recv ctx (a_scratchLen a)) (ret, s1)"
    unfolding cert_run_def e by simp
  show ?thesis
  proof (cases "ret = 0")
    case True
    then obtain tr where d: "cert_done P X H ext exp mac a s1 tr" "l_th s1 = H WC_SHA256 tr" using r(3) by blast
    have z: "cert_ok P X n (s1\<lparr>l_sess := y, l_sess := zero_session\<rparr>)" for y using r(2) by (simp add: cert_ok_def hs_ok_def)
    show ?thesis
      using cert_done_authentic [OF d] z True
      unfolding run by (simp add: Wn_Handshake.ok_def establish_eq [OF c cert_ok_hs [OF r(2)]])
  next
    case False
    have "l_sess s1 = zero_session" "cert_ok P X n (s1\<lparr>l_sess := zero_session\<rparr>)"
      using r(2) by (simp_all add: cert_ok_def hs_ok_def)
    then show ?thesis unfolding run using False r(1) by (simp add: Wn_Handshake.ok_def)
  qed
qed

lemma cert_init_ok:
  assumes "WN_CERT_SCRATCH_MIN P X \<le> a_scratchLen a" and "unat (a_scratchLen a) \<le> length scr"
  shows "cert_ok P X (unat (a_scratchLen a)) (cert_init P X g io scr a)" and "cert_fresh (cert_init P X g io scr a)"
proof -
  let ?A = "WN_HS_ACC_SZ P X" and ?K = "WN_LEAF_SPKI_SZ P X" and ?I = "WN_CERT_IO_MIN P X"
  have i: "unat ?I \<in> {4096, 8192}" by (simp add: WN_CERT_IO_MIN_def)
  have ak: "unat (?A + ?K) = unat ?A + unat ?K" and "unat (?I + ?A + ?K) = unat ?I + (unat ?A + unat ?K)"
    using region_sizes [of P X] i by (auto simp: unat_add_no_wrap)
  then have le: "unat ?I + (unat ?A + unat ?K) \<le> unat (a_scratchLen a)"
    using assms(1) by (simp add: WN_CERT_SCRATCH_MIN_def word_le_nat_alt)
  then have "unat (a_scratchLen a - (?A + ?K)) = unat (a_scratchLen a) - (unat ?A + unat ?K)"
    using ak by (simp add: unat_sub_no_wrap word_le_nat_alt)
  then show "cert_ok P X (unat (a_scratchLen a)) (cert_init P X g io scr a)"
    using assms(2) le i by (auto simp: cert_ok_def hs_ok_def cert_init_def init_locals_def hs_locals.defs ks_tracked_init)
  show "cert_fresh (cert_init P X g io scr a)"
    by (simp add: cert_fresh_def cert_init_def init_locals_def hs_locals.defs ks_tracked_init)
qed

lemma cert_driver_result:
  fixes io :: 'io and P :: "'o wc"
  assumes c: "hs_crypto P H ab ext exp mac" and x: "parse_ok X" "hash_ok P X" and io: "io_ok send recv avail"
    and a: "cert_args_ok a" and scr: "WN_CERT_SCRATCH_MIN P X \<le> a_scratchLen a" "unat (a_scratchLen a) \<le> length scr"
  shows "\<exists>ret s. cert_driver P X g send recv ctx io a scr = Some (ret, s) \<and> ret \<le> 0 \<and> cert_wiped P s \<and>
    unat (a_scratchLen a) \<le> length (l_scratch s) \<and>
    (if ret = 0 then cert_authentic P X H ext exp mac a send recv ctx (l_scratch s) (l_sess s) else l_sess s = zero_session)"
proof -
  let ?n = "unat (a_scratchLen a)"
  from cert_run_result [OF c x io a refl cert_init_ok [OF scr], of ctx g io] obtain ret s1
    where e: "cert_run P X send recv ctx a (cert_init P X g io scr a) = Some (ret, s1)" and r: "ret \<le> 0"
      and ok1: "cert_ok P X ?n (s1\<lparr>l_sess := zero_session\<rparr>)"
      and au: "if ret = 0 then cert_authentic P X H ext exp mac a send recv ctx (l_scratch s1) (l_sess s1) else l_sess s1 = zero_session" by blast
  obtain io' where al: "cert_alert P send ret s1 = Some (s1\<lparr>l_io := io'\<rparr>)"
    using cert_alert_runs [OF hs_cryptoD(5) [OF c] ok1] by blast
  have "cert_ok P X ?n (s1\<lparr>l_io := io', l_sess := zero_session\<rparr>)" using ok1 by (simp add: cert_ok_def hs_ok_def)
  then obtain s where w: "cert_wipe P (s1\<lparr>l_io := io'\<rparr>) = Some s" and s: "cert_wiped P s" "?n \<le> length (l_scratch s)"
    and ss: "l_sess s = (l_sess s1)\<lparr>scratch := map_option (\<lambda>_. l_scratch s) (scratch (l_sess s1))\<rparr>"
    using cert_wipe_runs [of P X ?n "s1\<lparr>l_io := io'\<rparr>"] by (auto simp: runs_def)
  have "if ret = 0 then cert_authentic P X H ext exp mac a send recv ctx (l_scratch s) (l_sess s) else l_sess s = zero_session"
  proof (cases "ret = 0")
    case True
    then show ?thesis using cert_authentic_scratch au unfolding ss by simp
  next
    case False
    then show ?thesis using au by (simp add: ss zero_session_def)
  qed
  then show ?thesis
    unfolding cert_driver_def e using r al w s by simp
qed

lemma cert_impl_eq:
  assumes "WN_CERT_SCRATCH_MIN P X \<le> a_scratchLen a"
  shows "wn_connect_cert_impl P X (Some s0) (Some g) (Some send) (Some recv) ctx io (Some (a_anchor a)) (a_anchorLen a) (Some scr)
      (a_scratchLen a) (a_serverName a) (a_pinnedKey a) (a_pinnedKeyLen a) =
    cert_driver P X g send recv ctx io a scr \<bind> (\<lambda>(ret, s).
      Some (ret, Some (l_sess s), Some (l_rng s), l_io s, l_scratch s))"
proof -
  have e: "\<lparr>a_anchor = a_anchor a, a_anchorLen = a_anchorLen a, a_serverName = a_serverName a, a_pinnedKey = a_pinnedKey a,
      a_pinnedKeyLen = a_pinnedKeyLen a, a_scratchLen = a_scratchLen a\<rparr> = a"
    by (cases a) simp
  have "\<not> a_scratchLen a < WN_CERT_SCRATCH_MIN P X" using assms by simp
  then show ?thesis unfolding wn_connect_cert_impl_def prod.case option.case e by simp
qed

section \<open>Properties\<close>

text \<open>
  C37. What the server learns of a failed certificate handshake. In a build with alerts, once the
  handshake keys are there, the client sends one record of 24 bytes; a server that opens it with the
  client's handshake key, at the sequence number the client has reached, reads a fatal alert with the
  description of RFC 8446 for the error: 10 for an unexpected message, 50 for a message that does not
  decode, 20 for a failed authentication, 47 for an illegal parameter, 42 for a certificate, and 80 for
  every other error. Otherwise nothing is sent. The sending changes nothing else.
\<close>

theorem alert_of_error:
  fixes s :: "('o, 'io) cert_locals"
  assumes "gcm_ok P" and "length (l_cKey s) = 16" and "length (l_cIv s) = 12"
  shows "\<exists>io'. cert_alert P send ret s = Some (s\<lparr>l_io := io'\<rparr>) \<and>
    (if WOLFNANO_SEND_ALERTS P \<and> ret < 0 \<and> c_keysReady s
     then \<exists>rec. length rec = 24 \<and> io' = snd (send (l_io s) rec) \<and>
       unprotect P (l_cKey s) (l_cIv s) (c_cHsSeq s) rec = Some (WN_REC_ALERT, [2, alert_code (alert_for ret)])
     else io' = l_io s)"
proof (cases "WOLFNANO_SEND_ALERTS P \<and> ret < 0 \<and> c_keysReady s")
  case True
  have "channel_ready P (l_cKey s) (l_cIv s)"
    using assms by (simp add: channel_ready_def)
  from SendAlert_sends [OF this, of send "l_io s" "c_cHsSeq s" ret] obtain rec
    where "length rec = 24" "wn_SendAlert P send (l_io s) (l_cKey s) (l_cIv s) (c_cHsSeq s) ret = Some (snd (send (l_io s) rec))"
      "unprotect P (l_cKey s) (l_cIv s) (c_cHsSeq s) rec = Some (WN_REC_ALERT, [2, alert_code (alert_for ret)])" by blast
  with True show ?thesis
    unfolding cert_alert_def if_P [OF True] by auto
next
  case False
  have "cert_alert P send ret s = Some (s\<lparr>l_io := l_io s\<rparr>)"
    unfolding cert_alert_def if_not_P [OF False] by simp
  with False show ?thesis
    by auto
qed

theorem alert_of_error_witness:
  "\<exists>(s :: (bytes, bytes) cert_locals) rec. c_keysReady s \<and> c_cHsSeq s = 1 \<and>
    cert_alert (demo_wc\<lparr>WOLFNANO_SEND_ALERTS := True\<rparr>) (\<lambda>io d. (0, d)) (- 6) s = Some (s\<lparr>l_io := rec\<rparr>) \<and>
    unprotect (demo_wc\<lparr>WOLFNANO_SEND_ALERTS := True\<rparr>) (l_cKey s) (l_cIv s) 1 rec = Some (21, [2, 50])"
proof -
  let ?P = "demo_wc\<lparr>WOLFNANO_SEND_ALERTS := True\<rparr>"
  let ?a = "\<lparr>a_anchor = [], a_anchorLen = 0, a_serverName = None, a_pinnedKey = None, a_pinnedKeyLen = 0, a_scratchLen = 0\<rparr>"
  let ?s = "(cert_init ?P demo_wcx [7] [] [] ?a)\<lparr>c_keysReady := True, c_cHsSeq := 1\<rparr>"
  have g: "gcm_ok ?P"
    by (simp add: gcm_ok_def gcm_sizes_def gcm_key_def demo_wc_def)
  have k: "length (l_cKey ?s) = 16" "length (l_cIv ?s) = 12"
    by (simp_all add: cert_init_def init_locals_def hs_locals.defs)
  show ?thesis
    using alert_of_error [OF g k, of "\<lambda>io d. (0, d)" "- 6"]
    by (intro exI [of _ ?s]) (auto simp: alert_for_def alert_table_def)
qed

text \<open>
  C30. The certificate handshake always returns, whatever the transport delivers and however the
  calls to the key agreement, AES-GCM, the X.509 parser and the signature checks end: with 0 or a
  negative code, without an access outside a buffer or its region of the scratch, with every
  secret among its local variables and the decrypted flight overwritten by zeros, and with every
  private key that was made for the key share freed. The session is then either established and
  usable by \<open>wn_Send\<close> and \<open>wn_Recv\<close>, or all zero.
\<close>

theorem cert_connect_returns:
  fixes P :: "'o wc" and io :: 'io
  assumes "hs_crypto P H ab ext exp mac" and "parse_ok X" and "hash_ok P X" and "io_ok send recv avail"
    and "cert_args_ok a" and "WN_CERT_SCRATCH_MIN P X \<le> a_scratchLen a" and "unat (a_scratchLen a) \<le> length scr"
  shows "\<exists>ret s. cert_driver P X g send recv ctx io a scr = Some (ret, s) \<and> ret \<le> 0 \<and> cert_wiped P s \<and>
    wn_connect_cert_impl P X (Some s0) (Some g) (Some send) (Some recv) ctx io (Some (a_anchor a)) (a_anchorLen a) (Some scr)
      (a_scratchLen a) (a_serverName a) (a_pinnedKey a) (a_pinnedKeyLen a) =
      Some (ret, Some (l_sess s), Some (l_rng s), l_io s, l_scratch s) \<and>
    (if ret = 0 then sess_ok send recv (l_sess s) \<and> flags (l_sess s) = WN_SESS_ESTABLISHED \<and> cSeq (l_sess s) = 0 \<and> sSeq (l_sess s) = 0
     else l_sess s = zero_session)"
proof -
  from cert_driver_result [OF assms, of g ctx io] obtain ret s
    where d: "cert_driver P X g send recv ctx io a scr = Some (ret, s)" "ret \<le> 0" "cert_wiped P s"
      "unat (a_scratchLen a) \<le> length (l_scratch s)"
      and au: "if ret = 0 then cert_authentic P X H ext exp mac a send recv ctx (l_scratch s) (l_sess s) else l_sess s = zero_session" by blast
  have big: "22 \<le> unat (a_scratchLen a)"
    using cert_init_ok(1) [OF assms(6,7), of g io] by (simp add: cert_ok_def)
  have "sess_ok send recv (l_sess s) \<and> flags (l_sess s) = WN_SESS_ESTABLISHED \<and> cSeq (l_sess s) = 0 \<and> sSeq (l_sess s) = 0"
    if "cert_authentic P X H ext exp mac a send recv ctx (l_scratch s) (l_sess s)"
  proof -
    from that obtain eh hs th where "l_sess s = app_session ext exp eh hs th send recv ctx (l_scratch s) (a_scratchLen a)"
      unfolding cert_authentic_def Let_def by blast
    then show ?thesis
      using app_session_ok [OF hs_cryptoD(3) [OF assms(1)] big d(4)] by (simp add: app_session_def Let_def)
  qed
  with d au show ?thesis
    by (simp add: cert_impl_eq [OF assms(6)])
qed

lemma demo_cert_sizes: "WN_CERT_SCRATCH_MIN demo_wc demo_wcx = 11264"
  by (simp add: WN_CERT_SCRATCH_MIN_def WN_CERT_IO_MIN_def WN_HS_ACC_SZ_def WN_LEAF_SPKI_SZ_def demo_wc_def)

theorem cert_connect_returns_witness:
  "\<exists>ret s. wn_connect_cert_impl demo_wc demo_wcx (Some zero_session) (Some [7]) (Some demo_send) (Some demo_recv) 0 [22, 3, 3]
      (Some [1, 2, 3]) 3 (Some (replicate 11264 0)) 11264 (Some (ascii ''a.b'')) None 0 =
      Some (ret, Some (l_sess s), Some (l_rng s), l_io s, l_scratch s) \<and> cert_wiped demo_wc s"
proof -
  let ?a = "\<lparr>a_anchor = [1, 2, 3], a_anchorLen = 3, a_serverName = Some (ascii ''a.b''), a_pinnedKey = None, a_pinnedKeyLen = 0,
    a_scratchLen = 11264\<rparr>"
  have "cert_args_ok ?a" and "WN_CERT_SCRATCH_MIN demo_wc demo_wcx \<le> a_scratchLen ?a"
    and "unat (a_scratchLen ?a) \<le> length (replicate 11264 (0 :: byte))"
    by (simp_all add: cert_args_ok_def demo_cert_sizes)
  from cert_connect_returns [OF demo_hs_crypto demo_parse_ok demo_hash_ok demo_io_ok this, of "[7]" 0 "[22, 3, 3]" zero_session]
  show ?thesis
    unfolding cert_args.select_convs by blast
qed

text \<open>
  C29. A certificate handshake ends in one of two ways. Either it fails and hands out a session of
  zeros. Or the peer has proved its identity: it sent a Certificate whose chain leads link by link
  to the pinned anchor, whose leaf is valid for the given name and key pin, and a CertificateVerify
  that verifies under the leaf's key over the transcript up to the Certificate; its Finished is the
  MAC under the handshake traffic secret over the transcript up to the CertificateVerify; and the
  session keys are those of the key schedule over exactly these messages. A call that gives
  neither a name nor a pin is refused, and touches nothing.
\<close>

theorem cert_connect_authentic:
  fixes P :: "'o wc" and io :: 'io
  assumes "hs_crypto P H ab ext exp mac" and "parse_ok X" and "hash_ok P X" and "io_ok send recv avail"
    and "cert_args_ok a" and "WN_CERT_SCRATCH_MIN P X \<le> a_scratchLen a" and "unat (a_scratchLen a) \<le> length scr"
  shows "\<exists>ret s g' io' b. wn_Connect_CertName_ex P X (Some s0) (Some g) (Some send) (Some recv) ctx io (Some (a_anchor a))
      (a_anchorLen a) (a_serverName a) (a_pinnedKey a) (a_pinnedKeyLen a) (Some scr) (a_scratchLen a) =
      Some (ret, Some s, Some g', io', b) \<and>
    (if a_serverName a = None \<and> a_pinnedKey a = None
     then ret = WOLFNANO_E_INVALID_ARG \<and> s = s0 \<and> g' = g \<and> io' = io \<and> b = scr
     else ret < 0 \<and> s = zero_session \<or> ret = 0 \<and> cert_authentic P X H ext exp mac a send recv ctx b s)"
proof (cases "a_serverName a = None \<and> a_pinnedKey a = None")
  case True
  then show ?thesis by (simp add: wn_Connect_CertName_ex_def)
next
  case False
  from cert_driver_result [OF assms, of g ctx io] obtain ret s
    where d: "cert_driver P X g send recv ctx io a scr = Some (ret, s)" "ret \<le> 0"
      and au: "if ret = 0 then cert_authentic P X H ext exp mac a send recv ctx (l_scratch s) (l_sess s) else l_sess s = zero_session" by blast
  have "wn_Connect_CertName_ex P X (Some s0) (Some g) (Some send) (Some recv) ctx io (Some (a_anchor a))
      (a_anchorLen a) (a_serverName a) (a_pinnedKey a) (a_pinnedKeyLen a) (Some scr) (a_scratchLen a) =
      Some (ret, Some (l_sess s), Some (l_rng s), l_io s, l_scratch s)"
    unfolding wn_Connect_CertName_ex_def if_not_P [OF False] cert_impl_eq [OF assms(6)] d(1) by simp
  moreover have "ret < 0 \<and> l_sess s = zero_session \<or> ret = 0 \<and> cert_authentic P X H ext exp mac a send recv ctx (l_scratch s) (l_sess s)"
    using au d(2) by (auto split: if_splits)
  ultimately show ?thesis
    unfolding if_not_P [OF False] by blast
qed

theorem cert_connect_authentic_witness:
  "\<exists>ret s g' io' b. wn_Connect_CertName_ex demo_wc demo_wcx (Some zero_session) (Some [7]) (Some demo_send) (Some demo_recv) 0 [22, 3, 3]
      (Some [1, 2, 3]) 3 (Some (ascii ''a.b'')) None 0 (Some (replicate 11264 0)) 11264 = Some (ret, Some s, Some g', io', b) \<and>
    (ret < 0 \<and> s = zero_session \<or> flags s = WN_SESS_ESTABLISHED)"
proof -
  let ?a = "\<lparr>a_anchor = [1, 2, 3], a_anchorLen = 3, a_serverName = Some (ascii ''a.b''), a_pinnedKey = None, a_pinnedKeyLen = 0,
    a_scratchLen = 11264\<rparr>"
  have "cert_args_ok ?a" and "WN_CERT_SCRATCH_MIN demo_wc demo_wcx \<le> a_scratchLen ?a"
    and "unat (a_scratchLen ?a) \<le> length (replicate 11264 (0 :: byte))"
    by (simp_all add: cert_args_ok_def demo_cert_sizes)
  note w = cert_connect_authentic [OF demo_hs_crypto demo_parse_ok demo_hash_ok demo_io_ok this, of zero_session "[7]" 0 "[22, 3, 3]",
      unfolded cert_args.select_convs]
  have "flags (app_session ext exp eh hs th send recv ctx b cap) = WN_SESS_ESTABLISHED"
    for ext :: hkdf_extract and exp eh hs th b cap ctx and send :: "bytes wn_IoSend" and recv
    by (simp add: app_session_def Let_def)
  with w show ?thesis
    unfolding cert_authentic_def Let_def by fastforce
qed

end
