(* ===== verification/Wn_Lifecycle.thy ===== *)
theory Wn_Lifecycle
  imports Wn_PskSpec Wn_CertSpec
begin

text \<open>
  The life of a \<open>wn_Session\<close>: the calls of the public interface (\<open>src/src/wn_connect.h\<close>, \<open>src/src/wn_session.h\<close>) in any
  order on one struct. A call keeps the struct in one of three phases, or moves it to another
  of them, and in every phase every call with honest lengths returns.
\<close>

section \<open>The calls\<close>

text \<open>
  The arguments that are not fixed for the application: its callbacks, \<open>send\<close> and \<open>recv\<close>, and the
  struct itself are. A connect takes the random generator, the callback context and the scratch
  buffer.
\<close>

datatype 'o call =
    Send "bytes option" word32
  | Recv "bytes option" word32 "word32 option"
  | Close
  | Connect_Psk "'o option" nat "bytes option" word32 "bytes option" "bytes option" word32
  | Connect_Cert "'o option" nat "bytes option" word32 "bytes option" word32
  | Connect_CertName "'o option" nat "bytes option" word32 "bytes option" "bytes option" word32 "bytes option" word32

text \<open>What a call does to the struct and the transport.\<close>

definition session_left :: "(int \<times> 'io wn_Session option \<times> 'io) option \<Rightarrow> (int \<times> 'io wn_Session \<times> 'io) option" where
  "session_left m = m \<bind> (\<lambda>(ret, sp, io). sp \<bind> (\<lambda>s. Some (ret, s, io)))"

fun api ::
    "'o wc \<Rightarrow> 'o wcx \<Rightarrow> 'io wn_IoSend \<Rightarrow> 'io wn_IoRecv \<Rightarrow> 'o call \<Rightarrow> 'io wn_Session \<Rightarrow> 'io \<Rightarrow>
     (int \<times> 'io wn_Session \<times> 'io) option" where
  "api P X send recv (Send d n) s io = session_left (wn_Send P (Some s) io d n)"
| "api P X send recv (Recv out cap ol) s io =
     session_left (wn_Recv P (Some s) io out cap ol \<bind> (\<lambda>(ret, sp, io, _, _). Some (ret, sp, io)))"
| "api P X send recv Close s io = session_left (wn_Close P (Some s) io)"
| "api P X send recv (Connect_Psk g ctx psk pskLen identity scr cap) s io =
     session_left (wn_Connect_Psk_ex P (Some s) g (Some send) (Some recv) ctx io psk pskLen identity scr cap \<bind>
       (\<lambda>(ret, sp, _, io, _). Some (ret, sp, io)))"
| "api P X send recv (Connect_Cert g ctx anchor anchorLen scr cap) s io =
     session_left (wn_Connect_Cert_ex P X (Some s) g (Some send) (Some recv) ctx io anchor anchorLen scr cap \<bind>
       (\<lambda>(ret, sp, _, io, _). Some (ret, sp, io)))"
| "api P X send recv (Connect_CertName g ctx anchor anchorLen name pin pinLen scr cap) s io =
     session_left (wn_Connect_CertName_ex P X (Some s) g (Some send) (Some recv) ctx io anchor anchorLen name pin pinLen
       scr cap \<bind> (\<lambda>(ret, sp, _, io, _). Some (ret, sp, io)))"

text \<open>Honest lengths: every buffer is as long as the call says. Pointers may be NULL.\<close>

definition holds_len :: "bytes option \<Rightarrow> word32 \<Rightarrow> bool" where
  "holds_len b n \<longleftrightarrow> (\<forall>d. b = Some d \<longrightarrow> unat n \<le> length d)"

fun honest :: "'o call \<Rightarrow> bool" where
  "honest (Send d n) \<longleftrightarrow> holds_len d n"
| "honest (Recv out cap ol) \<longleftrightarrow> holds_len out cap"
| "honest Close \<longleftrightarrow> True"
| "honest (Connect_Psk g ctx psk pskLen identity scr cap) \<longleftrightarrow>
     holds_len psk pskLen \<and> holds_len scr cap \<and> unat cap + 65536 < 2 ^ 32"
| "honest (Connect_Cert g ctx anchor anchorLen scr cap) \<longleftrightarrow>
     holds_len anchor anchorLen \<and> holds_len scr cap \<and> unat cap + 65536 < 2 ^ 32"
| "honest (Connect_CertName g ctx anchor anchorLen name pin pinLen scr cap) \<longleftrightarrow>
     holds_len anchor anchorLen \<and> holds_len pin pinLen \<and> holds_len scr cap \<and> unat cap + 65536 < 2 ^ 32 \<and>
     (\<forall>h. name = Some h \<longrightarrow> length h < 2 ^ 31)"

text \<open>The connects that are refused before the struct is touched.\<close>

fun refused :: "'o wc \<Rightarrow> 'o wcx \<Rightarrow> 'o call \<Rightarrow> bool" where
  "refused P X (Connect_Psk g ctx psk pskLen identity scr cap) \<longleftrightarrow>
     g = None \<or> psk = None \<or> identity = None \<or> scr = None \<or> pskLen = 0 \<or> cap < 2048 \<or> 65535 < length (buf identity)"
| "refused P X (Connect_Cert g ctx anchor anchorLen scr cap) \<longleftrightarrow>
     g = None \<or> anchor = None \<or> scr = None \<or> cap < WN_CERT_SCRATCH_MIN P X"
| "refused P X (Connect_CertName g ctx anchor anchorLen name pin pinLen scr cap) \<longleftrightarrow>
     g = None \<or> anchor = None \<or> scr = None \<or> cap < WN_CERT_SCRATCH_MIN P X \<or> name = None \<and> pin = None"
| "refused P X _ \<longleftrightarrow> False"

section \<open>The phases\<close>

datatype phase = Wiped | Established | Closed

definition in_phase :: "'io wn_IoSend \<Rightarrow> 'io wn_IoRecv \<Rightarrow> phase \<Rightarrow> 'io wn_Session \<Rightarrow> bool" where
  "in_phase send recv ph s \<longleftrightarrow> (case ph of
     Wiped \<Rightarrow> s = zero_session
   | Established \<Rightarrow> sess_ok send recv s \<and> flags s = WN_SESS_ESTABLISHED
   | Closed \<Rightarrow> sess_ok send recv s \<and> flags s = WN_SESS_ESTABLISHED OR WN_SESS_CLOSED)"

fun next_phase :: "'o wc \<Rightarrow> 'o wcx \<Rightarrow> 'o call \<Rightarrow> int \<Rightarrow> phase \<Rightarrow> phase" where
  "next_phase P X (Send d n) ret ph = ph"
| "next_phase P X (Recv out cap ol) ret ph = (if ret = WOLFNANO_E_CLOSED then Closed else ph)"
| "next_phase P X Close ret ph = Wiped"
| "next_phase P X c ret ph = (if refused P X c then ph else if ret = WOLFNANO_SUCCESS then Established else Wiped)"

text \<open>What the transport sees outside of the established phase: nothing, and these codes.\<close>

fun shut_code :: "phase \<Rightarrow> 'o call \<Rightarrow> int option" where
  "shut_code ph (Send d n) = (if d = None then Some WOLFNANO_E_INVALID_ARG else
     case ph of Wiped \<Rightarrow> Some WOLFNANO_E_BAD_STATE | Established \<Rightarrow> None | Closed \<Rightarrow> Some WOLFNANO_E_CLOSED)"
| "shut_code ph (Recv out cap ol) = (if out = None \<or> ol = None then Some WOLFNANO_E_INVALID_ARG else
     case ph of Wiped \<Rightarrow> Some WOLFNANO_E_BAD_STATE | Established \<Rightarrow> None | Closed \<Rightarrow> Some WOLFNANO_E_CLOSED)"
| "shut_code ph Close = (if ph = Established then None else Some WOLFNANO_SUCCESS)"
| "shut_code ph _ = None"

definition call_typed ::
    "'o wc \<Rightarrow> 'o wcx \<Rightarrow> 'io wn_IoSend \<Rightarrow> 'io wn_IoRecv \<Rightarrow> phase \<Rightarrow> 'o call \<Rightarrow> 'io \<Rightarrow> (int \<times> 'io wn_Session \<times> 'io) option \<Rightarrow> bool" where
  "call_typed P X send recv ph c io m \<longleftrightarrow> (\<exists>ret s' io'. m = Some (ret, s', io') \<and> ret \<le> 0 \<and>
     in_phase send recv (next_phase P X c ret ph) s' \<and> (\<forall>r. shut_code ph c = Some r \<longrightarrow> ret = r \<and> io' = io) \<and>
     (refused P X c \<longrightarrow> ret = WOLFNANO_E_INVALID_ARG \<and> io' = io))"

section \<open>Each call is typed\<close>

lemma flag_bits: "(1 :: int) AND 2 = 0" "(3 :: int) AND 2 \<noteq> 0" "(1 :: int) OR 2 = 3"
  by simp_all

lemma send_typed:
  assumes "gcm_sizes P" and ph: "in_phase send recv ph s" and "holds_len d n"
  shows "call_typed P X send recv ph (Send d n) io (api P X send recv (Send d n) s io)"
proof (cases "d = None \<or> ph \<noteq> Established")
  case True
  then show ?thesis
    using ph by (cases ph) (auto simp: call_typed_def session_left_def wn_Send_def in_phase_def zero_session_def flag_bits split: option.splits)
next
  case False
  then obtain x where d: "d = Some x" and l: "unat n \<le> length x" using assms(3) by (auto simp: holds_len_def)
  have e: "ph = Established" and ok: "sess_ok send recv s" and fl: "flags s = 1" using False ph by (simp_all add: in_phase_def)
  obtain b where b: "scratch s = Some b" "unat (scratchLen s) \<le> length b" "22 \<le> unat (scratchLen s)"
    using ok by (rule sess_ok_scratch)
  have k: "length (cKey s) = 16" "length (cIv s) = 12" "ioSend s = Some send" using ok by (simp_all add: sess_ok_def)
  show ?thesis
  proof (cases "n > WN_MAX_PLAINTEXT \<or> scratchLen s < 22 \<or> n > scratchLen s - 22")
    case True
    then show ?thesis
      using ok fl by (simp add: d e call_typed_def session_left_def wn_Send_def in_phase_def Let_def)
  next
    case False
    then have n: "n \<le> WN_MAX_PLAINTEXT" "22 \<le> scratchLen s" "n \<le> scratchLen s - 22" by (simp_all add: not_less)
    have "unat n + 22 \<le> length b" using n(2,3) b(2,3) by (simp add: word_le_nat_alt unat_sub_no_wrap)
    from Protect_runs [OF assms(1) k(1,2) l n(1) this, of 0 "cSeq s" WN_REC_APPDATA] obtain ret rec rl
      where e1: "wn_Record_Protect P (Some b) (Some 0) (Some (cKey s)) 16 (Some (cIv s)) (cSeq s) WN_REC_APPDATA (Some x) n = Some (ret, rec, rl)"
        and r: "length rec = length b" "ret \<in> {0, WOLFNANO_E_CRYPTO}" "ret = 0 \<longrightarrow> rl = Some (n + 22)" by (rule runs3E) blast
    have m: "unat (n + 22) \<le> length rec" using record_len(1) [OF n(1)] \<open>unat n + 22 \<le> length b\<close> r(1) by simp
    have ok': "sess_ok send recv (s\<lparr>scratch := Some rec, cSeq := c\<rparr>)" "sess_ok send recv (s\<lparr>scratch := Some rec\<rparr>)" for c
      using ok b r(1) by (simp_all add: sess_ok_def)
    obtain x1 io1 where io: "send io (take (unat (n + 22)) rec) = (x1, io1)" by (metis prod.exhaust)
    show ?thesis
      using r m False ok' fl io k(3)
      by (auto simp: d e e1 b(1) call_typed_def session_left_def wn_Send_def in_phase_def Let_def mem_read_in)
  qed
qed

lemma recv_typed:
  assumes "wc_sizes P" and "gcm_sizes P" and io: "io_ok send recv avail" and ph: "in_phase send recv ph s" and "holds_len out cap"
  shows "call_typed P X send recv ph (Recv out cap ol) io (api P X send recv (Recv out cap ol) s io)"
proof (cases "out = None \<or> ol = None \<or> ph \<noteq> Established")
  case True
  then show ?thesis
    using ph by (cases ph) (auto simp: call_typed_def session_left_def wn_Recv_def in_phase_def zero_session_def flag_bits split: option.splits)
next
  case False
  then obtain x l where o: "out = Some x" "ol = Some l" and len: "unat cap \<le> length x" using assms(5) by (auto simp: holds_len_def)
  have e: "ph = Established" and ok: "sess_ok send recv s" and fl: "flags s = 1" using False ph by (simp_all add: in_phase_def)
  from recv_loop_runs [OF assms(1,2) io ok len, of io 0] obtain ret s' io' out' ol'
    where "recv_loop P 0 False s io x cap 0 = Some (ret, s', io', out', ol')" and "sess_ok send recv s'" and "flags_after ret s s'"
    by (rule runs5E) blast
  then show ?thesis
    using fl by (auto simp: o e call_typed_def session_left_def wn_Recv_def in_phase_def flags_after_def flag_bits)
qed

lemma close_typed:
  assumes "gcm_sizes P" and ph: "in_phase send recv ph s"
  shows "call_typed P X send recv ph Close io (api P X send recv Close s io)"
proof (cases ph)
  case Established
  then have k: "length (cKey s) = 16" "length (cIv s) = 12" "ioSend s = Some send" "flags s = 1"
    using ph by (simp_all add: in_phase_def sess_ok_def)
  have "unat (2 :: word32) \<le> length [1, 0 :: byte]" "(2 :: word32) \<le> WN_MAX_PLAINTEXT" "unat (2 :: word32) + 22 \<le> length (replicate 24 (0 :: byte))"
    by simp_all
  from Protect_runs [OF assms(1) k(1,2) this, of 0 "cSeq s" WN_REC_ALERT] obtain ret rec rl
    where "wn_Record_Protect P (Some (replicate 24 0)) (Some 0) (Some (cKey s)) 16 (Some (cIv s)) (cSeq s) WN_REC_ALERT (Some [1, 0]) 2 =
        Some (ret, rec, rl)" "length rec = 24" "ret \<in> {0, WOLFNANO_E_CRYPTO}" "ret = 0 \<longrightarrow> rl = Some 24" by (rule runs3E) simp
  then show ?thesis
    using k Established by (auto simp: call_typed_def session_left_def wn_Close_def in_phase_def mem_read_in)
qed (use ph in \<open>auto simp: call_typed_def session_left_def wn_Close_def in_phase_def zero_session_def sess_ok_def flag_bits\<close>)

lemma call_typedI:
  assumes "m = Some (ret, s', io')" and "ret \<le> 0" and "in_phase send recv (next_phase P X c ret ph) s'"
    and "shut_code ph c = None" and "\<not> refused P X c"
  shows "call_typed P X send recv ph c io m"
  using assms by (auto simp: call_typed_def)

text \<open>A handshake hands out an established session or a wiped one.\<close>

lemma handed_out:
  assumes "kdf_usable P ext exp WC_SHA256" and "22 \<le> unat cap" and "unat cap \<le> length b"
    and "if ret = 0 then \<exists>eh hs th. s = app_session ext exp eh hs th send recv ctx b cap else s = zero_session"
  shows "in_phase send recv (if ret = 0 then Established else Wiped) s"
proof (cases "ret = 0")
  case True
  then obtain eh hs th where s: "s = app_session ext exp eh hs th send recv ctx b cap" using assms(4) by auto
  show ?thesis
    using True app_session_ok [OF assms(1-3)] by (simp add: s in_phase_def) (simp add: app_session_def Let_def)
qed (use assms(4) in \<open>simp add: in_phase_def\<close>)

lemma connect_psk_typed:
  fixes P :: "'o wc" and io :: 'io
  assumes c: "hs_crypto P H ab ext exp mac" and io: "io_ok send recv avail" and ph: "in_phase send recv ph s"
    and h: "honest (Connect_Psk g ctx psk pskLen identity scr cap)"
  shows "call_typed P X send recv ph (Connect_Psk g ctx psk pskLen identity scr cap) io
    (api P X send recv (Connect_Psk g ctx psk pskLen identity scr cap) s io)"
proof (cases "refused P X (Connect_Psk g ctx psk pskLen identity scr cap)")
  case True
  then show ?thesis
    using ph by (auto simp: call_typed_def session_left_def wn_Connect_Psk_ex_def split: option.splits)
next
  case False
  then obtain g' k i b where a: "g = Some g'" "psk = Some k" "identity = Some i" "scr = Some b" by auto
  have l: "pskLen \<noteq> 0" "2048 \<le> unat cap" "length i \<le> 65535" using False a by (auto simp: not_less word_le_nat_alt)
  have n: "unat pskLen \<le> length k" "unat cap \<le> length b" "unat cap + 65536 < 2 ^ 32" using h a by (simp_all add: holds_len_def)
  have "58 \<le> unat cap" "22 \<le> unat cap" using l(2) by simp_all
  from psk_driver_result [OF c io this(1) n(2,3) l(3,1) n(1), of g' ctx io] obtain ret s1
    where d: "psk_driver P g' send recv ctx io k pskLen i b cap = Some (ret, s1)" "ret \<le> 0" "unat cap \<le> length (l_scratch s1)"
      and au: "if ret = 0 then psk_authentic P H ext exp mac (take (unat pskLen) k) i send recv ctx (l_scratch s1) cap (l_sess s1)
        else l_sess s1 = zero_session" by blast
  have "\<exists>eh hs th. l_sess s1 = app_session ext exp eh hs th send recv ctx (l_scratch s1) cap"
    if "psk_authentic P H ext exp mac (take (unat pskLen) k) i send recv ctx (l_scratch s1) cap (l_sess s1)"
    using that unfolding psk_authentic_def Let_def by blast
  with au have "if ret = 0 then \<exists>eh hs th. l_sess s1 = app_session ext exp eh hs th send recv ctx (l_scratch s1) cap
      else l_sess s1 = zero_session" by (simp split: if_splits)
  from handed_out [OF hs_cryptoD(3) [OF c] \<open>22 \<le> unat cap\<close> d(3) this]
  have "in_phase send recv (if ret = 0 then Established else Wiped) (l_sess s1)" .
  then show ?thesis
    using d(1,2) False by (simp add: call_typed_def session_left_def a psk_connect_eq [OF l])
qed

lemma cert_impl_typed:
  fixes P :: "'o wc" and io :: 'io
  assumes c: "hs_crypto P H ab ext exp mac" and x: "parse_ok X" "hash_ok P X" and io: "io_ok send recv avail"
    and h: "unat aLen \<le> length a" "unat cap \<le> length b" "unat cap + 65536 < 2 ^ 32" "holds_len pin pinLen"
      "\<forall>h. name = Some h \<longrightarrow> length h < 2 ^ 31" and r: "WN_CERT_SCRATCH_MIN P X \<le> cap"
  shows "\<exists>ret s1 g' io' b'. wn_connect_cert_impl P X (Some s) (Some g) (Some send) (Some recv) ctx io (Some a) aLen (Some b) cap name
      pin pinLen = Some (ret, Some s1, g', io', b') \<and> ret \<le> 0 \<and> in_phase send recv (if ret = 0 then Established else Wiped) s1"
proof -
  let ?a = "\<lparr>a_anchor = a, a_anchorLen = aLen, a_serverName = name, a_pinnedKey = pin, a_pinnedKeyLen = pinLen, a_scratchLen = cap\<rparr>"
  have ok: "cert_args_ok ?a" "WN_CERT_SCRATCH_MIN P X \<le> a_scratchLen ?a" "unat (a_scratchLen ?a) \<le> length b"
    using h r by (simp_all add: cert_args_ok_def holds_len_def)
  from cert_driver_result [OF c x io ok, of g ctx io] obtain ret s1
    where d: "cert_driver P X g send recv ctx io ?a b = Some (ret, s1)" "ret \<le> 0" "unat cap \<le> length (l_scratch s1)"
      and au: "if ret = 0 then cert_authentic P X H ext exp mac ?a send recv ctx (l_scratch s1) (l_sess s1) else l_sess s1 = zero_session"
    by auto
  have big: "22 \<le> unat cap"
    using cert_init_ok(1) [OF ok(2,3), of g io] by (simp add: cert_ok_def)
  have "\<exists>eh hs th. l_sess s1 = app_session ext exp eh hs th send recv ctx (l_scratch s1) cap"
    if "cert_authentic P X H ext exp mac ?a send recv ctx (l_scratch s1) (l_sess s1)"
    using that unfolding cert_authentic_def Let_def by simp blast
  with au have "if ret = 0 then \<exists>eh hs th. l_sess s1 = app_session ext exp eh hs th send recv ctx (l_scratch s1) cap
      else l_sess s1 = zero_session" by (simp split: if_splits)
  from handed_out [OF hs_cryptoD(3) [OF c] big d(3) this]
  have "in_phase send recv (if ret = 0 then Established else Wiped) (l_sess s1)" .
  then show ?thesis
    using cert_impl_eq [OF ok(2), of s g send recv ctx io b] d(1,2) by simp
qed

lemma connect_cert_typed:
  fixes P :: "'o wc" and io :: 'io
  assumes "hs_crypto P H ab ext exp mac" and "parse_ok X" and "hash_ok P X" and "io_ok send recv avail" and ph: "in_phase send recv ph s"
    and h: "honest (Connect_Cert g ctx anchor anchorLen scr cap)"
  shows "call_typed P X send recv ph (Connect_Cert g ctx anchor anchorLen scr cap) io
    (api P X send recv (Connect_Cert g ctx anchor anchorLen scr cap) s io)"
proof (cases "refused P X (Connect_Cert g ctx anchor anchorLen scr cap)")
  case True
  then show ?thesis
    using ph by (auto simp: call_typed_def session_left_def wn_Connect_Cert_ex_def wn_connect_cert_impl_def split: option.splits)
next
  case False
  then obtain g' a b where a: "g = Some g'" "anchor = Some a" "scr = Some b" and "WN_CERT_SCRATCH_MIN P X \<le> cap" by (auto simp: not_less)
  then obtain ret s1 g2 io' b' where "wn_connect_cert_impl P X (Some s) g (Some send) (Some recv) ctx io anchor anchorLen scr cap None None 0 =
      Some (ret, Some s1, g2, io', b')" and "ret \<le> 0" and "in_phase send recv (if ret = 0 then Established else Wiped) s1"
    using cert_impl_typed [OF assms(1-4), of anchorLen a cap b None 0 None s g' ctx io] h unfolding a by (auto simp: holds_len_def)
  then show ?thesis
    using False by (intro call_typedI [of _ ret s1 io']) (auto simp: session_left_def wn_Connect_Cert_ex_def)
qed

lemma connect_name_typed:
  fixes P :: "'o wc" and io :: 'io
  assumes "hs_crypto P H ab ext exp mac" and "parse_ok X" and "hash_ok P X" and "io_ok send recv avail" and ph: "in_phase send recv ph s"
    and h: "honest (Connect_CertName g ctx anchor anchorLen name pin pinLen scr cap)"
  shows "call_typed P X send recv ph (Connect_CertName g ctx anchor anchorLen name pin pinLen scr cap) io
    (api P X send recv (Connect_CertName g ctx anchor anchorLen name pin pinLen scr cap) s io)"
proof (cases "refused P X (Connect_CertName g ctx anchor anchorLen name pin pinLen scr cap)")
  case True
  then show ?thesis
    using ph by (auto simp: call_typed_def session_left_def wn_Connect_CertName_ex_def wn_connect_cert_impl_def split: option.splits)
next
  case False
  then obtain g' a b where a: "g = Some g'" "anchor = Some a" "scr = Some b" and "WN_CERT_SCRATCH_MIN P X \<le> cap"
    and nm: "\<not> (name = None \<and> pin = None)" by (auto simp: not_less)
  then obtain ret s1 g2 io' b' where "wn_connect_cert_impl P X (Some s) g (Some send) (Some recv) ctx io anchor anchorLen scr cap name pin pinLen =
      Some (ret, Some s1, g2, io', b')" and "ret \<le> 0" and "in_phase send recv (if ret = 0 then Established else Wiped) s1"
    using cert_impl_typed [OF assms(1-4), of anchorLen a cap b pin pinLen name s g' ctx io] h unfolding a by (auto simp: holds_len_def)
  then show ?thesis
    using False unfolding api.simps wn_Connect_CertName_ex_def if_not_P [OF nm]
    by (intro call_typedI [of _ ret s1 io']) (auto simp: session_left_def)
qed

lemma calls_typed:
  fixes P :: "'o wc" and io :: 'io
  assumes "hs_crypto P H ab ext exp mac" and "parse_ok X" and "hash_ok P X" and "io_ok send recv avail"
    and "in_phase send recv ph s" and "honest c"
  shows "call_typed P X send recv ph c io (api P X send recv c s io)"
proof -
  have "wc_sizes P" "gcm_sizes P" using hs_cryptoD(3,5) [OF assms(1)] by (simp_all add: kdf_usable_def hkdf_ok_def)
  then show ?thesis
  proof (cases c)
    case (Connect_CertName g ctx anchor anchorLen name pin pinLen scr cap)
    show ?thesis
      unfolding Connect_CertName using assms(6) unfolding Connect_CertName by (rule connect_name_typed [OF assms(1-5)])
  qed (use assms in \<open>simp_all only: honest.simps send_typed recv_typed close_typed connect_psk_typed connect_cert_typed\<close>)
qed

section \<open>Reachable structs\<close>

text \<open>What an application can reach from a zeroed struct by honest calls in any order.\<close>

inductive life ::
    "'o wc \<Rightarrow> 'o wcx \<Rightarrow> 'io wn_IoSend \<Rightarrow> 'io wn_IoRecv \<Rightarrow> 'io wn_Session \<Rightarrow> 'io \<Rightarrow> bool"
  for P :: "'o wc" and X :: "'o wcx" and send :: "'io wn_IoSend" and recv :: "'io wn_IoRecv" where
  starts: "life P X send recv zero_session io"
| calls: "life P X send recv s io \<Longrightarrow> honest c \<Longrightarrow> api P X send recv c s io = Some (ret, s', io') \<Longrightarrow>
    life P X send recv s' io'"

lemma life_in_phase:
  assumes "hs_crypto P H ab ext exp mac" and "parse_ok X" and "hash_ok P X" and "io_ok send recv avail"
    and "life P X send recv s io"
  shows "\<exists>ph. in_phase send recv ph s"
  using assms(5)
proof (induction rule: life.induct)
  case (starts io)
  have "in_phase send recv Wiped zero_session" by (simp add: in_phase_def)
  then show ?case ..
next
  case (calls s io c ret s' io')
  then obtain ph where ph: "in_phase send recv ph s" by blast
  from calls_typed [OF assms(1-4) ph calls.hyps(2), of io] calls.hyps(3) show ?case
    by (auto simp: call_typed_def)
qed

text \<open>The phases exclude each other, so that the phase of a struct is a function of it.\<close>

lemma phase_unique: "in_phase send recv ph s \<Longrightarrow> in_phase send recv ph' s \<Longrightarrow> ph = ph'"
  by (cases ph; cases ph') (auto simp: in_phase_def zero_session_def flag_bits)

text \<open>
  C8. A session struct is always in one of three phases: wiped (all zero), established, or closed
  by the peer. Whatever honest calls of the interface an application has made on it in whatever order, with
  whatever results, exactly one of them holds; the next call returns without leaving a buffer, with
  0 or a negative code, and moves the struct along the edges of \<open>next_phase\<close>: only a handshake that
  returned 0 establishes it, only \<open>E_CLOSED\<close> from \<open>wn_Recv\<close> closes it, \<open>wn_Close\<close> and a failed
  handshake wipe it. A wiped or closed struct answers \<open>wn_Send\<close> and \<open>wn_Recv\<close> with \<open>E_BAD_STATE\<close> or
  \<open>E_CLOSED\<close> and leaves the transport alone, and so does a call with a NULL argument.
\<close>

theorem session_typed:
  assumes "hs_crypto P H ab ext exp mac" and "parse_ok X" and "hash_ok P X" and "io_ok send recv avail"
    and "life P X send recv s io"
  shows "\<exists>!ph. in_phase send recv ph s \<and> (\<forall>c. honest c \<longrightarrow> call_typed P X send recv ph c io (api P X send recv c s io))"
proof -
  obtain ph where "in_phase send recv ph s" using life_in_phase [OF assms] by blast
  then show ?thesis
    by (intro ex1I [of _ ph] conjI allI impI calls_typed [OF assms(1-4)]) (auto intro: phase_unique)
qed

text \<open>A zeroed struct is closed; then the application connects, with too little scratch.\<close>

theorem session_typed_witness:
  "\<exists>ph. in_phase demo_send demo_recv ph (zero_session :: bytes wn_Session) \<and>
    call_typed demo_wc demo_wcx demo_send demo_recv ph
      (Connect_Psk (Some [7]) 0 (Some [1, 2]) 2 (Some [97]) (Some [0, 0, 0]) 3) [22, 3, 3]
      (api demo_wc demo_wcx demo_send demo_recv
        (Connect_Psk (Some [7]) 0 (Some [1, 2]) 2 (Some [97]) (Some [0, 0, 0]) 3) zero_session [22, 3, 3])"
proof -
  have "api demo_wc demo_wcx demo_send demo_recv Close (zero_session :: bytes wn_Session) [22, 3, 3] = Some (0, zero_session, [22, 3, 3])"
    by (simp add: session_left_def wn_Close_def zero_session_def)
  then have "life demo_wc demo_wcx demo_send demo_recv (zero_session :: bytes wn_Session) [22, 3, 3]"
    using life.calls [OF life.starts, of Close demo_wc demo_wcx demo_send demo_recv "[22, 3, 3]"] by simp
  from session_typed [OF demo_hs_crypto demo_parse_ok demo_hash_ok demo_io_ok this] show ?thesis
    by (auto simp: holds_len_def simp del: api.simps)
qed

end
