(* ===== verification/Spec2Isabelle.thy ===== *)
theory Spec2Isabelle
  imports Wn_Codes Wn_Flight Wn_Transcript Wn_KeySchedule Wn_Record Wn_ServerHello Wn_ClientHello Wn_SessionSpec Wn_PskHello Wn_PskSpec Wn_HandshakeSpec Wn_ConnectCert Wn_X509Spec Wn_CertMsgs Wn_CertFlight Wn_CertSpec Wn_Lifecycle
begin

text \<open>
  wolfNanoTLS (\<open>src/\<close>) is a TLS 1.3 client for small devices: no heap, no blocking state of its
  own, one cipher suite (TLS_AES_128_GCM_SHA256), a caller-provided scratch buffer and two transport
  callbacks. This library models its code under \<open>src/src/\<close> and \<open>src/include/\<close> function by
  function and proves what each part, and the handshakes and the session composed of them, promise.

  The program. \<open>wn_Connect_Psk_ex\<close> and \<open>wn_Connect_Cert[Name]_ex\<close> (\<open>wn_connect.c\<close>) run a
  handshake: a ClientHello is built (\<open>wn_clienthello.c\<close>, with a static encoder of its own for PSK)
  on a bounds-checked writer (\<open>wn_msg.c\<close>), its key share comes from \<open>wn_keyshare.c\<close> and
  \<open>wn_hybrid.c\<close>; the ServerHello is received as a record (\<open>wn_record.c\<close>) and parsed
  (\<open>wn_serverhello.c\<close>); \<open>wn_keyschedule.c\<close> derives the keys from the transcript hash
  (\<open>wn_transcript.c\<close>); the encrypted flight is reassembled, ordered (\<open>wn_flight.h\<close> on the
  certificate path) and checked; and the driver hands out a session. \<open>wn_session.c\<close> then sends and
  receives application data, answers KeyUpdates, and closes.

  How C is modelled. A pointer argument the code compares with NULL is an \<open>option\<close>; the memory
  behind a pointer is the byte list from it on, and \<open>p + n\<close> is \<open>drop n\<close>. Every load and store
  goes through \<open>mem_get\<close>, \<open>mem_read\<close>, \<open>mem_set\<close>, \<open>mem_write\<close> of \<open>Wn_Prelude\<close>, which have no
  result (\<open>None\<close>) outside the list: a theorem that a call returns \<open>Some\<close> therefore also says that it
  stays inside its buffers. \<open>runs m Q\<close> states both, \<open>ends I B m\<close> (\<open>Wn_HandshakeSpec\<close>) refines it
  for phases with a return code. Machine integers are words of their width and wrap. A function
  returns its code and the new value of everything it writes to. Loops whose end depends on the
  transport or the input (\<open>io_recv_loop\<close>, \<open>hello_record\<close>, \<open>sh_ext_loop\<close>, \<open>recv_loop\<close>, \<open>posths_loop\<close>,
  \<open>psk_msgs\<close>, \<open>psk_flight\<close>, \<open>cert_entries\<close>, \<open>cert_msgs\<close>, \<open>cert_flight\<close>, ...) are
  \<open>partial_function (option)\<close>, so that not returning is \<open>None\<close> too; nothing uses fuel. They are
  proved to return by induction on what is left: of the message for parsers, of the buffer for
  messages in it, and for records the measure \<open>avail\<close> of \<open>io_ok\<close>, which says that a transport
  that delivers bytes has fewer left to deliver. Build options (\<open>NO_RSA\<close>, \<open>HAVE_ECC384\<close>,
  \<open>WOLFNANO_HAVE_MLKEM_HYBRID\<close>, \<open>WOLFSSL_HAVE_MLDSA\<close>, \<open>WOLFNANO_SEND_ALERTS\<close>, \<open>NO_ASN_TIME\<close>, ...) are
  fields of the parameter records, so every configuration is covered at once.

  The theories.
  \<^item> \<open>Wn_Prelude\<close>: memory, the \<open>runs\<close> calculus, big-endian numbers, words.
  \<^item> \<open>Wn_Codes\<close>: return codes, their strings, alerts with the table of RFC 8446 (\<open>wolfnano.h\<close>, \<open>wn_error.c\<close>, \<open>wn_alert.h\<close>).
  \<^item> \<open>Wn_Flight\<close>: \<open>wn_FlightOrder\<close>, the locale \<open>flight_gate\<close> and its instance \<open>cert\<close>, and the states a
    driver can reach.
  \<^item> \<open>Wn_Seam\<close>: the records \<open>wc\<close> of wolfCrypt's functions and the build options, and the laws assumed of
    them (below), each with a concrete instance \<open>demo_wc\<close>.
  \<^item> \<open>Wn_Msg\<close>: writer and reader of \<open>wn_msg.c\<close>. The locales \<open>wire_writer\<close> and \<open>wire_reader\<close> carry what
    encoders and parsers prove about them; \<open>wtr\<close> and \<open>rdr\<close> are the instances on the code.
  \<^item> \<open>Wn_Transcript\<close>: locale \<open>running_hash\<close>, instance \<open>tr\<close>: the hash is that of all bytes fed in.
  \<^item> \<open>Wn_KeySchedule\<close>: locale \<open>label_kdf\<close>, instance \<open>kdf\<close>: the operations against RFC 8446, section 7.
  \<^item> \<open>Wn_Record\<close>: framing, nonces, AEAD; locale \<open>record_channel\<close>, instance \<open>chan\<close>.
  \<^item> \<open>Wn_ServerHello\<close>: the parser, shown to accept exactly the encodings of well-formed messages of
    the datatype \<open>server_hello\<close>. \<open>Wn_ClientHello\<close>: the encoder, against a tree of vectors.
  \<^item> \<open>Wn_KeyShare\<close>: X25519, P-256 and the X25519MLKEM768 hybrid.
  \<^item> \<open>Wn_Session\<close> (the code) and \<open>Wn_SessionSpec\<close> (two sessions as a channel, receiving against the
    peer's messages, KeyUpdate as a refinement, closing).
  \<^item> \<open>Wn_Handshake\<close>: the phases both drivers share, on the record \<open>hs_locals\<close> of the locals they have in
    common, and \<open>wn_CheckEncExt\<close>, \<open>wn_DeriveHsKeys\<close>, \<open>wn_SessionEstablish\<close>, \<open>wn_SendAlert\<close>.
    \<open>Wn_HandshakeSpec\<close>: the invariant \<open>hs_ok\<close> of the locals, which also tracks where a private key
    was made, and the effect of each phase; after the wipe every secret is zero and every key freed.
  \<^item> \<open>Wn_ConnectPsk\<close>, \<open>Wn_PskHello\<close>, \<open>Wn_PskSpec\<close>: the PSK driver, its ClientHello and binder, and the
    whole PSK handshake: it always returns and wipes its secrets, and it succeeds only with a peer
    that proved to know the key. \<open>rfc_encodes\<close> of \<open>Wn_PskHello\<close> is the strict encoding of RFC 8446, which does not
    exist for a vector that is too long for its length field.
  \<^item> \<open>Wn_X509\<close>, \<open>Wn_X509Spec\<close>: names, pins, validity, chains and CertificateVerify.
  \<^item> \<open>Wn_ConnectCert\<close>: the certificate driver and its four entry points, on \<open>cert_locals\<close>.
    \<open>Wn_CertMsgs\<close>: what its parsers accept as Certificate and CertificateVerify. \<open>Wn_CertFlight\<close>: the
    invariant of its locals, with the transcript, the gate's flags and the leaf's key in one
    predicate, kept by every message and record. \<open>Wn_CertSpec\<close>: the whole certificate handshake: it
    always returns and wipes its secrets, and it succeeds only with a peer whose chain leads to the
    anchor and who signed the transcript with the leaf's key; a failure is reported by the alert of \<open>alert_table\<close>.
  \<^item> \<open>Wn_Lifecycle\<close>: the calls of the interface in any order on one session struct: it is wiped, established or
    closed at any time, and every call with honest lengths returns.

  A driver is the sequence of its phases: \<open>m \<bind> ok f\<close> is the C idiom \<open>if (ret == SUCCESS) ret = f(...)\<close>,
  and \<open>fail_if\<close> sets an error code. The names of locals in the records are those of the C code with
  a prefix (\<open>l_\<close>, \<open>p_\<close>, \<open>c_\<close>).

  What is assumed of code outside \<open>src/\<close>, as hypotheses of the theorems that need it: \<open>sha_ok\<close>,
  \<open>hkdf_ok\<close>, \<open>hmac_ok\<close> (hash, HKDF and HMAC calls succeed and compute some fixed functions of the
  digest's size; HKDF up to the 255 blocks of RFC 5869 and the 255-byte fields of RFC 8446), \<open>kdf_usable\<close> (these for a supported digest), \<open>gcm_sizes\<close> (AES-GCM stores what it
  says it stores) and \<open>gcm_ok\<close> (under a 16-byte key and a 12-byte nonce decryption inverts encryption), \<open>kex_sizes\<close> (sizes of shares and
  secrets), \<open>compare_ok\<close> (\<open>ConstantCompare\<close> is 0 exactly on equal bytes), \<open>parse_ok\<close>, \<open>hash_ok\<close>
  (X.509 parser and hashes are consistent about lengths), \<open>io_ok\<close> (a transport callback stores no more
  than it is offered, and what it can deliver ends). \<open>hs_crypto\<close> bundles those of a handshake. None of
  them says that a signature, a MAC or a ciphertext cannot be forged: the theorems say which
  checks have passed, in terms of these functions.

  Bounds. The PSK flight fits the 512 bytes of \<open>p_plain\<close>, the certificate flight
  \<open>WN_HS_ACC_SZ\<close>; messages are below \<open>2^24\<close> bytes and buffers at least 64 KiB below
  \<open>2^32\<close> bytes, so that no length computation of the code wraps; where one can (\<open>wn_Write_Bytes\<close>, the extensions
  and the identities vector of the PSK hello) the theorems say from which length on.

  Not modelled. \<open>src/include/wolfnano/wolfnano_crypto.h\<close> only includes wolfCrypt headers;
  \<open>src/wolfnano_config.h\<close>, \<open>src/wolfnano_target.h\<close>, \<open>src/user_settings.h\<close> and \<open>src/configs/\<close> select
  macros, which are the options above; \<open>src/examples/\<close> and \<open>src/bench/\<close> are command-line programs
  around the library (sockets, arguments, output); \<open>src/tests/\<close> and \<open>src/scripts/\<close> test it; wolfSSL
  itself is a submodule that is not in the sources.
\<close>

end
